(* ===== verification/Prelude.thy ===== *)
theory Prelude
  imports Main "HOL-Library.AList" "HOL-Library.Word" "HOL-Library.Multiset" "HOL-Library.Code_Target_Numeral"
begin

text \<open>
  Shared by every component: the exceptions of the code as values, ASCII case folding as
  \<^verbatim>\<open>StringUtil::Lower\<close> does it, decimal printing as \<^verbatim>\<open>std::to_string\<close> does it, generic list
  lemmas, and the
  two locales used by every component that is a state machine or a widening.
\<close>

section \<open>Fact collections\<close>

named_theorems raw_defs \<open>definitions the component proofs unfold\<close>
named_theorems raw_ok \<open>preservation of well-formedness\<close>

section \<open>Errors as values\<close>

text \<open>One constructor per exception class the code throws; the string is the message's stem.\<close>

datatype raw_error =
    InvalidInput string
  | InternalError string
  | TransactionError string
  | NotImplemented string
  | CastError string

type_synonym 'a result = "raw_error + 'a"

definition bind_result :: "'a result \<Rightarrow> ('a \<Rightarrow> 'b result) \<Rightarrow> 'b result" where
  "bind_result r f = (case r of Inl e \<Rightarrow> Inl e | Inr x \<Rightarrow> f x)"

lemma bind_result_simps [simp]:
  "bind_result (Inl e) f = Inl e"
  "bind_result (Inr x) f = f x"
  by (simp_all add: bind_result_def)

lemma bind_result_Inr_iff [simp]:
  "bind_result r f = Inr y \<longleftrightarrow> (\<exists>x. r = Inr x \<and> f x = Inr y)"
  by (cases r) simp_all

lemma map_sum_Inr_iff: "map_sum f g r = Inr y \<longleftrightarrow> (\<exists>x. r = Inr x \<and> g x = y)"
  by (cases r) simp_all

text \<open>A loop whose body may throw: the first error leaves the loop.\<close>

fun map_result :: "('a \<Rightarrow> 'b result) \<Rightarrow> 'a list \<Rightarrow> 'b list result" where
  "map_result f [] = Inr []"
| "map_result f (x # xs) =
     bind_result (f x) (\<lambda>y. bind_result (map_result f xs) (\<lambda>ys. Inr (y # ys)))"

lemma map_result_length: "map_result f xs = Inr ys \<Longrightarrow> length ys = length xs"
  by (induction xs arbitrary: ys) auto

lemma map_result_nth:
  "map_result f xs = Inr ys \<Longrightarrow> i < length xs \<Longrightarrow> f (xs ! i) = Inr (ys ! i)"
proof (induction xs arbitrary: ys i)
  case (Cons x xs)
  then show ?case by (cases i) auto
qed simp

lemma map_result_Inr:
  "(\<And>x. x \<in> set xs \<Longrightarrow> f x = Inr (g x)) \<Longrightarrow> map_result f xs = Inr (map g xs)"
  by (induction xs) auto

lemma map_result_append:
  "map_result f (xs @ ys) =
     bind_result (map_result f xs) (\<lambda>as. bind_result (map_result f ys) (\<lambda>bs. Inr (as @ bs)))"
proof (induction xs)
  case Nil
  then show ?case by (cases "map_result f ys") auto
next
  case (Cons x xs)
  then show ?case
    by (cases "f x"; cases "map_result f xs"; cases "map_result f ys") auto
qed

lemma map_result_iff: "map_result f xs = Inr ys \<longleftrightarrow> list_all2 (\<lambda>x y. f x = Inr y) xs ys"
  by (induction xs arbitrary: ys) (auto simp: list_all2_Cons1)

lemma map_result_map: "map_result f (map g xs) = map_result (\<lambda>x. f (g x)) xs"
  by (induction xs) auto

lemma map_result_concat:
  "map_result f (concat xss) = Inr ys \<Longrightarrow>
     \<exists>yss. map_result (map_result f) xss = Inr yss \<and> concat yss = ys"
  by (induction xss arbitrary: ys) (auto simp: map_result_append)

lemma map_result_bind:
  "map_result (\<lambda>x. bind_result (f x) g) xs = Inr ys \<Longrightarrow>
     \<exists>ms. map_result f xs = Inr ms \<and> map_result g ms = Inr ys"
  by (induction xs arbitrary: ys) auto

lemma map_result_cong [fundef_cong]:
  "xs = ys \<Longrightarrow> (\<And>x. x \<in> set ys \<Longrightarrow> f x = g x) \<Longrightarrow> map_result f xs = map_result g ys"
  by (induction ys arbitrary: xs) auto

lemma map_result_ex:
  "(\<And>x. x \<in> set xs \<Longrightarrow> \<exists>y. f x = Inr y) \<Longrightarrow> \<exists>ys. map_result f xs = Inr ys"
  by (induction xs) auto

lemma list_all2_set_right: "list_all2 P xs ys \<Longrightarrow> y \<in> set ys \<Longrightarrow> \<exists>x \<in> set xs. P x y"
  by (induction rule: list_all2_induct) auto

section \<open>Strings\<close>

text \<open>
  Strings are byte strings. \<^verbatim>\<open>StringUtil::CharacterToLower\<close> folds the 26 ASCII capitals
  and nothing else; DuckDB's case-insensitive containers compare the folded strings.
\<close>

definition lower_char :: "char \<Rightarrow> char" where
  "lower_char c =
     (let n = (of_char c :: nat) in if 65 \<le> n \<and> n \<le> 90 then char_of (n + 32) else c)"

definition lower :: "string \<Rightarrow> string" where
  "lower s = map lower_char s"

lemma lower_append [simp]: "lower (s @ t) = lower s @ lower t"
  by (simp add: lower_def)

lemma lower_Nil [simp]: "lower [] = []"
  by (simp add: lower_def)

lemma lower_Cons [simp]: "lower (c # s) = lower_char c # lower s"
  by (simp add: lower_def)

lemma length_lower [simp]: "length (lower s) = length s"
  by (simp add: lower_def)

lemma lower_char_digit: "of_char c < (65::nat) \<Longrightarrow> lower_char c = c"
  by (simp add: lower_char_def Let_def)

lemma lower_char_idem [simp]: "lower_char (lower_char c) = lower_char c"
proof -
  consider "65 \<le> (of_char c :: nat) \<and> (of_char c :: nat) \<le> 90"
    | "\<not> (65 \<le> (of_char c :: nat) \<and> (of_char c :: nat) \<le> 90)" by blast
  then show ?thesis
  proof cases
    case 1
    then have "(of_char (char_of ((of_char c :: nat) + 32)) :: nat) = of_char c + 32"
      by (simp add: of_char_of)
    with 1 show ?thesis by (simp add: lower_char_def Let_def)
  next
    case 2
    then show ?thesis by (auto simp add: lower_char_def Let_def)
  qed
qed

lemma lower_idem [simp]: "lower (lower s) = lower s"
  by (simp add: lower_def)

text \<open>Decimal printing (\<^verbatim>\<open>std::to_string\<close> on an unsigned number).\<close>

definition digit_char :: "nat \<Rightarrow> char" where
  "digit_char d = char_of (48 + d)"

fun dec_string :: "nat \<Rightarrow> string" where
  "dec_string n =
     (if n < 10 then [digit_char n] else dec_string (n div 10) @ [digit_char (n mod 10)])"

declare dec_string.simps [simp del]

lemma digit_char_inj: "a < 10 \<Longrightarrow> b < 10 \<Longrightarrow> digit_char a = digit_char b \<Longrightarrow> a = b"
proof -
  assume ab: "a < 10" "b < 10" and eq: "digit_char a = digit_char b"
  from eq have "(of_char (char_of (48 + a)) :: nat) = of_char (char_of (48 + b))"
    by (simp add: digit_char_def)
  with ab show ?thesis by (simp add: of_char_of)
qed

lemma lower_digit_char: "d < 10 \<Longrightarrow> lower_char (digit_char d) = digit_char d"
  by (rule lower_char_digit) (simp add: digit_char_def of_char_of)

lemma dec_string_nonempty [simp]: "dec_string n \<noteq> []" "[] \<noteq> dec_string n"
  by (subst dec_string.simps, simp)+

lemma lower_dec_string [simp]: "lower (dec_string n) = dec_string n"
proof (induction n rule: dec_string.induct)
  case (1 n)
  then show ?case
    by (cases "n < 10") (simp_all add: dec_string.simps [of n] lower_def lower_digit_char)
qed

lemma dec_string_inj: "dec_string m = dec_string n \<Longrightarrow> m = n"
proof (induction m arbitrary: n rule: dec_string.induct)
  case (1 m)
  show ?case
  proof (cases "m < 10"; cases "n < 10")
    assume "m < 10" "n < 10"
    with "1.prems" show ?thesis
      by (simp add: dec_string.simps [of m] dec_string.simps [of n] digit_char_inj)
  next
    assume "m < 10" "\<not> n < 10"
    with "1.prems" show ?thesis
      by (simp add: dec_string.simps [of m] dec_string.simps [of n])
  next
    assume "\<not> m < 10" "n < 10"
    with "1.prems" show ?thesis
      by (simp add: dec_string.simps [of m] dec_string.simps [of n])
  next
    assume m: "\<not> m < 10" and n: "\<not> n < 10"
    with "1.prems" have "dec_string (m div 10) = dec_string (n div 10)"
      and d: "digit_char (m mod 10) = digit_char (n mod 10)"
      by (simp_all add: dec_string.simps [of m] dec_string.simps [of n])
    with "1.IH" m have "m div 10 = n div 10" by blast
    moreover from d have "m mod 10 = n mod 10" by (simp add: digit_char_inj)
    ultimately show ?thesis by (metis div_mult_mod_eq)
  qed
qed

section \<open>Lists\<close>

definition last_opt :: "'a list \<Rightarrow> 'a option" where
  "last_opt xs = (if xs = [] then None else Some (last xs))"

lemma last_opt_simps [simp]:
  "last_opt [] = None"
  "last_opt (xs @ [x]) = Some x"
  by (simp_all add: last_opt_def)

lemma last_opt_append:
  "last_opt (xs @ ys) = (case last_opt ys of None \<Rightarrow> last_opt xs | Some y \<Rightarrow> Some y)"
  by (simp add: last_opt_def)

lemma last_opt_None_iff [simp]: "last_opt xs = None \<longleftrightarrow> xs = []"
  by (simp add: last_opt_def)

lemma map_of_Some_nth:
  "map_of xs k = Some v \<Longrightarrow> \<exists>i < length xs. xs ! i = (k, v)"
  by (metis in_set_conv_nth map_of_SomeD)

lemma set_update_subset: "set (AList.update k v xs) \<subseteq> insert (k, v) (set xs)"
  by (induction xs) auto

lemma mset_concat_update:
  "i < length xs \<Longrightarrow>
     mset (concat (map f (xs[i := y]))) + mset (f (xs ! i)) = mset (concat (map f xs)) + mset (f y)"
proof (induction xs arbitrary: i)
  case (Cons x xs)
  then show ?case by (cases i) (auto simp: ac_simps)
qed simp

section \<open>State machines\<close>

text \<open>
  The contract every concurrent component states: a predicate that holds in the start
  states and that every step keeps. The lemma is used through interpretations.
\<close>

locale inductive_invariant =
  fixes start :: "'s \<Rightarrow> bool"
    and move :: "'s \<Rightarrow> 's \<Rightarrow> bool"
    and inv :: "'s \<Rightarrow> bool"
  assumes inv_start: "start s \<Longrightarrow> inv s"
    and inv_move: "inv s \<Longrightarrow> move s t \<Longrightarrow> inv t"
begin

lemma inv_reachable: "start s \<Longrightarrow> move\<^sup>*\<^sup>* s t \<Longrightarrow> inv t"
proof -
  assume st: "start s" and run: "move\<^sup>*\<^sup>* s t"
  from run show "inv t"
    by (induction rule: rtranclp_induct) (auto intro: inv_start [OF st] inv_move)
qed

lemma inv_steps: "inv s \<Longrightarrow> move\<^sup>*\<^sup>* s t \<Longrightarrow> inv t"
proof -
  assume i: "inv s" and run: "move\<^sup>*\<^sup>* s t"
  from run show "inv t"
    by (induction rule: rtranclp_induct) (auto intro: i inv_move)
qed

end

text \<open>
  The contract of a machine that comes to an end: while an invariant holds every step keeps it
  and leaves less to do.
\<close>

locale terminating =
  fixes inv :: "'s \<Rightarrow> bool"
    and move :: "'s \<Rightarrow> 's \<Rightarrow> bool"
    and todo :: "'s \<Rightarrow> nat"
  assumes inv_kept: "inv s \<Longrightarrow> move s t \<Longrightarrow> inv t"
    and todo_less: "inv s \<Longrightarrow> move s t \<Longrightarrow> todo t < todo s"
begin

lemma inv_run: "inv s \<Longrightarrow> move\<^sup>*\<^sup>* s t \<Longrightarrow> inv t"
proof -
  assume i: "inv s" and run: "move\<^sup>*\<^sup>* s t"
  from run show "inv t" by (induction rule: rtranclp_induct) (auto intro: i inv_kept)
qed

lemma no_infinite_run:
  assumes "inv s"
  shows "\<nexists>f. f 0 = s \<and> (\<forall>i. move (f i) (f (Suc i)))"
proof
  assume "\<exists>f. f 0 = s \<and> (\<forall>i. move (f i) (f (Suc i)))"
  then obtain f where f: "f 0 = s" "\<And>i. move (f i) (f (Suc i))" by blast
  have inv: "inv (f i)" for i by (induction i) (use assms f in \<open>auto intro: inv_kept\<close>)
  have "todo (f i) + i \<le> todo s" for i
  proof (induction i)
    case (Suc i)
    with todo_less [OF inv [of i] f(2) [of i]] show ?case by simp
  qed (simp add: f(1))
  from this [of "Suc (todo s)"] show False by simp
qed

end

section \<open>Widening\<close>

text \<open>
  The contract of a widening: joining types is associative, commutative and idempotent.
  Everything the code relies on when it merges rows one by one follows from it.
\<close>

locale widening =
  fixes join :: "'t \<Rightarrow> 't \<Rightarrow> 't"
  assumes join_assoc: "join (join a b) c = join a (join b c)"
    and join_comm: "join a b = join b a"
    and join_idem: "join a a = a"
begin

definition below :: "'t \<Rightarrow> 't \<Rightarrow> bool" where
  "below a b \<longleftrightarrow> join b a = b"

lemma below_refl: "below a a"
  by (simp add: below_def join_idem)

lemma below_trans: "below a b \<Longrightarrow> below b c \<Longrightarrow> below a c"
  by (metis below_def join_assoc)

lemma below_antisym: "below a b \<Longrightarrow> below b a \<Longrightarrow> a = b"
  by (metis below_def join_comm)

lemma below_join: "below b (join a b)" "below a (join a b)"
  by (metis below_def join_assoc join_comm join_idem)+

lemma join_least: "below a c \<Longrightarrow> below b c \<Longrightarrow> below (join a b) c"
  by (metis below_def join_assoc)

lemma join_left_commute: "join a (join b c) = join b (join a c)"
  by (metis join_assoc join_comm)

lemma fold_join_start: "fold (\<lambda>x acc. join acc (f x)) xs (join a b) =
    join (fold (\<lambda>x acc. join acc (f x)) xs a) b"
proof (induction xs arbitrary: a)
  case (Cons x xs)
  have "join (join a b) (f x) = join (join a (f x)) b"
    by (simp only: join_assoc join_comm [of b])
  with Cons show ?case by simp
qed simp

lemma below_fold_start: "below a (fold (\<lambda>x acc. join acc (f x)) xs a)"
proof (induction xs arbitrary: a)
  case (Cons x xs)
  then show ?case by simp (meson below_join(2) below_trans)
qed (simp add: below_refl)

lemma below_fold: "x \<in> set xs \<Longrightarrow> below (f x) (fold (\<lambda>x acc. join acc (f x)) xs a)"
proof (induction xs arbitrary: a)
  case (Cons y xs)
  then show ?case by (auto intro: below_trans [OF below_join(1) below_fold_start])
qed simp

lemma fold_join_mset:
  "mset xs = mset ys \<Longrightarrow>
     fold (\<lambda>x acc. join acc (f x)) xs a = fold (\<lambda>x acc. join acc (f x)) ys a"
proof -
  assume "mset xs = mset ys"
  moreover have "\<And>x y. (\<lambda>acc. join acc (f x)) \<circ> (\<lambda>acc. join acc (f y)) =
      (\<lambda>acc. join acc (f y)) \<circ> (\<lambda>acc. join acc (f x))"
    by (rule ext) (simp add: join_assoc join_comm join_left_commute)
  ultimately show ?thesis
    by (intro fold_permuted_eq [where P = "\<lambda>_. True", symmetric]) (auto simp: fun_eq_iff)
qed

end

end
