(* ===== verification/Json.thy ===== *)
theory Json
  imports Prelude
begin

text \<open>
  The data the program works on: parsed JSON values as \<^verbatim>\<open>yyjson\<close> hands them over (object
  members in document order, duplicates kept), DuckDB's logical types as far as the code
  distinguishes them, and the functions of third-party code the program calls, collected in
  the record \<open>lib\<close> that every definition using them takes as an argument.
\<close>

section \<open>JSON values\<close>

text \<open>
  \<^verbatim>\<open>yyjson\<close> tags a number as unsigned, signed or real; the reader tags a non-negative
  integer as unsigned. A double is its 64-bit pattern.
\<close>

datatype json =
    JNull
  | JBool bool
  | JUint "64 word"
  | JSint "64 word"
  | JReal "64 word"
  | JStr string
  | JArr "json list"
  | JObj "(string \<times> json) list"

abbreviation json_size :: "json \<Rightarrow> nat" where
  "json_size \<equiv> size"

text \<open>The type tests of \<^verbatim>\<open>yyjson\<close> that the code uses.\<close>

fun is_null :: "json \<Rightarrow> bool" where
  "is_null JNull = True" | "is_null _ = False"

fun is_bool :: "json \<Rightarrow> bool" where
  "is_bool (JBool _) = True" | "is_bool _ = False"

fun is_num :: "json \<Rightarrow> bool" where
  "is_num (JUint _) = True" | "is_num (JSint _) = True" | "is_num (JReal _) = True"
| "is_num _ = False"

fun is_str :: "json \<Rightarrow> bool" where
  "is_str (JStr _) = True" | "is_str _ = False"

fun is_arr :: "json \<Rightarrow> bool" where
  "is_arr (JArr _) = True" | "is_arr _ = False"

fun is_obj :: "json \<Rightarrow> bool" where
  "is_obj (JObj _) = True" | "is_obj _ = False"

fun elements :: "json \<Rightarrow> json list" where
  "elements (JArr vs) = vs" | "elements _ = []"

fun members :: "json \<Rightarrow> (string \<times> json) list" where
  "members (JObj ms) = ms" | "members _ = []"

text \<open>\<^verbatim>\<open>yyjson_obj_get\<close>: the first member with the key.\<close>

definition obj_get :: "json \<Rightarrow> string \<Rightarrow> json option" where
  "obj_get v k = map_of (members v) k"

lemma is_obj_iff: "is_obj v \<longleftrightarrow> (\<exists>ms. v = JObj ms)"
  by (cases v) auto

lemma is_arr_iff: "is_arr v \<longleftrightarrow> (\<exists>vs. v = JArr vs)"
  by (cases v) auto

lemma is_null_iff: "is_null v \<longleftrightarrow> v = JNull"
  by (cases v) auto

lemma size_member: "(k, v) \<in> set ms \<Longrightarrow> size v < size (JObj ms)"
  by (induction ms) auto

text \<open>
  The termination prover may use the nested size of a list of values or of members.
\<close>

lemma is_measure_values [measure_function]:
  "is_measure (size_list size :: json list \<Rightarrow> nat)"
  by (rule is_measure_trivial)

lemma is_measure_members [measure_function]:
  "is_measure (size_list (size_prod (\<lambda>_. 0) size) :: (string \<times> json) list \<Rightarrow> nat)"
  by (rule is_measure_trivial)

section \<open>Logical types\<close>

text \<open>
  DuckDB's \<^verbatim>\<open>LogicalType\<close>: the ids the code names, lists, the JSON alias of VARCHAR, and
  \<open>TOther\<close> for every id it only meets in a default branch (DECIMAL, STRUCT, UBIGINT, \<dots>).
\<close>

datatype type_id =
    ID_BOOLEAN | ID_TINYINT | ID_SMALLINT | ID_INTEGER | ID_BIGINT | ID_HUGEINT
  | ID_UTINYINT | ID_USMALLINT | ID_UINTEGER | ID_FLOAT | ID_DOUBLE | ID_DATE
  | ID_TIMESTAMP | ID_VARCHAR | ID_LIST | ID_OTHER nat

datatype logical_type =
    TBoolean | TTinyint | TSmallint | TInteger | TBigint | THugeint
  | TUtinyint | TUsmallint | TUinteger | TFloat | TDouble | TDate | TTimestamp
  | TVarchar | TJson | TList logical_type | TOther nat

fun ltype_id :: "logical_type \<Rightarrow> type_id" where
  "ltype_id TBoolean = ID_BOOLEAN"
| "ltype_id TTinyint = ID_TINYINT"
| "ltype_id TSmallint = ID_SMALLINT"
| "ltype_id TInteger = ID_INTEGER"
| "ltype_id TBigint = ID_BIGINT"
| "ltype_id THugeint = ID_HUGEINT"
| "ltype_id TUtinyint = ID_UTINYINT"
| "ltype_id TUsmallint = ID_USMALLINT"
| "ltype_id TUinteger = ID_UINTEGER"
| "ltype_id TFloat = ID_FLOAT"
| "ltype_id TDouble = ID_DOUBLE"
| "ltype_id TDate = ID_DATE"
| "ltype_id TTimestamp = ID_TIMESTAMP"
| "ltype_id TVarchar = ID_VARCHAR"
| "ltype_id TJson = ID_VARCHAR"
| "ltype_id (TList _) = ID_LIST"
| "ltype_id (TOther n) = ID_OTHER n"

text \<open>\<^verbatim>\<open>GetAlias\<close>: only the JSON type of the model carries one.\<close>

fun alias_of :: "logical_type \<Rightarrow> string" where
  "alias_of TJson = ''JSON''"
| "alias_of _ = []"

definition is_raw_json_type :: "logical_type \<Rightarrow> bool" where
  "is_raw_json_type t \<longleftrightarrow> ltype_id t = ID_VARCHAR \<and> alias_of t = ''JSON''"

lemma is_raw_json_type_iff [simp]: "is_raw_json_type t \<longleftrightarrow> t = TJson"
  by (cases t) (simp_all add: is_raw_json_type_def)

section \<open>Cells\<close>

text \<open>A value of a column vector: what \<^verbatim>\<open>FillVector\<close> writes, or NULL.\<close>

datatype cell =
    CNull
  | CBool bool
  | CBigint "64 word"
  | CDouble "64 word"
  | CDate "32 word"
  | CTimestamp "64 word"
  | CText string
  | CList "cell list"

section \<open>Third-party functions\<close>

text \<open>
  The library calls the code makes on values, as one parameter. \<open>try_date\<close> is
  \<^verbatim>\<open>Date::TryConvertDate\<close> in strict mode (value, position after the date, special flag),
  \<open>try_timestamp\<close> is \<^verbatim>\<open>Timestamp::TryConvertTimestamp\<close>, \<open>try_bigint\<close> is
  \<^verbatim>\<open>TryCast\<close> from text to \<^verbatim>\<open>int64_t\<close>, \<open>read_json\<close> and \<open>write_json\<close> are the
  \<^verbatim>\<open>yyjson\<close> reader and writer, \<open>pool_read n\<close> is a read from the preallocated pool after
  \<open>n\<close> earlier reads from it, \<open>imut_copy\<close> says whether \<^verbatim>\<open>yyjson\<close> can copy the exploded
  rows to a document, \<open>num_double\<close> is \<^verbatim>\<open>yyjson_get_num\<close>, \<open>char_u64\<close> is
  \<^verbatim>\<open>NumericCast<uint64_t>(char)\<close> (a checked cast), \<open>id_u64\<close> the number of a type id,
  \<open>cast_cell\<close> and \<open>to_json_cell\<close> are DuckDB's cast between two types and its
  \<^verbatim>\<open>to_json\<close>, and \<open>append_ok\<close> says whether rows pass a table's constraints.
\<close>

record lib =
  read_json :: "string \<Rightarrow> json option"
  pool_init :: "string \<Rightarrow> bool"
  pool_read :: "nat \<Rightarrow> string \<Rightarrow> json option"
  write_json :: "json \<Rightarrow> string option"
  imut_copy :: "json list \<Rightarrow> bool"
  try_date :: "string \<Rightarrow> (32 word \<times> nat \<times> bool) option"
  try_timestamp :: "string \<Rightarrow> 64 word option"
  try_bigint :: "string \<Rightarrow> 64 word option"
  num_double :: "json \<Rightarrow> 64 word"
  char_u64 :: "char \<Rightarrow> 64 word option"
  id_u64 :: "type_id \<Rightarrow> 64 word"
  cast_cell :: "logical_type \<Rightarrow> logical_type \<Rightarrow> cell \<Rightarrow> cell option"
  to_json_cell :: "cell \<Rightarrow> cell"
  append_ok :: "string \<Rightarrow> cell list list \<Rightarrow> bool"

text \<open>
  An instance of the parameter for evaluating the definitions on concrete input: texts with
  a dash at position 4 convert to dates and timestamps, the writer prints a placeholder.
\<close>

definition sample_lib :: lib where
  "sample_lib =
     \<lparr>read_json = (\<lambda>s. if s = [] then None else Some (JObj [(s, JNull)])),
      pool_init = (\<lambda>_. True),
      pool_read = (\<lambda>_ s. if s = [] then None else Some (JObj [(s, JNull)])),
      write_json = (\<lambda>_. Some ''{}''),
      imut_copy = (\<lambda>_. True),
      try_date = (\<lambda>s. if length s = 10 \<and> s ! 4 = CHR ''-'' then Some (7, 10, False) else None),
      try_timestamp = (\<lambda>s. if 10 \<le> length s \<and> s ! 4 = CHR ''-'' then Some 9 else None),
      try_bigint = (\<lambda>s. if s = ''12'' then Some 12 else None),
      num_double = (\<lambda>_. 0), char_u64 = (\<lambda>c. Some (of_nat (of_char c))), 
      id_u64 = (\<lambda>i. case i of ID_BOOLEAN \<Rightarrow> 10 | ID_BIGINT \<Rightarrow> 14 | ID_DOUBLE \<Rightarrow> 23 | ID_DATE \<Rightarrow> 15
          | ID_TIMESTAMP \<Rightarrow> 19 | ID_VARCHAR \<Rightarrow> 25 | ID_LIST \<Rightarrow> 101 | _ \<Rightarrow> 0),
      cast_cell = (\<lambda>_ _ c. Some c), to_json_cell = (\<lambda>c. c), append_ok = (\<lambda>_ _. True)\<rparr>"

end
