(* ===== verification/Schema.thy ===== *)
theory Schema
  imports Json
begin

text \<open>
  Schema inference (\<^verbatim>\<open>raw_json.cpp\<close>, lines 632 to 795): the scalar widening lattice, the
  schema tree \<^verbatim>\<open>RawNode\<close> with its two lookup paths, and \<^verbatim>\<open>MergeValue\<close>.
\<close>

section \<open>Scalar kinds\<close>

datatype scalar_kind =
    SK_UNSET | SK_BOOLEAN | SK_BIGINT | SK_DOUBLE | SK_DATE | SK_TIMESTAMP | SK_VARCHAR

definition is_numeric_kind :: "scalar_kind \<Rightarrow> bool" where
  "is_numeric_kind k \<longleftrightarrow> k = SK_BIGINT \<or> k = SK_DOUBLE"

definition is_temporal_kind :: "scalar_kind \<Rightarrow> bool" where
  "is_temporal_kind k \<longleftrightarrow> k = SK_DATE \<or> k = SK_TIMESTAMP"

definition join_scalar_kinds :: "scalar_kind \<Rightarrow> scalar_kind \<Rightarrow> scalar_kind" where
  "join_scalar_kinds a b =
     (if a = SK_UNSET then b
      else if b = SK_UNSET \<or> a = b then a
      else if is_numeric_kind a \<and> is_numeric_kind b then SK_DOUBLE
      else if is_temporal_kind a \<and> is_temporal_kind b then SK_TIMESTAMP
      else SK_VARCHAR)"

lemmas kind_defs = join_scalar_kinds_def is_numeric_kind_def is_temporal_kind_def

lemma join_kinds_comm: "join_scalar_kinds a b = join_scalar_kinds b a"
  by (cases a; cases b; simp add: kind_defs)

lemma join_kinds_assoc:
  "join_scalar_kinds (join_scalar_kinds a b) c = join_scalar_kinds a (join_scalar_kinds b c)"
  by (cases a; cases b; cases c; simp add: kind_defs)

lemma join_kinds_idem [simp]: "join_scalar_kinds a a = a"
  by (simp add: kind_defs)

lemma join_kinds_simps [simp]:
  "join_scalar_kinds SK_UNSET b = b"
  "join_scalar_kinds a SK_UNSET = a"
  "join_scalar_kinds SK_VARCHAR b = SK_VARCHAR"
  "join_scalar_kinds a SK_VARCHAR = SK_VARCHAR"
  by (cases a; cases b; simp add: kind_defs)+

interpretation kinds: widening join_scalar_kinds
  by unfold_locales (rule join_kinds_assoc, rule join_kinds_comm, rule join_kinds_idem)

text \<open>The library's semilattice classes, so its order reasoning applies to kinds.\<close>

instantiation scalar_kind :: bounded_semilattice_sup_bot
begin

definition sup_scalar_kind :: "scalar_kind \<Rightarrow> scalar_kind \<Rightarrow> scalar_kind" where
  "sup_scalar_kind = join_scalar_kinds"

definition less_eq_scalar_kind :: "scalar_kind \<Rightarrow> scalar_kind \<Rightarrow> bool" where
  "less_eq_scalar_kind a b \<longleftrightarrow> join_scalar_kinds b a = b"

definition less_scalar_kind :: "scalar_kind \<Rightarrow> scalar_kind \<Rightarrow> bool" where
  "less_scalar_kind a b \<longleftrightarrow> join_scalar_kinds b a = b \<and> a \<noteq> b"

definition bot_scalar_kind :: scalar_kind where
  "bot_scalar_kind = SK_UNSET"

instance
proof
  fix x y z :: scalar_kind
  show "(x < y) = (x \<le> y \<and> \<not> y \<le> x)"
    by (auto simp: less_scalar_kind_def less_eq_scalar_kind_def join_kinds_comm)
  show "x \<le> x" by (simp add: less_eq_scalar_kind_def)
  show "x \<le> y \<Longrightarrow> y \<le> z \<Longrightarrow> x \<le> z"
    using kinds.below_trans by (simp add: less_eq_scalar_kind_def kinds.below_def)
  show "x \<le> y \<Longrightarrow> y \<le> x \<Longrightarrow> x = y"
    using kinds.below_antisym by (simp add: less_eq_scalar_kind_def kinds.below_def)
  show "x \<le> sup x y" "y \<le> sup x y"
    using kinds.below_join by (simp_all add: less_eq_scalar_kind_def sup_scalar_kind_def kinds.below_def)
  show "y \<le> x \<Longrightarrow> z \<le> x \<Longrightarrow> sup y z \<le> x"
    using kinds.join_least by (simp add: less_eq_scalar_kind_def sup_scalar_kind_def kinds.below_def)
  show "bot \<le> x" by (simp add: less_eq_scalar_kind_def bot_scalar_kind_def)
qed

end

subsection \<open>Sniffing\<close>

text \<open>\<^verbatim>\<open>StringUtil::CharacterIsDigit\<close>.\<close>

definition is_digit :: "char \<Rightarrow> bool" where
  "is_digit c \<longleftrightarrow> 48 \<le> (of_char c :: nat) \<and> (of_char c :: nat) \<le> 57"

definition sniff_string :: "lib \<Rightarrow> string \<Rightarrow> scalar_kind" where
  "sniff_string L s =
     (let len = length s in
      if len < 8 \<or> len > 40 \<or> \<not> is_digit (s ! 0) then SK_VARCHAR
      else if (case try_date L s of None \<Rightarrow> False | Some (_, pos, special) \<Rightarrow> pos = len \<and> \<not> special)
           then SK_DATE
      else if try_timestamp L s \<noteq> None then SK_TIMESTAMP
      else SK_VARCHAR)"

definition int64_max :: nat where
  "int64_max = 2 ^ 63 - 1"

fun sniff_scalar_kind :: "lib \<Rightarrow> json \<Rightarrow> scalar_kind" where
  "sniff_scalar_kind L (JBool b) = SK_BOOLEAN"
| "sniff_scalar_kind L (JReal r) = SK_DOUBLE"
| "sniff_scalar_kind L (JUint u) = (if unat u > int64_max then SK_DOUBLE else SK_BIGINT)"
| "sniff_scalar_kind L (JSint i) = SK_BIGINT"
| "sniff_scalar_kind L (JStr s) = sniff_string L s"
| "sniff_scalar_kind L _ = SK_VARCHAR"

section \<open>The schema tree\<close>

datatype node_class = NC_UNSET | NC_SCALAR | NC_OBJECT | NC_ARRAY | NC_JSON

datatype raw_node =
  RawNode (nclass: node_class) (nscalar: scalar_kind)
    (children: "(string \<times> raw_node) list") (child_lookup: "(string \<times> nat) list")
    (element: "raw_node option")

text \<open>A fresh node; \<open>child_lookup\<close> is the hash map from name to position.\<close>

definition new_node :: raw_node where
  "new_node = RawNode NC_UNSET SK_UNSET [] [] None"

definition RAW_CHILD_LINEAR_SCAN_LIMIT :: nat where
  "RAW_CHILD_LINEAR_SCAN_LIMIT = 24"

definition RAW_MAX_NESTING :: nat where
  "RAW_MAX_NESTING = 128"

fun set_class :: "node_class \<Rightarrow> raw_node \<Rightarrow> raw_node" where
  "set_class c (RawNode _ s ch lk el) = RawNode c s ch lk el"

fun set_scalar :: "scalar_kind \<Rightarrow> raw_node \<Rightarrow> raw_node" where
  "set_scalar s (RawNode c _ ch lk el) = RawNode c s ch lk el"

fun set_element :: "raw_node option \<Rightarrow> raw_node \<Rightarrow> raw_node" where
  "set_element el (RawNode c s ch lk _) = RawNode c s ch lk el"

text \<open>Writing through the reference \<^verbatim>\<open>GetOrCreateChild\<close> returned (child number \<open>i\<close>).\<close>

fun set_child :: "nat \<Rightarrow> raw_node \<Rightarrow> raw_node \<Rightarrow> raw_node" where
  "set_child i n (RawNode c s ch lk el) = RawNode c s (ch[i := (fst (ch ! i), n)]) lk el"

subsection \<open>Child lookup\<close>

text \<open>The linear scan over \<open>children\<close>: position of the first entry with the name.\<close>

fun scan_children :: "(string \<times> 'n) list \<Rightarrow> string \<Rightarrow> nat option" where
  "scan_children [] key = None"
| "scan_children ((name, _) # rest) key =
     (if name = key then Some 0 else map_option Suc (scan_children rest key))"

definition find_child :: "raw_node \<Rightarrow> string \<Rightarrow> nat option" where
  "find_child n key =
     (if length (children n) \<le> RAW_CHILD_LINEAR_SCAN_LIMIT
      then scan_children (children n) key
      else map_of (child_lookup n) key)"

definition append_child :: "raw_node \<Rightarrow> string \<Rightarrow> raw_node" where
  "append_child n key =
     RawNode (nclass n) (nscalar n) (children n @ [(key, new_node)])
       (AList.update key (length (children n)) (child_lookup n)) (element n)"

text \<open>The node after the call and the position of the child the reference points to.\<close>

definition get_or_create_child :: "raw_node \<Rightarrow> string \<Rightarrow> raw_node \<times> nat" where
  "get_or_create_child n key =
     (case find_child n key of
        Some i \<Rightarrow> (n, i)
      | None \<Rightarrow> (append_child n key, length (children n)))"

subsection \<open>Merging a value\<close>

definition demote_to_json :: "raw_node \<Rightarrow> raw_node" where
  "demote_to_json n = RawNode NC_JSON (nscalar n) [] [] None"

text \<open>The last part of \<^verbatim>\<open>MergeValueInternal\<close>, for a value that is no container.\<close>

definition merge_scalar :: "lib \<Rightarrow> raw_node \<Rightarrow> json \<Rightarrow> raw_node" where
  "merge_scalar L n v =
     (if nclass n = NC_SCALAR \<and> nscalar n = SK_VARCHAR then n
      else let kind = sniff_scalar_kind L v in
        if nclass n = NC_UNSET then set_scalar kind (set_class NC_SCALAR n)
        else if nclass n \<noteq> NC_SCALAR then demote_to_json n
        else set_scalar (join_scalar_kinds (nscalar n) kind) n)"

fun merge_value_internal :: "lib \<Rightarrow> raw_node \<Rightarrow> json \<Rightarrow> nat \<Rightarrow> raw_node"
  and merge_members :: "lib \<Rightarrow> raw_node \<Rightarrow> (string \<times> json) list \<Rightarrow> nat \<Rightarrow> raw_node"
  and merge_elements :: "lib \<Rightarrow> raw_node \<Rightarrow> json list \<Rightarrow> nat \<Rightarrow> raw_node" where
  "merge_value_internal L n v depth =
     (if depth > RAW_MAX_NESTING then demote_to_json n
      else if is_null v then n
      else if nclass n = NC_JSON then n
      else case v of
        JObj ms \<Rightarrow>
          (let n = (if nclass n = NC_UNSET then set_class NC_OBJECT n else n) in
           if nclass n \<noteq> NC_OBJECT then demote_to_json n
           else merge_members L n ms depth)
      | JArr vs \<Rightarrow>
          (let n = (if nclass n = NC_UNSET
                    then set_element (Some new_node) (set_class NC_ARRAY n) else n) in
           if nclass n \<noteq> NC_ARRAY then demote_to_json n
           else merge_elements L n vs depth)
      | _ \<Rightarrow> merge_scalar L n v)"
| "merge_members L n [] depth = n"
| "merge_members L n ((key, v) # ms) depth =
     (case get_or_create_child n key of
        (n', i) \<Rightarrow>
          merge_members L
            (set_child i (merge_value_internal L (snd (children n' ! i)) v (depth + 1)) n')
            ms depth)"
| "merge_elements L n [] depth = n"
| "merge_elements L n (v # vs) depth =
     merge_elements L
       (set_element
          (Some (merge_value_internal L (case element n of Some e \<Rightarrow> e | None \<Rightarrow> new_node)
                   v (depth + 1))) n)
       vs depth"

declare merge_value_internal.simps(1) [simp del]

definition merge_value :: "lib \<Rightarrow> raw_node \<Rightarrow> json \<Rightarrow> raw_node" where
  "merge_value L n v = merge_value_internal L n v 0"

text \<open>\<^verbatim>\<open>RawPayload::InferSchema\<close>: every row merged into one tree.\<close>

definition infer_schema :: "lib \<Rightarrow> json list \<Rightarrow> raw_node" where
  "infer_schema L rows = fold (\<lambda>row root. merge_value L root row) rows new_node"

end
