(* ===== verification/Schema_Spec.thy ===== *)
theory Schema_Spec
  imports Schema
begin

text \<open>
  What schema inference promises. The abstract schema of a set of values is a tree whose
  object nodes are maps from name to schema; joining two schemas is commutative, associative
  and idempotent. The contract of a node's two child lookup paths is the locale
  \<open>child_index\<close>. The refinement at the end says that \<^verbatim>\<open>MergeValue\<close> computes the join
  of the tree's schema with the schema of the value.
\<close>

section \<open>Abstract schemas\<close>

datatype schema =
    SUnset
  | SScalar scalar_kind
  | SObject "string \<Rightarrow> schema option"
  | SArray schema
  | SJson

definition omerge :: "('s \<Rightarrow> 's \<Rightarrow> 's) \<Rightarrow> ('k \<Rightarrow> 's option) \<Rightarrow> ('k \<Rightarrow> 's option) \<Rightarrow> 'k \<Rightarrow> 's option" where
  "omerge j f g k =
     (case f k of None \<Rightarrow> g k
      | Some a \<Rightarrow> (case g k of None \<Rightarrow> Some a | Some b \<Rightarrow> Some (j a b)))"

primrec sjoin :: "schema \<Rightarrow> schema \<Rightarrow> schema" where
  "sjoin SUnset t = t"
| "sjoin (SScalar k) t =
     (case t of SUnset \<Rightarrow> SScalar k | SScalar l \<Rightarrow> SScalar (join_scalar_kinds k l) | _ \<Rightarrow> SJson)"
| "sjoin (SObject f) t =
     (case t of
        SUnset \<Rightarrow> SObject f
      | SObject g \<Rightarrow> SObject (\<lambda>k. case map_option sjoin (f k) of
            None \<Rightarrow> g k
          | Some j \<Rightarrow> (case g k of None \<Rightarrow> f k | Some b \<Rightarrow> Some (j b)))
      | _ \<Rightarrow> SJson)"
| "sjoin (SArray e) t =
     (case t of SUnset \<Rightarrow> SArray e | SArray e' \<Rightarrow> SArray (sjoin e e') | _ \<Rightarrow> SJson)"
| "sjoin SJson t = SJson"

lemma sjoin_SObject [simp]: "sjoin (SObject f) (SObject g) = SObject (omerge sjoin f g)"
  by (auto simp: sjoin.simps(3) omerge_def fun_eq_iff split: option.splits)

declare sjoin.simps(3) [simp del]

lemma sjoin_SObject_other [simp]:
  "sjoin (SObject f) SUnset = SObject f" "sjoin (SObject f) (SScalar k) = SJson"
  "sjoin (SObject f) (SArray e) = SJson" "sjoin (SObject f) SJson = SJson"
  by (simp_all add: sjoin.simps(3))

lemma sjoin_SUnset_right [simp]: "sjoin s SUnset = s"
  by (cases s) auto

lemma sjoin_SJson_right [simp]: "sjoin s SJson = SJson"
  by (cases s) auto

lemma sjoin_comm: "sjoin a b = sjoin b a"
proof (induction a arbitrary: b)
  case (SObject f)
  show ?case
  proof (cases b)
    case (SObject g)
    have "omerge sjoin f g k = omerge sjoin g f k" for k
      using SObject.IH [OF rangeI, of _ k]
      by (auto simp: omerge_def split: option.splits)
    then show ?thesis by (simp add: SObject fun_eq_iff)
  qed auto
qed (auto simp: join_kinds_comm split: schema.splits)

lemma sjoin_idem [simp]: "sjoin a a = a"
proof (induction a)
  case (SObject f)
  have "omerge sjoin f f k = f k" for k
    using SObject.IH [OF rangeI, of _ k] by (auto simp: omerge_def split: option.splits)
  then show ?case by (simp add: fun_eq_iff)
qed auto

lemma sjoin_assoc: "sjoin (sjoin a b) c = sjoin a (sjoin b c)"
proof (induction a arbitrary: b c)
  case (SScalar k)
  show ?case
    by (cases b; cases c) (auto simp: join_kinds_assoc)
next
  case (SObject f)
  show ?case
  proof (cases "\<exists>g h. b = SObject g \<and> c = SObject h")
    case True
    then obtain g h where gh: "b = SObject g" "c = SObject h" by blast
    have "omerge sjoin (omerge sjoin f g) h k = omerge sjoin f (omerge sjoin g h) k" for k
      using SObject.IH [OF rangeI, of _ k] by (auto simp: omerge_def split: option.splits)
    with gh show ?thesis by (simp add: fun_eq_iff)
  next
    case False
    then show ?thesis by (cases b; cases c) auto
  qed
next
  case (SArray e)
  then show ?case by (cases b; cases c) auto
qed auto

interpretation schemas: widening sjoin
  by unfold_locales (rule sjoin_assoc, rule sjoin_comm, rule sjoin_idem)

subsection \<open>The schema of a value\<close>

text \<open>
  The specification of inference for one value at nesting level \<open>d\<close>: containers beyond the
  nesting limit are opaque, a null says nothing, repeated member names join.
\<close>

fun val_schema :: "lib \<Rightarrow> nat \<Rightarrow> json \<Rightarrow> schema"
  and members_schema :: "lib \<Rightarrow> nat \<Rightarrow> (string \<times> json) list \<Rightarrow> string \<Rightarrow> schema option"
  and elements_schema :: "lib \<Rightarrow> nat \<Rightarrow> json list \<Rightarrow> schema" where
  "val_schema L d v =
     (if d > RAW_MAX_NESTING then SJson
      else case v of
        JNull \<Rightarrow> SUnset
      | JObj ms \<Rightarrow> SObject (members_schema L (d + 1) ms)
      | JArr vs \<Rightarrow> SArray (elements_schema L (d + 1) vs)
      | _ \<Rightarrow> SScalar (sniff_scalar_kind L v))"
| "members_schema L d [] = Map.empty"
| "members_schema L d ((key, v) # ms) =
     omerge sjoin [key \<mapsto> val_schema L d v] (members_schema L d ms)"
| "elements_schema L d [] = SUnset"
| "elements_schema L d (v # vs) = sjoin (val_schema L d v) (elements_schema L d vs)"

declare val_schema.simps(1) [simp del]

text \<open>A schema accepts a value when merging the value would not change it.\<close>

definition accepts :: "lib \<Rightarrow> schema \<Rightarrow> nat \<Rightarrow> json \<Rightarrow> bool" where
  "accepts L s d v \<longleftrightarrow> schemas.below (val_schema L d v) s"

section \<open>The contract of child lookup\<close>

locale child_index =
  fixes find :: "'n \<Rightarrow> string \<Rightarrow> nat option"
    and insert :: "'n \<Rightarrow> string \<Rightarrow> 'n"
    and names :: "'n \<Rightarrow> string list"
    and ok :: "'n \<Rightarrow> bool"
  assumes find_names: "ok n \<Longrightarrow> find n k = Some i \<longleftrightarrow> i < length (names n) \<and> names n ! i = k"
    and names_insert: "ok n \<Longrightarrow> find n k = None \<Longrightarrow> names (insert n k) = names n @ [k]"
    and ok_insert: "ok n \<Longrightarrow> find n k = None \<Longrightarrow> ok (insert n k)"
begin

lemma find_None: "ok n \<Longrightarrow> find n k = None \<longleftrightarrow> k \<notin> set (names n)"
  by (metis find_names in_set_conv_nth not_None_eq)

lemma find_bound: "ok n \<Longrightarrow> find n k = Some i \<Longrightarrow> i < length (names n)"
  by (simp add: find_names)

lemma find_nth: "ok n \<Longrightarrow> i < length (names n) \<Longrightarrow> find n (names n ! i) = Some i"
  by (simp add: find_names)

lemma distinct_names: "ok n \<Longrightarrow> distinct (names n)"
  unfolding distinct_conv_nth by (metis find_nth option.inject)

lemma find_insert:
  "ok n \<Longrightarrow> find n k = None \<Longrightarrow>
     find (insert n k) k' = (if k' = k then Some (length (names n)) else find n k')"
proof -
  assume n: "ok n" and k: "find n k = None"
  have i: "ok (insert n k)" "names (insert n k) = names n @ [k]"
    using n k by (simp_all add: ok_insert names_insert)
  show ?thesis
  proof (cases "k' = k")
    case True
    with i show ?thesis by (simp add: find_names)
  next
    case False
    show ?thesis
    proof (cases "find n k'")
      case None
      with False n i have "k' \<notin> set (names (insert n k))"
        by (simp add: find_None)
      with i False None show ?thesis by (simp add: find_None)
    next
      case (Some j)
      with n have "j < length (names n) \<and> names n ! j = k'" by (simp add: find_names)
      with i False Some show ?thesis by (simp add: find_names nth_append)
    qed
  qed
qed

end

subsection \<open>The invariant of a node's index, and the interpretation\<close>

definition index_ok :: "raw_node \<Rightarrow> bool" where
  "index_ok n \<longleftrightarrow>
     (\<forall>i < length (children n). map_of (child_lookup n) (fst (children n ! i)) = Some i) \<and>
     (\<forall>(k, i) \<in> set (child_lookup n). i < length (children n) \<and> fst (children n ! i) = k)"

abbreviation child_names :: "raw_node \<Rightarrow> string list" where
  "child_names n \<equiv> map fst (children n)"

lemma index_ok_lookup:
  "index_ok n \<Longrightarrow> map_of (child_lookup n) k = Some i \<longleftrightarrow>
     i < length (children n) \<and> fst (children n ! i) = k"
  unfolding index_ok_def by (auto dest: map_of_SomeD)

lemma scan_children_Some:
  "distinct (map fst cs) \<Longrightarrow>
     scan_children cs k = Some i \<longleftrightarrow> i < length cs \<and> fst (cs ! i) = k"
proof (induction cs k arbitrary: i rule: scan_children.induct)
  case (2 name n rest key)
  then show ?case by (cases i) (auto dest!: nth_mem intro: rev_image_eqI)
qed simp

lemma index_ok_distinct: "index_ok n \<Longrightarrow> distinct (child_names n)"
  unfolding distinct_conv_nth
  by (simp add: index_ok_def) (metis option.inject)

lemma find_child_Some:
  "index_ok n \<Longrightarrow> find_child n k = Some i \<longleftrightarrow> i < length (children n) \<and> fst (children n ! i) = k"
  using index_ok_distinct [of n]
  by (simp add: find_child_def scan_children_Some index_ok_lookup)

text \<open>The hash lookup and the linear scan agree, so the switch at 24 children is unobservable.\<close>

lemma find_child_is_scan:
  "index_ok n \<Longrightarrow> find_child n k = scan_children (children n) k"
proof -
  assume n: "index_ok n"
  then have "find_child n k = Some i \<longleftrightarrow> scan_children (children n) k = Some i" for i
    by (simp add: find_child_Some scan_children_Some index_ok_distinct)
  then show ?thesis by (metis not_None_eq)
qed

lemma index_ok_append:
  "index_ok n \<Longrightarrow> find_child n k = None \<Longrightarrow> index_ok (append_child n k)"
proof -
  assume n: "index_ok n" and k: "find_child n k = None"
  have "fst (children n ! i) \<noteq> k" if "i < length (children n)" for i
    using find_child_Some [OF n, of k i] k that by auto
  then have new: "k \<notin> set (child_names n)"
    by (fastforce simp: in_set_conv_nth)
  let ?lk = "AList.update k (length (children n)) (child_lookup n)"
  have upd: "map_of ?lk = (map_of (child_lookup n))(k \<mapsto> length (children n))"
    by (rule update_conv')
  let ?ch = "children n @ [(k, new_node)]"
  have "i < length ?ch \<and> fst (?ch ! i) = k'" if "(k', i) \<in> set ?lk" for k' i
  proof -
    from that have "(k', i) \<in> set (child_lookup n) \<or> (k', i) = (k, length (children n))"
      using set_update_subset by fastforce
    with n show ?thesis by (auto simp: index_ok_def nth_append)
  qed
  moreover have "map_of ?lk (fst (?ch ! i)) = Some i" if "i < length ?ch" for i
    using n new that by (auto simp: index_ok_def upd nth_append less_Suc_eq)
  ultimately show ?thesis by (auto simp: index_ok_def append_child_def)
qed

interpretation kids: child_index find_child append_child child_names index_ok
proof unfold_locales
  fix n k i
  assume n: "index_ok n"
  show "find_child n k = Some i \<longleftrightarrow> i < length (child_names n) \<and> child_names n ! i = k"
    using n by (auto simp: find_child_Some)
  assume "find_child n k = None"
  then show "child_names (append_child n k) = child_names n @ [k]"
    and "index_ok (append_child n k)"
    using n by (simp add: append_child_def, blast intro: index_ok_append)
qed

end
