(* ===== verification/Inference.thy ===== *)
theory Inference
  imports Schema_Spec
begin

text \<open>
  The schema tree refines the abstract schema: well-formedness of the tree, the
  abstraction function, the refinement of \<^verbatim>\<open>MergeValue\<close> by the join, and what follows
  for a payload: every row is accepted by the inferred schema, merging again changes
  nothing, and the order of the rows does not matter.
\<close>

section \<open>Well-formed trees and their schema\<close>

lemma size_child [termination_simp]: "(k, n) \<in> set ch \<Longrightarrow> size n < Suc (size_list (size_prod (\<lambda>_. 0) size) ch + m)"
  by (induction ch) auto

fun node_ok :: "raw_node \<Rightarrow> bool" where
  "node_ok (RawNode c s ch lk el) \<longleftrightarrow>
     index_ok (RawNode c s ch lk el) \<and>
     (\<forall>(k, n) \<in> set ch. node_ok n) \<and>
     (c \<noteq> NC_OBJECT \<longrightarrow> ch = []) \<and>
     (c = NC_ARRAY \<longleftrightarrow> el \<noteq> None) \<and>
     (case el of None \<Rightarrow> True | Some e \<Rightarrow> node_ok e)"

declare node_ok.simps [simp del]

fun abs_node :: "raw_node \<Rightarrow> schema" where
  "abs_node (RawNode c s ch lk el) =
     (case c of
        NC_UNSET \<Rightarrow> SUnset
      | NC_SCALAR \<Rightarrow> SScalar s
      | NC_OBJECT \<Rightarrow> SObject (map_of (map (\<lambda>(k, n). (k, abs_node n)) ch))
      | NC_ARRAY \<Rightarrow> SArray (case el of None \<Rightarrow> SUnset | Some e \<Rightarrow> abs_node e)
      | NC_JSON \<Rightarrow> SJson)"

declare abs_node.simps [simp del]

definition abs_children :: "raw_node \<Rightarrow> string \<Rightarrow> schema option" where
  "abs_children n k = map_option abs_node (map_of (children n) k)"

lemma abs_node_class:
  "nclass n = NC_UNSET \<Longrightarrow> abs_node n = SUnset"
  "nclass n = NC_SCALAR \<Longrightarrow> abs_node n = SScalar (nscalar n)"
  "nclass n = NC_OBJECT \<Longrightarrow> abs_node n = SObject (abs_children n)"
  "nclass n = NC_ARRAY \<Longrightarrow>
     abs_node n = SArray (case element n of None \<Rightarrow> SUnset | Some e \<Rightarrow> abs_node e)"
  "nclass n = NC_JSON \<Longrightarrow> abs_node n = SJson"
  by (cases n; simp add: abs_node.simps abs_children_def map_of_map fun_eq_iff)+

lemma node_okD:
  assumes "node_ok n"
  shows "index_ok n"
    and "i < length (children n) \<Longrightarrow> node_ok (snd (children n ! i))"
    and "nclass n \<noteq> NC_OBJECT \<Longrightarrow> children n = []"
    and "nclass n = NC_ARRAY \<longleftrightarrow> element n \<noteq> None"
    and "element n = Some e \<Longrightarrow> node_ok e"
proof -
  obtain c s ch lk el where n: "n = RawNode c s ch lk el" by (cases n)
  from assms have ok: "index_ok n" "\<forall>(k, m) \<in> set ch. node_ok m" "c \<noteq> NC_OBJECT \<longrightarrow> ch = []"
    "c = NC_ARRAY \<longleftrightarrow> el \<noteq> None" "case el of None \<Rightarrow> True | Some e \<Rightarrow> node_ok e"
    by (simp_all add: n node_ok.simps)
  show "index_ok n" by (rule ok(1))
  show "node_ok (snd (children n ! i))" if "i < length (children n)"
    using ok(2) that by (force simp: n dest: nth_mem)
  show "nclass n \<noteq> NC_OBJECT \<Longrightarrow> children n = []" using ok(3) by (simp add: n)
  show "nclass n = NC_ARRAY \<longleftrightarrow> element n \<noteq> None" using ok(4) by (simp add: n)
  show "element n = Some e \<Longrightarrow> node_ok e" using ok(5) by (simp add: n)
qed

lemma node_okI:
  assumes "index_ok n"
    and "\<And>i. i < length (children n) \<Longrightarrow> node_ok (snd (children n ! i))"
    and "nclass n \<noteq> NC_OBJECT \<Longrightarrow> children n = []"
    and "nclass n = NC_ARRAY \<longleftrightarrow> element n \<noteq> None"
    and "\<And>e. element n = Some e \<Longrightarrow> node_ok e"
  shows "node_ok n"
proof -
  obtain c s ch lk el where n: "n = RawNode c s ch lk el" by (cases n)
  have "node_ok m" if "(k, m) \<in> set ch" for k m
    using that assms(2) n by (metis in_set_conv_nth raw_node.sel(3) snd_conv)
  moreover have "case el of None \<Rightarrow> True | Some e \<Rightarrow> node_ok e"
    using assms(5) n by (simp split: option.splits)
  ultimately show ?thesis using assms(1,3,4) n by (auto simp: node_ok.simps)
qed

lemma index_ok_empty: "index_ok (RawNode c s [] [] el)"
  by (simp add: index_ok_def)

lemma node_ok_new [simp, raw_ok]: "node_ok new_node"
  by (simp add: new_node_def node_ok.simps index_ok_empty)

lemma abs_new [simp]: "abs_node new_node = SUnset"
  by (simp add: new_node_def abs_node.simps)

lemma node_ok_demote [simp, raw_ok]: "node_ok (demote_to_json n)"
  by (simp add: demote_to_json_def node_ok.simps index_ok_empty)

lemma abs_demote [simp]: "abs_node (demote_to_json n) = SJson"
  by (simp add: demote_to_json_def abs_node.simps)

lemma set_fields [simp]:
  "nclass (set_class c n) = c" "nscalar (set_class c n) = nscalar n"
  "children (set_class c n) = children n" "child_lookup (set_class c n) = child_lookup n"
  "element (set_class c n) = element n"
  "nclass (set_scalar s n) = nclass n" "nscalar (set_scalar s n) = s"
  "children (set_scalar s n) = children n" "child_lookup (set_scalar s n) = child_lookup n"
  "element (set_scalar s n) = element n"
  "nclass (set_element el n) = nclass n" "nscalar (set_element el n) = nscalar n"
  "children (set_element el n) = children n" "child_lookup (set_element el n) = child_lookup n"
  "element (set_element el n) = el"
  "nclass (set_child i d n) = nclass n" "nscalar (set_child i d n) = nscalar n"
  "child_lookup (set_child i d n) = child_lookup n" "element (set_child i d n) = element n"
  "children (set_child i d n) = (children n)[i := (fst (children n ! i), d)]"
  by (cases n; simp)+

lemma append_fields [simp]:
  "nclass (append_child n k) = nclass n" "nscalar (append_child n k) = nscalar n"
  "children (append_child n k) = children n @ [(k, new_node)]"
  "element (append_child n k) = element n"
  by (simp_all add: append_child_def)

lemma index_ok_set [simp]:
  "index_ok (set_class c n) = index_ok n" "index_ok (set_scalar s n) = index_ok n"
  "index_ok (set_element el n) = index_ok n"
  by (simp_all add: index_ok_def)

lemma index_ok_set_child [simp]: "index_ok (set_child i c n) = index_ok n"
proof -
  have "fst ((children n)[i := (fst (children n ! i), c)] ! j) = fst (children n ! j)"
    if "j < length (children n)" for j
    using that by (cases "j = i") simp_all
  then show ?thesis by (fastforce simp: index_ok_def)
qed

text \<open>Updates that keep the children and the element node of the right class.\<close>

lemma node_ok_leaf:
  "node_ok n \<Longrightarrow> nclass n \<noteq> NC_ARRAY \<Longrightarrow> nclass n \<noteq> NC_OBJECT \<Longrightarrow> c \<noteq> NC_ARRAY \<Longrightarrow>
     node_ok (set_class c n)"
  by (cases n) (auto simp: node_ok.simps index_ok_def)

lemma node_ok_scalar: "node_ok n \<Longrightarrow> node_ok (set_scalar s n)"
  by (cases n) (auto simp: node_ok.simps index_ok_def)

lemma node_ok_element:
  "node_ok n \<Longrightarrow> nclass n \<noteq> NC_OBJECT \<Longrightarrow> node_ok e \<Longrightarrow>
     node_ok (set_element (Some e) (set_class NC_ARRAY n))"
  by (cases n) (auto simp: node_ok.simps index_ok_def)

section \<open>Steps of the merge\<close>

lemma merge_scalar_ok: "node_ok n \<Longrightarrow> node_ok (merge_scalar L n v)"
  by (auto simp: merge_scalar_def Let_def intro!: node_ok_leaf node_ok_scalar)

lemma merge_scalar_abs:
  "node_ok n \<Longrightarrow> abs_node (merge_scalar L n v) = sjoin (abs_node n) (SScalar (sniff_scalar_kind L v))"
  by (cases "nclass n") (auto simp: merge_scalar_def Let_def abs_node_class)

lemma map_of_find_child:
  "index_ok n \<Longrightarrow> map_of (children n) k = map_option (\<lambda>i. snd (children n ! i)) (find_child n k)"
proof -
  assume n: "index_ok n"
  show ?thesis
  proof (cases "find_child n k")
    case None
    with n have "k \<notin> set (child_names n)" by (simp add: kids.find_None)
    then have "map_of (children n) k = None" by (simp add: map_of_eq_None_iff)
    with None show ?thesis by simp
  next
    case (Some i)
    with n have i: "i < length (children n)" "fst (children n ! i) = k"
      by (auto simp: find_child_Some)
    then have "(k, snd (children n ! i)) \<in> set (children n)"
      by (metis nth_mem prod.collapse)
    with Some show ?thesis using index_ok_distinct [OF n] by simp
  qed
qed

lemma abs_children_append:
  "index_ok n \<Longrightarrow> find_child n k = None \<Longrightarrow>
     abs_children (append_child n k) = (abs_children n)(k \<mapsto> SUnset)"
proof -
  assume "index_ok n" and "find_child n k = None"
  then have "map_of (children n) k = None" by (simp add: map_of_find_child)
  then show ?thesis
    by (auto simp: abs_children_def fun_eq_iff map_add_def split: option.splits)
qed

lemma abs_children_find:
  "index_ok n \<Longrightarrow> abs_children n k = map_option (\<lambda>i. abs_node (snd (children n ! i))) (find_child n k)"
  by (simp add: abs_children_def map_of_find_child option.map_comp comp_def)

lemma find_child_set_child [simp]:
  "index_ok n \<Longrightarrow> find_child (set_child i c n) k = find_child n k"
proof -
  assume n: "index_ok n"
  have f: "fst ((children n)[i := (fst (children n ! i), c)] ! j) = fst (children n ! j)"
    if "j < length (children n)" for j
    using that by (cases "j = i") simp_all
  have "find_child (set_child i c n) k = Some j \<longleftrightarrow> find_child n k = Some j" for j
    using n f by (auto simp: find_child_Some)
  then show ?thesis by (metis not_None_eq)
qed

lemma abs_children_set_child:
  "index_ok n \<Longrightarrow> i < length (children n) \<Longrightarrow>
     abs_children (set_child i c n) = (abs_children n)(fst (children n ! i) \<mapsto> abs_node c)"
proof
  fix k
  assume n: "index_ok n" and i: "i < length (children n)"
  then have f: "find_child n (fst (children n ! i)) = Some i" by (simp add: find_child_Some)
  show "abs_children (set_child i c n) k = ((abs_children n)(fst (children n ! i) \<mapsto> abs_node c)) k"
  proof (cases "find_child n k")
    case None
    then have "fst (children n ! i) \<noteq> k" using f by auto
    with None n show ?thesis by (simp add: abs_children_find)
  next
    case (Some j)
    with n have j: "j < length (children n)" "fst (children n ! j) = k"
      by (auto simp: find_child_Some)
    show ?thesis
    proof (cases "j = i")
      case True
      with Some n i j show ?thesis by (simp add: abs_children_find)
    next
      case False
      with f Some have "fst (children n ! i) \<noteq> k" by auto
      with False Some n j show ?thesis by (simp add: abs_children_find)
    qed
  qed
qed

text \<open>The child a member is merged into, created when it is new.\<close>

lemma get_or_create_ok:
  assumes n: "node_ok n" and c: "nclass n = NC_OBJECT"
    and g: "get_or_create_child n k = (n', i)"
  shows "node_ok n'" "nclass n' = NC_OBJECT" "i < length (children n')"
    "fst (children n' ! i) = k"
    "abs_children n' = omerge sjoin (abs_children n) [k \<mapsto> SUnset]"
    "abs_children n' k = Some (abs_node (snd (children n' ! i)))"
proof -
  note nn = node_okD [OF n]
  have all: "node_ok n' \<and> nclass n' = NC_OBJECT \<and> i < length (children n') \<and>
      fst (children n' ! i) = k \<and> abs_children n' = omerge sjoin (abs_children n) [k \<mapsto> SUnset]"
  proof (cases "find_child n k")
    case None
    with g have eq: "n' = append_child n k" "i = length (children n)"
      by (simp_all add: get_or_create_child_def)
    have "node_ok (append_child n k)"
    proof (rule node_okI)
      show "index_ok (append_child n k)" using nn(1) None by (rule index_ok_append)
      show "node_ok (snd (children (append_child n k) ! j))"
        if "j < length (children (append_child n k))" for j
        using that nn(2) by (cases "j < length (children n)") (auto simp: nth_append less_Suc_eq)
    qed (use c nn in auto)
    moreover have "abs_children n k = None"
      using None nn(1) by (simp add: abs_children_find)
    ultimately show ?thesis
      using eq c None nn(1)
      by (auto simp: abs_children_append omerge_def fun_eq_iff split: option.splits)
  next
    case (Some j)
    with g have eq: "n' = n" "i = j" by (simp_all add: get_or_create_child_def)
    from Some nn(1) have "abs_children n k = Some (abs_node (snd (children n ! j)))"
      by (simp add: abs_children_find)
    with Some eq c n nn(1) show ?thesis
      by (auto simp: find_child_Some omerge_def fun_eq_iff split: option.splits)
  qed
  then show "node_ok n'" "nclass n' = NC_OBJECT" "i < length (children n')"
    "fst (children n' ! i) = k" "abs_children n' = omerge sjoin (abs_children n) [k \<mapsto> SUnset]"
    by auto
  from all have "index_ok n'" by (simp add: node_okD(1))
  with all show "abs_children n' k = Some (abs_node (snd (children n' ! i)))"
    by (metis abs_children_find find_child_Some option.simps(9))
qed

lemma set_child_ok:
  assumes "node_ok n" and "nclass n = NC_OBJECT" and "node_ok c"
  shows "node_ok (set_child i c n)"
proof (rule node_okI)
  show "node_ok (snd (children (set_child i c n) ! j))"
    if "j < length (children (set_child i c n))" for j
    using that assms node_okD(2) [OF assms(1), of j] by (cases "j = i") auto
qed (use assms node_okD [OF assms(1)] in auto)

section \<open>The refinement\<close>

lemma omerge_assoc:
  fixes f g h :: "string \<Rightarrow> schema option"
  shows "omerge sjoin (omerge sjoin f g) h = omerge sjoin f (omerge sjoin g h)"
  using sjoin_assoc [of "SObject f" "SObject g" "SObject h"] by simp

lemma omerge_empty [simp]: "omerge j f Map.empty = f" "omerge j Map.empty f = f"
  by (auto simp: omerge_def fun_eq_iff split: option.splits)

lemma omerge_write:
  "f' = omerge sjoin f [k \<mapsto> SUnset] \<Longrightarrow> f' k = Some a \<Longrightarrow> f'(k \<mapsto> sjoin a b) = omerge sjoin f [k \<mapsto> b]"
  by (auto simp: omerge_def fun_eq_iff split: option.splits)

lemma member_step:
  assumes n: "node_ok n" "nclass n = NC_OBJECT"
    and g: "get_or_create_child n k = (n', i)"
    and m: "node_ok m" "abs_node m = sjoin (abs_node (snd (children n' ! i))) b"
  shows "node_ok (set_child i m n') \<and> nclass (set_child i m n') = NC_OBJECT \<and>
    abs_children (set_child i m n') = omerge sjoin (abs_children n) [k \<mapsto> b]"
proof -
  note c = get_or_create_ok [OF n g]
  have "abs_children (set_child i m n') = (abs_children n')(k \<mapsto> abs_node m)"
    using abs_children_set_child [OF node_okD(1) [OF c(1)] c(3)] c(4) by simp
  with c m show ?thesis by (simp add: set_child_ok omerge_write)
qed

lemma scalar_value:
  assumes "\<not> d > RAW_MAX_NESTING" "nclass n \<noteq> NC_JSON"
    and "\<not> is_null v" "\<not> is_obj v" "\<not> is_arr v"
  shows "merge_value_internal L n v d = merge_scalar L n v"
    "val_schema L d v = SScalar (sniff_scalar_kind L v)"
  using assms
  by (cases v; simp add: merge_value_internal.simps(1) [of L n _ d] val_schema.simps(1) [of L d])+

text \<open>One value, the members of an object and the elements of an array, together.\<close>

lemma merge_refines:
  "node_ok n \<Longrightarrow> node_ok (merge_value_internal L n v d) \<and>
     abs_node (merge_value_internal L n v d) = sjoin (abs_node n) (val_schema L d v)"
  "node_ok n \<Longrightarrow> nclass n = NC_OBJECT \<Longrightarrow>
     node_ok (merge_members L n ms d) \<and> nclass (merge_members L n ms d) = NC_OBJECT \<and>
     abs_children (merge_members L n ms d) = omerge sjoin (abs_children n) (members_schema L (d + 1) ms)"
  "node_ok n \<Longrightarrow> nclass n = NC_ARRAY \<Longrightarrow>
     node_ok (merge_elements L n vs d) \<and> nclass (merge_elements L n vs d) = NC_ARRAY \<and>
     abs_node (merge_elements L n vs d) = sjoin (abs_node n) (SArray (elements_schema L (d + 1) vs))"
proof (induction L n v d and L n ms d and L n vs d
    rule: merge_value_internal_merge_members_merge_elements.induct)
  case (1 L n v d)
  note ok = \<open>node_ok n\<close>
  note simps = merge_value_internal.simps(1) [of L n v d] val_schema.simps(1) [of L d v]
  show ?case
  proof (cases "d > RAW_MAX_NESTING \<or> is_null v \<or> nclass n = NC_JSON")
    case True
    then show ?thesis
      using ok by (auto simp: simps is_null_iff abs_node_class)
  next
    case False
    then have guards: "\<not> d > RAW_MAX_NESTING" "\<not> is_null v" "nclass n \<noteq> NC_JSON" by blast+
    show ?thesis
    proof (cases v)
      case JNull
      with False show ?thesis by simp
    next
      case (JObj ms)
      define m where "m = (if nclass n = NC_UNSET then set_class NC_OBJECT n else n)"
      have m: "node_ok m"
        using ok by (cases n) (auto simp: m_def node_ok.simps index_ok_def)
      have unfold: "merge_value_internal L n v d =
          (if nclass m \<noteq> NC_OBJECT then demote_to_json m else merge_members L m ms d)"
        using guards
        by (simp add: JObj merge_value_internal.simps(1) [of L n "JObj ms" d] m_def Let_def)
      have val: "val_schema L d v = SObject (members_schema L (d + 1) ms)"
        using guards by (simp add: JObj val_schema.simps(1) [of L d "JObj ms"])
      show ?thesis
      proof (cases "nclass m = NC_OBJECT")
        case True
        have "sjoin (abs_node n) (SObject f) = sjoin (abs_node m) (SObject f)" for f
          using True node_okD(3) [OF ok] by (auto simp: m_def abs_node_class abs_children_def
              omerge_def split: if_splits)
        moreover have "node_ok (merge_members L m ms d) \<and>
            nclass (merge_members L m ms d) = NC_OBJECT \<and>
            abs_children (merge_members L m ms d) = omerge sjoin (abs_children m) (members_schema L (d + 1) ms)"
          using 1(2) [OF guards JObj m_def _ m True] True by blast
        ultimately show ?thesis using True by (simp add: unfold val abs_node_class(3))
      next
        case demote: False
        then have "sjoin (abs_node n) (SObject f) = SJson" for f
          using guards by (cases "nclass n") (auto simp: m_def abs_node_class split: if_splits)
        with demote show ?thesis by (simp add: unfold val)
      qed
    next
      case (JArr vs)
      define m where
        "m = (if nclass n = NC_UNSET then set_element (Some new_node) (set_class NC_ARRAY n) else n)"
      have m: "node_ok m" using ok by (auto simp: m_def intro: node_ok_element)
      have unfold: "merge_value_internal L n v d =
          (if nclass m \<noteq> NC_ARRAY then demote_to_json m else merge_elements L m vs d)"
        using guards
        by (simp add: JArr merge_value_internal.simps(1) [of L n "JArr vs" d] m_def Let_def)
      have val: "val_schema L d v = SArray (elements_schema L (d + 1) vs)"
        using guards by (simp add: JArr val_schema.simps(1) [of L d "JArr vs"])
      show ?thesis
      proof (cases "nclass m = NC_ARRAY")
        case True
        have "sjoin (abs_node n) (SArray f) = sjoin (abs_node m) (SArray f)" for f
          using True by (auto simp: m_def abs_node_class split: if_splits)
        moreover have "node_ok (merge_elements L m vs d) \<and>
            abs_node (merge_elements L m vs d) =
              sjoin (abs_node m) (SArray (elements_schema L (d + 1) vs))"
          using 1(1) [OF guards JArr m_def _ m True] True by blast
        ultimately show ?thesis using True by (simp add: unfold val)
      next
        case demote: False
        then have "sjoin (abs_node n) (SArray f) = SJson" for f
          using guards by (cases "nclass n") (auto simp: m_def abs_node_class split: if_splits)
        with demote show ?thesis by (simp add: unfold val)
      qed
    qed (use scalar_value guards merge_scalar_ok merge_scalar_abs ok in simp_all)
  qed
next
  case (3 L n key v ms d)
  obtain n' i where g: "get_or_create_child n key = (n', i)" by fastforce
  note c = get_or_create_ok [OF 3(3,4) g]
  let ?m = "merge_value_internal L (snd (children n' ! i)) v (d + 1)"
  have m: "node_ok ?m \<and> abs_node ?m = sjoin (abs_node (snd (children n' ! i))) (val_schema L (d + 1) v)"
    using 3(1) [OF g [symmetric] node_okD(2) [OF c(1,3)]] by blast
  have step: "node_ok (set_child i ?m n') \<and> nclass (set_child i ?m n') = NC_OBJECT \<and>
      abs_children (set_child i ?m n') = omerge sjoin (abs_children n) [key \<mapsto> val_schema L (d + 1) v]"
    using member_step [OF 3(3,4) g] m by blast
  then show ?case
    using 3(2) [OF g [symmetric]] by (simp add: g omerge_assoc del: One_nat_def)
next
  case (5 L n v vs d)
  let ?e = "case element n of Some e \<Rightarrow> e | None \<Rightarrow> new_node"
  let ?m = "merge_value_internal L ?e v (d + 1)"
  let ?n = "set_element (Some ?m) n"
  have e: "node_ok ?e" using node_okD(5) [OF 5(3)] by (auto split: option.splits)
  have m: "node_ok ?m" "abs_node ?m = sjoin (abs_node ?e) (val_schema L (d + 1) v)"
    using 5(1) [OF e] by blast+
  have "set_class NC_ARRAY n = n" using 5(4) by (cases n) simp
  then have n': "node_ok ?n" using node_ok_element [OF 5(3) _ m(1)] 5(4) by simp
  have "abs_node ?n = SArray (sjoin (abs_node ?e) (val_schema L (d + 1) v))"
    using m 5(4) by (simp add: abs_node_class)
  moreover have "abs_node n = SArray (abs_node ?e)"
    using 5(4) by (auto simp: abs_node_class split: option.splits)
  ultimately show ?case
    using 5(2) n' 5(4) by (simp add: sjoin_assoc del: One_nat_def)
qed (auto simp: abs_node_class split: option.splits)

section \<open>Consequences for a payload\<close>

lemma merge_value_ok [raw_ok]: "node_ok n \<Longrightarrow> node_ok (merge_value L n v)"
  by (simp add: merge_value_def merge_refines(1))

lemma merge_value_abs:
  "node_ok n \<Longrightarrow> abs_node (merge_value L n v) = sjoin (abs_node n) (val_schema L 0 v)"
  by (simp add: merge_value_def merge_refines(1))

lemma fold_merge_abs:
  "node_ok n \<Longrightarrow>
     node_ok (fold (\<lambda>row root. merge_value L root row) rows n) \<and>
     abs_node (fold (\<lambda>row root. merge_value L root row) rows n) =
       fold (\<lambda>row acc. sjoin acc (val_schema L 0 row)) rows (abs_node n)"
proof (induction rows arbitrary: n)
  case (Cons row rows)
  then show ?case using merge_value_ok merge_value_abs by simp
qed simp

lemma infer_schema_ok [raw_ok]: "node_ok (infer_schema L rows)"
  by (simp add: infer_schema_def fold_merge_abs)

lemma infer_schema_abs:
  "abs_node (infer_schema L rows) = fold (\<lambda>row acc. sjoin acc (val_schema L 0 row)) rows SUnset"
  by (simp add: infer_schema_def fold_merge_abs)

section \<open>Properties\<close>

text \<open>
  Property C8: schema inference computes a well-formed tree whose abstract schema is the join
  of the schemas of the rows, whatever the rows are (\<^verbatim>\<open>RawPayload::InferSchema\<close> refines
  the specification of inference).
\<close>

theorem infer_schema_refines_join:
  "node_ok (infer_schema L rows) \<and>
   abs_node (infer_schema L rows) = fold (\<lambda>row acc. sjoin acc (val_schema L 0 row)) rows SUnset"
  by (simp add: infer_schema_ok infer_schema_abs)

text \<open>
  Property C9: the inferred schema does not depend on the order of the rows, so neither do
  the column types of a payload.
\<close>

theorem infer_schema_order:
  assumes "mset rows = mset rows'"
  shows "abs_node (infer_schema L rows) = abs_node (infer_schema L rows')"
  unfolding infer_schema_abs by (rule schemas.fold_join_mset [OF assms])

theorem infer_schema_order_witness:
  "abs_node (infer_schema sample_lib [JUint 1, JReal 2]) =
     abs_node (infer_schema sample_lib [JReal 2, JUint 1])"
  by (rule infer_schema_order) simp

text \<open>
  A tree that inference built accepts its own rows for good: merging rows that
  were merged before changes no type, in whatever order they come again.
\<close>

theorem merge_again_unchanged:
  assumes "set again \<subseteq> set rows"
  shows "abs_node (infer_schema L (rows @ again)) = abs_node (infer_schema L rows)"
proof -
  have "abs_node (fold (\<lambda>row root. merge_value L root row) again (infer_schema L rows)) =
      abs_node (infer_schema L rows)"
    using assms
  proof (induction again rule: rev_induct)
    case (snoc row again)
    have "schemas.below (val_schema L 0 row) (abs_node (infer_schema L rows))"
      using snoc.prems by (auto simp: infer_schema_abs intro!: schemas.below_fold)
    with snoc show ?case
      by (simp add: fold_merge_abs infer_schema_ok merge_value_abs schemas.below_def)
  qed simp
  then show ?thesis by (simp add: infer_schema_def)
qed

theorem merge_again_unchanged_witness:
  "abs_node (infer_schema sample_lib ([JUint 1, JStr ''a''] @ [JUint 1])) =
     abs_node (infer_schema sample_lib [JUint 1, JStr ''a''])"
  by (rule merge_again_unchanged) simp

text \<open>The node at an address: child positions and array elements from the root down.\<close>

inductive node_in :: "raw_node \<Rightarrow> raw_node \<Rightarrow> bool" where
  root: "node_in n n"
| child: "node_in m n \<Longrightarrow> i < length (children n) \<Longrightarrow> node_in m (snd (children n ! i))"
| elem: "node_in m n \<Longrightarrow> element n = Some e \<Longrightarrow> node_in m e"

lemma node_in_ok: "node_in m n \<Longrightarrow> node_ok m \<Longrightarrow> node_ok n"
  by (induction rule: node_in.induct) (auto dest: node_okD(2) node_okD(5))

text \<open>
  At every node of an inferred tree the hash index and the linear scan find the
  same child, so switching between them at 24 children is unobservable.
\<close>

theorem child_lookup_is_scan:
  assumes "node_in (infer_schema L rows) n"
  shows "find_child n key = scan_children (children n) key \<and>
    map_of (child_lookup n) key = scan_children (children n) key"
proof -
  have ok: "index_ok n" by (rule node_okD(1) [OF node_in_ok [OF assms infer_schema_ok]])
  have "map_of (child_lookup n) key = Some i \<longleftrightarrow> scan_children (children n) key = Some i" for i
    using ok by (simp add: index_ok_lookup scan_children_Some index_ok_distinct)
  then have "map_of (child_lookup n) key = scan_children (children n) key"
    by (metis not_None_eq)
  with find_child_is_scan [OF ok] show ?thesis by simp
qed

theorem child_lookup_is_scan_witness:
  "find_child (infer_schema sample_lib [JObj [(''a'', JNull), (''b'', JBool True)]]) ''b'' =
     scan_children (children (infer_schema sample_lib [JObj [(''a'', JNull), (''b'', JBool True)]])) ''b''"
  using child_lookup_is_scan [OF node_in.root] by blast

end
