(* ===== verification/Flatten.thy ===== *)
theory Flatten
  imports Inference
begin

text \<open>
  Schema flattening (\<^verbatim>\<open>raw_json.cpp\<close>, lines 801 to 887): the column type of a schema
  node, the columns of a schema tree, and the disambiguation of colliding column names. A
  node pointer is the node's address: the list of child positions from the root.
\<close>

section \<open>Column types\<close>

fun scalar_kind_to_type :: "scalar_kind \<Rightarrow> logical_type" where
  "scalar_kind_to_type SK_BOOLEAN = TBoolean"
| "scalar_kind_to_type SK_BIGINT = TBigint"
| "scalar_kind_to_type SK_DOUBLE = TDouble"
| "scalar_kind_to_type SK_DATE = TDate"
| "scalar_kind_to_type SK_TIMESTAMP = TTimestamp"
| "scalar_kind_to_type _ = TVarchar"

text \<open>An array node always has an element node (\<open>node_ok\<close>); the code dereferences it.\<close>

fun node_to_type :: "raw_node \<Rightarrow> logical_type" where
  "node_to_type (RawNode c s ch lk el) =
     (case c of
        NC_UNSET \<Rightarrow> TVarchar
      | NC_SCALAR \<Rightarrow> scalar_kind_to_type s
      | NC_ARRAY \<Rightarrow>
          (case el of
             None \<Rightarrow> TList TVarchar
           | Some e \<Rightarrow>
               (case nclass e of
                  NC_UNSET \<Rightarrow> TList TVarchar
                | NC_SCALAR \<Rightarrow> TList (scalar_kind_to_type (nscalar e))
                | NC_ARRAY \<Rightarrow> TList (node_to_type e)
                | _ \<Rightarrow> TJson))
      | _ \<Rightarrow> TJson)"

declare node_to_type.simps [simp del]

text \<open>The same on abstract schemas: a column's type depends on its schema only.\<close>

fun schema_type :: "schema \<Rightarrow> logical_type" where
  "schema_type SUnset = TVarchar"
| "schema_type (SScalar k) = scalar_kind_to_type k"
| "schema_type (SArray SUnset) = TList TVarchar"
| "schema_type (SArray (SScalar k)) = TList (scalar_kind_to_type k)"
| "schema_type (SArray (SArray s)) = TList (schema_type (SArray s))"
| "schema_type _ = TJson"

lemma node_to_type_abs: "node_to_type n = schema_type (abs_node n)"
proof (induction n rule: node_to_type.induct)
  case (1 c s ch lk el)
  show ?case
  proof (cases "c = NC_ARRAY \<and> (\<exists>e. el = Some e \<and> nclass e = NC_ARRAY)")
    case True
    then obtain e where e: "c = NC_ARRAY" "el = Some e" "nclass e = NC_ARRAY" by blast
    then have "node_to_type e = schema_type (abs_node e)" using 1 by blast
    with e show ?thesis
      by (cases e) (simp add: node_to_type.simps abs_node.simps)
  next
    case False
    then show ?thesis
      by (cases c; cases el) (auto simp: node_to_type.simps abs_node.simps abs_node_class
          split: node_class.splits)
  qed
qed

section \<open>Flattening\<close>

definition RAW_MAX_FLATTEN_DEPTH :: nat where
  "RAW_MAX_FLATTEN_DEPTH = 16"

definition RAW_MAX_COLUMNS :: nat where
  "RAW_MAX_COLUMNS = 10000"

record raw_column =
  cname :: string
  cpath :: "string list"
  ctype :: logical_type
  cnode :: "nat list"

text \<open>Whether \<^verbatim>\<open>FlattenInto\<close> descends into a child met at nesting \<open>depth\<close>.\<close>

definition flattens :: "raw_node \<Rightarrow> nat \<Rightarrow> bool" where
  "flattens n depth \<longleftrightarrow>
     nclass n = NC_OBJECT \<and> children n \<noteq> [] \<and> depth < RAW_MAX_FLATTEN_DEPTH"

definition join_name :: "string \<Rightarrow> string \<Rightarrow> string" where
  "join_name prefix name = (if prefix = [] then name else prefix @ ''.'' @ name)"

lemma is_measure_children [measure_function]:
  "is_measure (size_list (size_prod (\<lambda>_. 0) size) :: (string \<times> raw_node) list \<Rightarrow> nat)"
  by (rule is_measure_trivial)

lemma size_children: "size_list (size_prod (\<lambda>_. 0) size) (children n) < size n"
  by (cases n) simp

text \<open>The loop over \<open>node.children\<close> from child \<open>i\<close> on; \<open>addr\<close> is the node's address.\<close>

function flatten_into ::
  "nat \<Rightarrow> (string \<times> raw_node) list \<Rightarrow> string \<Rightarrow> string list \<Rightarrow> nat \<Rightarrow> nat list \<Rightarrow> raw_column list" where
  "flatten_into i [] prefix path depth addr = []"
| "flatten_into i ((name, child) # rest) prefix path depth addr =
     (let column_name = join_name prefix name in
      (if flattens child depth
       then flatten_into 0 (children child) column_name (path @ [name]) (depth + 1) (addr @ [i])
       else [\<lparr>cname = column_name, cpath = path @ [name], ctype = node_to_type child,
              cnode = addr @ [i]\<rparr>])
      @ flatten_into (Suc i) rest prefix path depth addr)"
  by pat_completeness auto
termination
proof (relation "measure (\<lambda>(i, cs, _). size_list (size_prod (\<lambda>_. 0) size) cs)", goal_cases)
  case (2 i name child rest prefix path depth addr x)
  then show ?case using size_children [of child] by simp
qed auto

subsection \<open>Name collisions\<close>

text \<open>
  The loop \<^verbatim>\<open>while (seen.count(column.name)) column.name = base + "_" + suffix++\<close>.
  \<open>seen\<close> holds case-folded names. It ends because only finitely many names are taken: the
  measure counts the suffixes still to come whose name is taken.
\<close>

definition suffixed :: "string \<Rightarrow> nat \<Rightarrow> string" where
  "suffixed base suffix = base @ ''_'' @ dec_string suffix"

lemma lower_suffixed_inj: "lower (suffixed base i) = lower (suffixed base j) \<Longrightarrow> i = j"
  by (simp add: suffixed_def) (rule dec_string_inj)

definition taken_from :: "string list \<Rightarrow> string \<Rightarrow> nat \<Rightarrow> nat set" where
  "taken_from seen base suffix = {k. suffix \<le> k \<and> lower (suffixed base k) \<in> set seen}"

lemma finite_taken [simp]: "finite (taken_from seen base suffix)"
proof -
  have "inj_on (\<lambda>k. lower (suffixed base k)) (taken_from seen base suffix)"
    by (auto intro: inj_onI lower_suffixed_inj)
  moreover have "(\<lambda>k. lower (suffixed base k)) ` taken_from seen base suffix \<subseteq> set seen"
    by (auto simp: taken_from_def)
  ultimately show ?thesis by (meson List.finite_set finite_subset finite_image_iff)
qed

lemma taken_from_Suc:
  "taken_from seen base suffix =
     (if lower (suffixed base suffix) \<in> set seen
      then insert suffix (taken_from seen base (Suc suffix)) else taken_from seen base (Suc suffix))"
  by (auto simp: taken_from_def Suc_le_eq nat_less_le)

function fresh_name :: "string list \<Rightarrow> string \<Rightarrow> string \<Rightarrow> nat \<Rightarrow> string" where
  "fresh_name seen base name suffix =
     (if lower name \<in> set seen
      then fresh_name seen base (suffixed base suffix) (Suc suffix)
      else name)"
  by pat_completeness auto
termination
proof (relation "measure (\<lambda>(seen, base, name, suffix).
    card (taken_from seen base suffix) + (if lower name \<in> set seen then 1 else 0))", goal_cases)
  case (2 seen base name suffix)
  have "suffix \<notin> taken_from seen base (Suc suffix)" by (simp add: taken_from_def)
  with 2 show ?case by (simp add: taken_from_Suc [of seen base suffix])
qed simp

declare fresh_name.simps [simp del]

lemma fresh_name_fresh: "lower (fresh_name seen base name suffix) \<notin> set seen"
proof (induction seen base name suffix rule: fresh_name.induct)
  case (1 seen base name suffix)
  then show ?case by (cases "lower name \<in> set seen") (simp_all add: fresh_name.simps [of seen base name])
qed

lemma fresh_name_same: "lower name \<notin> set seen \<Longrightarrow> fresh_name seen base name suffix = name"
  by (simp add: fresh_name.simps)

fun disambiguate :: "string list \<Rightarrow> raw_column list \<Rightarrow> raw_column list" where
  "disambiguate seen [] = []"
| "disambiguate seen (column # rest) =
     (let name = fresh_name seen (cname column) (cname column) 1 in
      column\<lparr>cname := name\<rparr> # disambiguate (lower name # seen) rest)"

definition flatten_schema :: "raw_node \<Rightarrow> bool \<Rightarrow> raw_column list result" where
  "flatten_schema root scalar_rows =
     (if scalar_rows \<or> nclass root \<noteq> NC_OBJECT then
        (if nclass root = NC_UNSET then Inr []
         else Inr [\<lparr>cname = ''value'', cpath = [], ctype = node_to_type root, cnode = []\<rparr>])
      else
        let result = flatten_into 0 (children root) [] [] 0 [] in
        if length result > RAW_MAX_COLUMNS
        then Inl (InvalidInput ''payload flattens to too many columns'')
        else Inr (disambiguate [] result))"

subsection \<open>Facts about the columns\<close>

lemma disambiguate_fields [simp]:
  "length (disambiguate seen cs) = length cs"
  "map cpath (disambiguate seen cs) = map cpath cs"
  "map ctype (disambiguate seen cs) = map ctype cs"
  "map cnode (disambiguate seen cs) = map cnode cs"
  by (induction seen cs rule: disambiguate.induct) (simp_all add: Let_def)

lemma disambiguate_distinct:
  "distinct (map (lower \<circ> cname) (disambiguate seen cs)) \<and>
     set (map (lower \<circ> cname) (disambiguate seen cs)) \<inter> set seen = {}"
proof (induction seen cs rule: disambiguate.induct)
  case (2 seen column rest)
  then show ?case using fresh_name_fresh [of seen] by (auto simp: Let_def)
qed simp

text \<open>Columns whose folded names are already distinct keep their names.\<close>

lemma disambiguate_id:
  "distinct (map (lower \<circ> cname) cs) \<Longrightarrow> set (map (lower \<circ> cname) cs) \<inter> set seen = {} \<Longrightarrow>
     disambiguate seen cs = cs"
proof (induction seen cs rule: disambiguate.induct)
  case (2 seen column rest)
  then have "fresh_name seen (cname column) (cname column) 1 = cname column"
    by (intro fresh_name_same) auto
  with 2 show ?case by (auto simp: Let_def)
qed simp

lemma flatten_schema_columns:
  "flatten_schema root scalar_rows = Inr cs \<Longrightarrow> \<not> scalar_rows \<Longrightarrow> nclass root = NC_OBJECT \<Longrightarrow>
     cs = disambiguate [] (flatten_into 0 (children root) [] [] 0 [])"
  by (auto simp: flatten_schema_def Let_def split: if_splits)

section \<open>Properties\<close>

text \<open>
  Property C34: flattening never makes two columns whose names differ only in case, has at
  most \<^verbatim>\<open>RAW_MAX_COLUMNS\<close> columns for an object tree, and keeps path, type and node of
  every column when it renames one.
\<close>

theorem flatten_columns_distinct:
  assumes "flatten_schema root scalar_rows = Inr cols"
  shows "distinct (map (lower \<circ> cname) cols) \<and>
    length cols \<le> RAW_MAX_COLUMNS \<and>
    (nclass root = NC_OBJECT \<and> \<not> scalar_rows \<longrightarrow>
      (let raw = flatten_into 0 (children root) [] [] 0 [] in
       map cpath cols = map cpath raw \<and> map ctype cols = map ctype raw \<and>
       (distinct (map (lower \<circ> cname) raw) \<longrightarrow> cols = raw)))"
proof (cases "scalar_rows \<or> nclass root \<noteq> NC_OBJECT")
  case True
  with assms show ?thesis
    by (auto simp: flatten_schema_def RAW_MAX_COLUMNS_def split: if_splits)
next
  case False
  then have cols: "cols = disambiguate [] (flatten_into 0 (children root) [] [] 0 [])"
    using flatten_schema_columns [OF assms] by simp
  then have "length cols \<le> RAW_MAX_COLUMNS"
    using assms False by (auto simp: flatten_schema_def Let_def split: if_splits)
  with cols show ?thesis
    using disambiguate_distinct [of "[]"] by (simp add: Let_def disambiguate_id)
qed

theorem flatten_columns_distinct_witness:
  "map cname
     (disambiguate [] [\<lparr>cname = ''A'', cpath = [''A''], ctype = TDouble, cnode = [0]\<rparr>,
        \<lparr>cname = ''a'', cpath = [''a''], ctype = TDouble, cnode = [1]\<rparr>]) = [''A'', ''a_1''] \<and>
   length [\<lparr>cname = ''value'', cpath = [], ctype = TBigint, cnode = []\<rparr>] \<le> RAW_MAX_COLUMNS"
proof -
  have "flatten_schema (RawNode NC_SCALAR SK_BIGINT [] [] None) True =
      Inr [\<lparr>cname = ''value'', cpath = [], ctype = TBigint, cnode = []\<rparr>]"
    by (simp add: flatten_schema_def node_to_type.simps)
  from flatten_columns_distinct [OF this] show ?thesis by code_simp
qed

end
