(* ===== verification/Extract.thy ===== *)
theory Extract
  imports Flatten
begin

text \<open>
  Value extraction (\<^verbatim>\<open>raw_json.cpp\<close>, lines 893 to 1105): routing the values of a row to
  their column slots in one traversal, and filling column vectors. The specification is
  path lookup in the row; the theorems say that routing implements it and that filling a
  column in the inferred type loses no value.
\<close>

section \<open>Routing\<close>

record extractor =
  column_of :: "nat list \<Rightarrow> nat option"
  root_is_column :: bool
  slots :: "json option list list"

text \<open>The constructor: the loop over the columns from column \<open>col\<close> on.\<close>

fun index_columns :: "nat \<Rightarrow> raw_column list \<Rightarrow> extractor \<Rightarrow> extractor" where
  "index_columns col [] e = e"
| "index_columns col (c # cs) e =
     (let e = (if cpath c = [] then e\<lparr>root_is_column := True\<rparr> else e) in
      index_columns (Suc col) cs (e\<lparr>column_of := (column_of e)(cnode c \<mapsto> col)\<rparr>))"

definition raw_extractor :: "raw_column list \<Rightarrow> extractor" where
  "raw_extractor columns =
     index_columns 0 columns
       \<lparr>column_of = Map.empty, root_is_column = False, slots = replicate (length columns) []\<rparr>"

definition reset_extractor :: "nat \<Rightarrow> extractor \<Rightarrow> extractor" where
  "reset_extractor row_count e = e\<lparr>slots := map (\<lambda>_. replicate row_count None) (slots e)\<rparr>"

definition write_slot :: "nat \<Rightarrow> nat \<Rightarrow> json \<Rightarrow> json option list list \<Rightarrow> json option list list" where
  "write_slot col row_idx v vals = vals[col := (vals ! col)[row_idx := Some v]]"

text \<open>\<open>cols\<close> is the member \<^verbatim>\<open>column_of\<close>; \<open>addr\<close> the address of \<open>node\<close>.\<close>

fun traverse ::
    "(nat list \<Rightarrow> nat option) \<Rightarrow> json \<Rightarrow> raw_node \<Rightarrow> nat list \<Rightarrow> nat \<Rightarrow>
     json option list list \<Rightarrow> json option list list"
  and traverse_members ::
    "(nat list \<Rightarrow> nat option) \<Rightarrow> (string \<times> json) list \<Rightarrow> raw_node \<Rightarrow> nat list \<Rightarrow> nat \<Rightarrow>
     json option list list \<Rightarrow> json option list list" where
  "traverse cols v node addr row_idx vals =
     (case cols addr of
        Some col \<Rightarrow> write_slot col row_idx v vals
      | None \<Rightarrow>
          if nclass node \<noteq> NC_OBJECT then vals
          else (case v of
                  JObj ms \<Rightarrow> traverse_members cols ms node addr row_idx vals
                | _ \<Rightarrow> vals))"
| "traverse_members cols [] node addr row_idx vals = vals"
| "traverse_members cols ((key, v) # ms) node addr row_idx vals =
     (case find_child node key of
        None \<Rightarrow> traverse_members cols ms node addr row_idx vals
      | Some i \<Rightarrow>
          traverse_members cols ms node addr row_idx
            (traverse cols v (snd (children node ! i)) (addr @ [i]) row_idx vals))"

declare traverse.simps [simp del]

definition assign_row :: "raw_node \<Rightarrow> json \<Rightarrow> nat \<Rightarrow> extractor \<Rightarrow> extractor result" where
  "assign_row root row row_idx e =
     (if root_is_column e then
        (case column_of e [] of
           None \<Rightarrow> Inl (InternalError ''unordered_map::at'')
         | Some col \<Rightarrow> Inr (e\<lparr>slots := write_slot col row_idx row (slots e)\<rparr>))
      else Inr (e\<lparr>slots := traverse (column_of e) row root [] row_idx (slots e)\<rparr>))"

text \<open>The row loop of the callers: rows \<open>i, i + 1, \<dots>\<close> of one batch.\<close>

fun assign_rows :: "raw_node \<Rightarrow> nat \<Rightarrow> json list \<Rightarrow> extractor \<Rightarrow> extractor result" where
  "assign_rows root i [] e = Inr e"
| "assign_rows root i (row # rows) e =
     bind_result (assign_row root row i e) (assign_rows root (Suc i) rows)"

section \<open>Specification of routing: path lookup\<close>

text \<open>
  Every value of the row reached by the path, in document order (names may repeat); the
  slot of a column holds the last one.
\<close>

fun vals_at :: "json \<Rightarrow> string list \<Rightarrow> json list" where
  "vals_at v [] = [v]"
| "vals_at v (k # path) =
     concat (map (\<lambda>(k', w). if k' = k then vals_at w path else []) (members v))"

text \<open>
  The leaves below a node whose children \<^verbatim>\<open>FlattenInto\<close> visits at nesting \<open>depth\<close>:
  path and node at an address.
\<close>

fun leaf_at :: "raw_node \<Rightarrow> nat \<Rightarrow> nat list \<Rightarrow> (string list \<times> raw_node) option" where
  "leaf_at n depth [] = None"
| "leaf_at n depth (i # is) =
     (if i < length (children n) then
        (let (name, child) = children n ! i in
         if flattens child depth
         then map_option (\<lambda>(path, m). (name # path, m)) (leaf_at child (depth + 1) is)
         else if is = [] then Some ([name], child) else None)
      else None)"

lemma leaf_at_nonempty: "leaf_at n d is = Some (p, m) \<Longrightarrow> is \<noteq> [] \<and> p \<noteq> []"
  by (cases "is") (auto split: if_splits prod.splits option.splits)

lemma drop_Cons_nth: "x # xs = drop i ys \<Longrightarrow> i < length ys \<and> ys ! i = x \<and> xs = drop (Suc i) ys"
  by (metis Cons_nth_drop_Suc drop_all list.discI list.inject not_le_imp_less)

lemma flatten_into_sound:
  "cs = drop i (children n) \<Longrightarrow> c \<in> set (flatten_into i cs prefix path d addr) \<Longrightarrow>
     \<exists>is p m. cnode c = addr @ is \<and> cpath c = path @ p \<and> ctype c = node_to_type m \<and>
       leaf_at n d is = Some (p, m) \<and> i \<le> hd is"
proof (induction i cs prefix path d addr arbitrary: n rule: flatten_into.induct)
  case (2 i name child rest prefix path d addr)
  note nth = drop_Cons_nth [OF 2(3)]
  define col where "col = join_name prefix name"
  consider (rest) "c \<in> set (flatten_into (Suc i) rest prefix path d addr)"
    | (sub) "flattens child d"
        "c \<in> set (flatten_into 0 (children child) col (path @ [name]) (d + 1) (addr @ [i]))"
    | (leaf) "\<not> flattens child d"
        "c = \<lparr>cname = col, cpath = path @ [name], ctype = node_to_type child, cnode = addr @ [i]\<rparr>"
    using 2(4) by (auto simp: col_def Let_def split: if_splits)
  then show ?case
  proof cases
    case rest
    with 2(2) [OF col_def, of n] nth show ?thesis by (fastforce dest: Suc_leD)
  next
    case sub
    then obtain "is" p m where r: "cnode c = (addr @ [i]) @ is" "cpath c = (path @ [name]) @ p"
        "ctype c = node_to_type m" "leaf_at child (d + 1) is = Some (p, m)"
      using 2(1) [OF col_def sub(1), of child] sub(2) by fastforce
    then show ?thesis
      using nth sub(1) by (intro exI [of _ "i # is"] exI [of _ "name # p"] exI [of _ m]) simp
  next
    case leaf
    with nth show ?thesis
      by (intro exI [of _ "[i]"] exI [of _ "[name]"] exI [of _ child]) simp
  qed
qed simp

lemma flatten_into_complete:
  "cs = drop i (children n) \<Longrightarrow> leaf_at n d is = Some (p, m) \<Longrightarrow> i \<le> hd is \<Longrightarrow>
     addr @ is \<in> cnode ` set (flatten_into i cs prefix path d addr)"
proof (induction i cs prefix path d addr arbitrary: n "is" p m rule: flatten_into.induct)
  case (1 i prefix path d addr)
  then show ?case by (cases "is") (auto split: if_splits)
next
  case (2 i name child rest prefix path d addr)
  note nth = drop_Cons_nth [OF 2(3)]
  define col where "col = join_name prefix name"
  obtain j js where js: "is = j # js" using leaf_at_nonempty [OF 2(4)] by (cases "is") auto
  show ?case
  proof (cases "j = i")
    case False
    with 2(2) [OF col_def, of n "is" p m] 2(4,5) js nth show ?thesis by (auto simp: Let_def)
  next
    case True
    show ?thesis
    proof (cases "flattens child d")
      case True
      with \<open>j = i\<close> 2(4) js nth obtain q where "leaf_at child (d + 1) js = Some (q, m)"
        by auto
      with 2(1) [OF col_def True, of child js q m]
      have "(addr @ [i]) @ js \<in>
          cnode ` set (flatten_into 0 (children child) col (path @ [name]) (d + 1) (addr @ [i]))"
        by simp
      with True \<open>j = i\<close> js show ?thesis by (simp add: col_def Let_def image_Un)
    next
      case False
      with \<open>j = i\<close> 2(4) js nth have "js = []" by (auto split: if_splits)
      with False \<open>j = i\<close> js show ?thesis by (simp add: Let_def)
    qed
  qed
qed

lemma flatten_into_distinct:
  "distinct (map cnode (flatten_into i cs prefix path d addr)) \<and>
     (\<forall>c \<in> set (flatten_into i cs prefix path d addr). \<exists>j is. i \<le> j \<and> cnode c = addr @ j # is)"
proof (induction i cs prefix path d addr rule: flatten_into.induct)
  case (2 i name child rest prefix path d addr)
  define col where "col = join_name prefix name"
  let ?sub = "flatten_into 0 (children child) col (path @ [name]) (d + 1) (addr @ [i])"
  let ?rest = "flatten_into (Suc i) rest prefix path d addr"
  note rest = 2(2) [OF col_def]
  have rest_nodes: "\<exists>j is. Suc i \<le> j \<and> cnode c = addr @ j # is" if "c \<in> set ?rest" for c
    using rest that by blast
  show ?case
  proof (cases "flattens child d")
    case True
    note sub = 2(1) [OF col_def True]
    have "cnode a \<noteq> cnode b" if "a \<in> set ?sub" "b \<in> set ?rest" for a b
      using sub rest_nodes [OF that(2)] that(1) by fastforce
    then have "cnode ` set ?sub \<inter> cnode ` set ?rest = {}" by blast
    with True sub rest show ?thesis
      by (fastforce simp: col_def [symmetric] Let_def dest: Suc_leD)
  next
    case False
    have "addr @ [i] \<notin> cnode ` set ?rest" using rest_nodes by fastforce
    with False rest show ?thesis by (fastforce simp: col_def [symmetric] Let_def dest: Suc_leD)
  qed
qed simp

section \<open>Routing implements path lookup\<close>

lemma write_slot_length [simp]:
  "length (write_slot c r v vals) = length vals"
  "map length (write_slot c r v vals) = map length vals"
proof -
  show "length (write_slot c r v vals) = length vals" by (simp add: write_slot_def)
  show "map length (write_slot c r v vals) = map length vals"
    by (simp add: write_slot_def map_update)
      (metis length_list_update list_update_beyond list_update_id map_update not_le nth_map length_map)
qed

lemma traverse_shape [simp]:
  "map length (traverse cols v n addr r vals) = map length vals"
  "map length (traverse_members cols ms n addr r vals) = map length vals"
  by (induction cols v n addr r vals and cols ms n addr r vals
      rule: traverse_traverse_members.induct)
    (auto simp: traverse.simps split: option.splits json.splits)

lemma traverse_lengths [simp]:
  "length (traverse cols v n addr r vals) = length vals"
  "length (traverse_members cols ms n addr r vals) = length vals"
  "c < length vals \<Longrightarrow> length (traverse cols v n addr r vals ! c) = length (vals ! c)"
  "c < length vals \<Longrightarrow> length (traverse_members cols ms n addr r vals ! c) = length (vals ! c)"
  using traverse_shape(1) [of cols v n addr r vals] traverse_shape(2) [of cols ms n addr r vals]
  by (metis length_map nth_map)+

lemma write_slot_nth:
  "c < length vals \<Longrightarrow> r < length (vals ! c) \<Longrightarrow>
     write_slot c' r' v vals ! c ! r = (if c' = c \<and> r' = r then Some v else vals ! c ! r)"
  by (cases "c' = c"; cases "r' = r") (simp_all add: write_slot_def)

text \<open>Routing below an address touches only the row's slots of the columns below it.\<close>

lemma traverse_frame:
  "(\<forall>is. cols (addr @ is) \<noteq> Some c) \<or> r' \<noteq> r \<Longrightarrow> c < length vals \<Longrightarrow> r' < length (vals ! c) \<Longrightarrow>
     traverse cols v n addr r vals ! c ! r' = vals ! c ! r'"
  "(\<forall>is. cols (addr @ is) \<noteq> Some c) \<or> r' \<noteq> r \<Longrightarrow> c < length vals \<Longrightarrow> r' < length (vals ! c) \<Longrightarrow>
     traverse_members cols ms n addr r vals ! c ! r' = vals ! c ! r'"
proof (induction cols v n addr r vals and cols ms n addr r vals
    rule: traverse_traverse_members.induct)
  case (1 cols v n addr r vals)
  have "cols addr \<noteq> Some c \<or> r' \<noteq> r" using 1(2) by (metis append_Nil2)
  with 1 show ?case
    by (auto simp: traverse.simps write_slot_nth split: option.splits json.splits)
next
  case (3 cols key v ms n addr r vals)
  have "(\<forall>is. cols ((addr @ [i]) @ is) \<noteq> Some c) \<or> r' \<noteq> r" for i
    using 3(4) by (metis append.assoc)
  with 3 show ?case by (auto split: option.splits)
qed auto

text \<open>The columns below a node are exactly its leaves, each with a slot of its own.\<close>

definition routes :: "(nat list \<Rightarrow> nat option) \<Rightarrow> raw_node \<Rightarrow> nat list \<Rightarrow> nat \<Rightarrow> bool" where
  "routes cols n addr d \<longleftrightarrow>
     (\<forall>is. is \<noteq> [] \<longrightarrow> (cols (addr @ is) \<noteq> None \<longleftrightarrow> leaf_at n d is \<noteq> None)) \<and>
     (\<forall>a b c. cols a = Some c \<longrightarrow> cols b = Some c \<longrightarrow> a = b)"

lemma routes_child:
  "routes cols n addr d \<Longrightarrow> i < length (children n) \<Longrightarrow> flattens (snd (children n ! i)) d \<Longrightarrow>
     routes cols (snd (children n ! i)) (addr @ [i]) (d + 1) \<and> cols (addr @ [i]) = None"
proof -
  assume r: "routes cols n addr d" and i: "i < length (children n)"
    and f: "flattens (snd (children n ! i)) d"
  have step: "cols (addr @ i # is) \<noteq> None \<longleftrightarrow> leaf_at (snd (children n ! i)) (d + 1) is \<noteq> None" for "is"
  proof -
    have "cols (addr @ i # is) \<noteq> None \<longleftrightarrow> leaf_at n d (i # is) \<noteq> None"
      using r unfolding routes_def by blast
    with i f show ?thesis by (auto split: prod.splits)
  qed
  from step [of "[]"] have "cols (addr @ [i]) = None" by simp
  with step r show ?thesis unfolding routes_def by simp
qed

lemma routes_leaf:
  "routes cols n addr d \<Longrightarrow> i < length (children n) \<Longrightarrow> \<not> flattens (snd (children n ! i)) d \<Longrightarrow>
     \<exists>c. cols (addr @ [i]) = Some c"
proof -
  assume r: "routes cols n addr d" and i: "i < length (children n)"
    and f: "\<not> flattens (snd (children n ! i)) d"
  from i f have "leaf_at n d [i] \<noteq> None" by (auto split: prod.splits)
  with r show ?thesis unfolding routes_def by blast
qed

lemma vals_at_Cons:
  "vals_at (JObj ((k, v) # ms)) (k' # path) =
     (if k = k' then vals_at v path else []) @ vals_at (JObj ms) (k' # path)"
  by simp

lemma vals_at_no_obj: "\<not> is_obj v \<Longrightarrow> vals_at v (k # path) = []"
  by (cases v) auto

lemma traverse_lookup:
  "node_ok n \<Longrightarrow> nclass n = NC_OBJECT \<Longrightarrow> cols addr = None \<Longrightarrow> routes cols n addr d \<Longrightarrow>
     leaf_at n d is = Some (p, m) \<Longrightarrow> cols (addr @ is) = Some c \<Longrightarrow> c < length vals \<Longrightarrow>
     r < length (vals ! c) \<Longrightarrow>
     traverse cols v n addr r vals ! c ! r =
       (case last_opt (vals_at v p) of None \<Rightarrow> vals ! c ! r | Some w \<Rightarrow> Some w)"
  "node_ok n \<Longrightarrow> nclass n = NC_OBJECT \<Longrightarrow> cols addr = None \<Longrightarrow> routes cols n addr d \<Longrightarrow>
     leaf_at n d is = Some (p, m) \<Longrightarrow> cols (addr @ is) = Some c \<Longrightarrow> c < length vals \<Longrightarrow>
     r < length (vals ! c) \<Longrightarrow>
     traverse_members cols ms n addr r vals ! c ! r =
       (case last_opt (vals_at (JObj ms) p) of None \<Rightarrow> vals ! c ! r | Some w \<Rightarrow> Some w)"
proof (induction cols v n addr r vals and cols ms n addr r vals
    arbitrary: d "is" p and d "is" p rule: traverse_traverse_members.induct)
  case (1 cols v n addr r vals)
  show ?case
  proof (cases "is_obj v")
    case True
    with 1 show ?thesis by (auto simp: is_obj_iff traverse.simps)
  next
    case False
    moreover obtain k q where "p = k # q" using leaf_at_nonempty [OF 1(6)] by (cases p) auto
    ultimately show ?thesis
      using 1 by (cases v) (simp_all add: traverse.simps vals_at_no_obj)
  qed
next
  case (2 cols n addr r vals)
  obtain k q where "p = k # q" using leaf_at_nonempty [OF 2(5)] by (cases p) auto
  then show ?case by simp
next
  case (3 cols key v ms n addr r vals)
  note ix = node_okD(1) [OF 3(4)]
  obtain i js where is': "is = i # js" using leaf_at_nonempty [OF 3(8)] by (cases "is") auto
  then have i: "i < length (children n)" using 3(8) by (auto split: if_splits)
  obtain q where p: "p = fst (children n ! i) # q"
    using 3(8) is' i by (auto split: prod.splits if_splits)
  have fi: "find_child n (fst (children n ! i)) = Some i" using ix i by (simp add: find_child_Some)
  show ?case
  proof (cases "find_child n key")
    case None
    with fi have "fst (children n ! i) \<noteq> key" by auto
    with None 3(1) [OF None 3(4-11)] p show ?thesis by (simp add: vals_at_Cons)
  next
    case (Some j)
    with ix have j: "j < length (children n)" "fst (children n ! j) = key"
      by (auto simp: find_child_Some)
    let ?child = "snd (children n ! j)"
    let ?vals = "traverse cols v ?child (addr @ [j]) r vals"
    have rest: "traverse_members cols ms n addr r ?vals ! c ! r =
        (case last_opt (vals_at (JObj ms) p) of None \<Rightarrow> ?vals ! c ! r | Some w \<Rightarrow> Some w)"
      using 3(3) [OF Some 3(4-9)] 3(10,11) by simp
    have here: "?vals ! c ! r =
        (case last_opt (if key = fst (children n ! i) then vals_at v q else []) of
           None \<Rightarrow> vals ! c ! r | Some w \<Rightarrow> Some w)"
    proof (cases "j = i")
      case False
      then have k: "key \<noteq> fst (children n ! i)" using fi Some by auto
      have "\<forall>is. cols ((addr @ [j]) @ is) \<noteq> Some c"
        using 3(7,9) is' False unfolding routes_def by fastforce
      with k 3(10,11) show ?thesis by (simp add: traverse_frame(1))
    next
      case True
      then have k: "key = fst (children n ! i)" using j by simp
      show ?thesis
      proof (cases "flattens ?child d")
        case True
        have sub: "routes cols ?child (addr @ [j]) (d + 1)" "cols (addr @ [j]) = None"
          using routes_child [OF 3(7) j(1) True] by blast+
        have "leaf_at ?child (d + 1) js = Some (q, m)"
          using 3(8) is' i p True \<open>j = i\<close> by (auto split: prod.splits)
        moreover have "nclass ?child = NC_OBJECT" using True by (simp add: flattens_def)
        moreover have "cols ((addr @ [j]) @ js) = Some c" using 3(9) is' \<open>j = i\<close> by simp
        ultimately show ?thesis
          using 3(2) [OF Some node_okD(2) [OF 3(4) j(1)] _ sub(2) sub(1)] 3(10,11) k by simp
      next
        case False
        with 3(8) is' i p \<open>j = i\<close> have "js = []" "q = []"
          by (auto split: prod.splits if_splits)
        with 3(9) is' \<open>j = i\<close> have "cols (addr @ [j]) = Some c" by simp
        with \<open>q = []\<close> k 3(10,11) show ?thesis
          by (simp add: traverse.simps write_slot_nth last_opt_def)
      qed
    qed
    have "traverse_members cols ((key, v) # ms) n addr r vals = traverse_members cols ms n addr r ?vals"
      using Some by simp
    moreover have "last_opt (vals_at (JObj ((key, v) # ms)) p) =
        (case last_opt (vals_at (JObj ms) p) of
           None \<Rightarrow> last_opt (if key = fst (children n ! i) then vals_at v q else [])
         | Some w \<Rightarrow> Some w)"
      by (simp only: p vals_at_Cons last_opt_append)
    ultimately show ?thesis
      using rest here by (simp only: split: option.splits) auto
  qed
qed

section \<open>A batch of rows\<close>

lemma index_columns_fields [simp]:
  "slots (index_columns col cs e) = slots e"
  "root_is_column (index_columns col cs e) \<longleftrightarrow> root_is_column e \<or> (\<exists>c \<in> set cs. cpath c = [])"
  by (induction col cs e rule: index_columns.induct) (auto simp: Let_def)

lemma index_columns_column_of:
  "distinct (map cnode cs) \<Longrightarrow>
     column_of (index_columns col cs e) =
       column_of e ++ map_of (zip (map cnode cs) [col..<col + length cs])"
proof (induction col cs e rule: index_columns.induct)
  case (2 col c cs e)
  let ?m = "map_of (zip (map cnode cs) [Suc col..<Suc col + length cs])"
  have "cnode c \<notin> dom ?m" using 2(2) by (auto dest!: map_of_SomeD set_zip_leftD)
  then have "(column_of e)(cnode c \<mapsto> col) ++ ?m = column_of e ++ ?m(cnode c \<mapsto> col)"
    by (simp add: map_add_upd_left)
  moreover have "[col..<col + length (c # cs)] = col # [Suc col..<Suc col + length cs]"
    by (simp add: upt_conv_Cons del: upt_Suc)
  moreover have "column_of (index_columns col (c # cs) e) = (column_of e)(cnode c \<mapsto> col) ++ ?m"
    using 2 by (simp add: Let_def del: upt_Suc fun_upd_apply)
  moreover have "map_of (zip (map cnode (c # cs)) (col # [Suc col..<Suc col + length cs])) =
      ?m(cnode c \<mapsto> col)"
    by (simp del: upt_Suc fun_upd_apply)
  ultimately show ?case by argo
qed simp

lemma column_of_iff:
  "distinct (map cnode cs) \<Longrightarrow>
     column_of (raw_extractor cs) a = Some j \<longleftrightarrow> j < length cs \<and> cnode (cs ! j) = a"
proof -
  assume d: "distinct (map cnode cs)"
  have "map_of (zip (map cnode cs) [0..<length cs]) a = Some j \<longleftrightarrow>
      (a, j) \<in> set (zip (map cnode cs) [0..<length cs])"
    using d by (intro map_of_eq_Some_iff) simp
  also have "\<dots> \<longleftrightarrow> j < length cs \<and> cnode (cs ! j) = a"
    by (force simp: in_set_zip)
  finally show ?thesis
    by (simp add: raw_extractor_def index_columns_column_of [OF d])
qed

text \<open>The columns of a flattened object tree route like its leaves.\<close>

lemma flatten_schema_distinct:
  "flatten_schema root b = Inr cs \<Longrightarrow> distinct (map cnode cs)"
  using flatten_into_distinct [of 0 "children root" "[]" "[]" 0 "[]"]
  by (auto simp: flatten_schema_def Let_def split: if_splits)

lemma flatten_schema_leaf:
  assumes fl: "flatten_schema root False = Inr cs" and obj: "nclass root = NC_OBJECT"
    and c: "c < length cs"
  shows "\<exists>m. leaf_at root 0 (cnode (cs ! c)) = Some (cpath (cs ! c), m) \<and>
    ctype (cs ! c) = node_to_type m"
proof -
  let ?f = "flatten_into 0 (children root) [] [] 0 []"
  have cs: "cs = disambiguate [] ?f" using flatten_schema_columns [OF fl] obj by simp
  have len: "c < length ?f" using c cs by simp
  have eq: "cnode (cs ! c) = cnode (?f ! c)" "cpath (cs ! c) = cpath (?f ! c)"
    "ctype (cs ! c) = ctype (?f ! c)"
    using c len cs disambiguate_fields by (metis nth_map length_map)+
  from flatten_into_sound [of "children root" 0 root "?f ! c" "[]" "[]" 0 "[]"] len
  show ?thesis by (auto simp: eq)
qed

lemma flatten_schema_routes:
  assumes fl: "flatten_schema root False = Inr cs" and obj: "nclass root = NC_OBJECT"
  shows "routes (column_of (raw_extractor cs)) root [] 0"
    and "column_of (raw_extractor cs) [] = None"
    and "\<not> root_is_column (raw_extractor cs)"
proof -
  let ?f = "flatten_into 0 (children root) [] [] 0 []"
  have cs: "cs = disambiguate [] ?f" using flatten_schema_columns [OF fl] obj by simp
  note iff = column_of_iff [OF flatten_schema_distinct [OF fl]]
  have leaves: "column_of (raw_extractor cs) a \<noteq> None \<longleftrightarrow> leaf_at root 0 a \<noteq> None" for a
  proof
    assume "column_of (raw_extractor cs) a \<noteq> None"
    then obtain j where "j < length cs" "cnode (cs ! j) = a" using iff by blast
    with flatten_schema_leaf [OF fl obj, of j] show "leaf_at root 0 a \<noteq> None" by auto
  next
    assume "leaf_at root 0 a \<noteq> None"
    then obtain p m where "leaf_at root 0 a = Some (p, m)" by auto
    with flatten_into_complete [of "children root" 0 root 0 a p m "[]" "[]" "[]"]
    have "a \<in> cnode ` set ?f" by simp
    then have "a \<in> set (map cnode cs)" by (simp add: cs)
    then show "column_of (raw_extractor cs) a \<noteq> None"
      using iff by (auto simp: in_set_conv_nth)
  qed
  then show "routes (column_of (raw_extractor cs)) root [] 0"
    using iff by (simp add: routes_def)
  show "column_of (raw_extractor cs) [] = None" using leaves [of "[]"] by simp
  have "cpath x \<noteq> []" if "x \<in> set cs" for x
    using flatten_schema_leaf [OF fl obj] that leaf_at_nonempty
    by (metis in_set_conv_nth)
  then show "\<not> root_is_column (raw_extractor cs)"
    by (auto simp: raw_extractor_def)
qed

lemma assign_rows_fields:
  "assign_rows root i rows e = Inr e' \<Longrightarrow>
     column_of e' = column_of e \<and> root_is_column e' = root_is_column e \<and>
     map length (slots e') = map length (slots e)"
  by (induction root i rows e rule: assign_rows.induct)
    (auto simp: assign_row_def split: if_splits option.splits)

text \<open>Rows other than those of the batch keep their slots; each row fills its own.\<close>

lemma assign_rows_lookup:
  assumes root: "node_ok root" "nclass root = NC_OBJECT" "column_of e [] = None"
      "routes (column_of e) root [] 0" "\<not> root_is_column e"
    and leaf: "leaf_at root 0 a = Some (p, m)" "column_of e a = Some c"
    and c: "c < length (slots e)" "r < length (slots e ! c)"
  shows "\<exists>e'. assign_rows root i rows e = Inr e' \<and>
    slots e' ! c ! r =
      (if i \<le> r \<and> r < i + length rows
       then (case last_opt (vals_at (rows ! (r - i)) p) of
               None \<Rightarrow> slots e ! c ! r | Some w \<Rightarrow> Some w)
       else slots e ! c ! r)"
  using assms
proof (induction root i rows e rule: assign_rows.induct)
  case (2 root i row rows e)
  let ?e = "e\<lparr>slots := traverse (column_of e) row root [] i (slots e)\<rparr>"
  have a: "assign_row root row i e = Inr ?e" using 2 by (simp add: assign_row_def)
  have here: "slots ?e ! c ! r =
      (if r = i then (case last_opt (vals_at row p) of None \<Rightarrow> slots e ! c ! r | Some w \<Rightarrow> Some w)
       else slots e ! c ! r)"
  proof (cases "r = i")
    case True
    then show ?thesis
      using traverse_lookup(1) [OF 2(2,3,4,5), of a p m c "slots e" r row] 2 by simp
  next
    case False
    then show ?thesis using traverse_frame(1) [of "column_of e" "[]" c r i "slots e" row root] 2
      by simp
  qed
  have "\<exists>e'. assign_rows root (Suc i) rows ?e = Inr e' \<and>
    slots e' ! c ! r =
      (if Suc i \<le> r \<and> r < Suc i + length rows
       then (case last_opt (vals_at (rows ! (r - Suc i)) p) of
               None \<Rightarrow> slots ?e ! c ! r | Some w \<Rightarrow> Some w)
       else slots ?e ! c ! r)"
    using 2 a by (intro 2(1)) simp_all
  moreover have "rows ! (r - Suc i) = (row # rows) ! (r - i)" if "Suc i \<le> r"
    using that by (simp add: nth_Cons' Suc_diff_le)
  ultimately show ?case using here a
    by (cases r i rule: linorder_cases) (auto split: option.splits)
qed auto

text \<open>One batch: \<^verbatim>\<open>Reset\<close>, then \<^verbatim>\<open>AssignRow\<close> for every row.\<close>

definition extract_batch :: "raw_node \<Rightarrow> raw_column list \<Rightarrow> json list \<Rightarrow> extractor result" where
  "extract_batch root cols rows =
     assign_rows root 0 rows (reset_extractor (length rows) (raw_extractor cols))"

lemma length_slots_raw_extractor [simp]: "length (slots (raw_extractor cols)) = length cols"
  by (simp add: raw_extractor_def)

lemma reset_extractor_fields [simp]:
  "column_of (reset_extractor n e) = column_of e"
  "root_is_column (reset_extractor n e) = root_is_column e"
  "slots (reset_extractor n e) = map (\<lambda>_. replicate n None) (slots e)"
  by (simp_all add: reset_extractor_def)

lemma extract_batch_ok:
  assumes "node_ok root" "nclass root = NC_OBJECT" "flatten_schema root False = Inr cols"
  shows "\<exists>e. extract_batch root cols rows = Inr e"
proof -
  have "\<not> root_is_column (raw_extractor cols)" using flatten_schema_routes assms by blast
  then have "\<exists>e'. assign_rows root i rows e = Inr e'" if "\<not> root_is_column e" for i e
    using that by (induction rows arbitrary: i e) (auto simp: assign_row_def)
  then show ?thesis
    using \<open>\<not> root_is_column _\<close> by (simp add: extract_batch_def)
qed

lemma extract_batch_lookup:
  assumes "node_ok root" "nclass root = NC_OBJECT" "flatten_schema root False = Inr cols"
    and "extract_batch root cols rows = Inr e" "c < length cols" "r < length rows"
  shows "slots e ! c ! r = last_opt (vals_at (rows ! r) (cpath (cols ! c)))"
proof -
  let ?e = "reset_extractor (length rows) (raw_extractor cols)"
  obtain m where m: "leaf_at root 0 (cnode (cols ! c)) = Some (cpath (cols ! c), m)"
    using flatten_schema_leaf assms by blast
  have "column_of ?e (cnode (cols ! c)) = Some c"
    using column_of_iff [OF flatten_schema_distinct] assms by simp
  moreover have "column_of ?e [] = None" "routes (column_of ?e) root [] 0" "\<not> root_is_column ?e"
    using flatten_schema_routes [OF assms(3,2)] by simp_all
  ultimately show ?thesis
    using assign_rows_lookup [of root ?e, OF assms(1,2) _ _ _ m, of c r 0 rows] assms(4-6)
    by (simp add: extract_batch_def split: option.splits)
qed

text \<open>
  Rows that are not objects: the tree has one column at the root, and the row is its value.
\<close>

lemma extract_batch_root:
  assumes "flatten_schema root b = Inr [col]" "cpath col = []" "cnode col = []"
    and "r < length rows"
  shows "\<exists>e. extract_batch root [col] rows = Inr e \<and> slots e = [map Some rows]"
proof -
  have step: "\<exists>e'. assign_rows root i rows e = Inr e' \<and>
      slots e' = [take i (hd (slots e)) @ map Some rows]"
    if "root_is_column e" "column_of e [] = Some 0" "length (slots e) = 1"
      "length (hd (slots e)) = i + length rows" for i e
    using that
  proof (induction rows arbitrary: i e)
    case Nil
    then show ?case by (cases "slots e") auto
  next
    case (Cons row rows)
    obtain s where s: "slots e = [s]" using Cons.prems(3) by (cases "slots e") auto
    have "\<exists>e'. assign_rows root (Suc i) rows (e\<lparr>slots := [s[i := Some row]]\<rparr>) = Inr e' \<and>
        slots e' = [take (Suc i) (s[i := Some row]) @ map Some rows]"
      using Cons.IH [of "e\<lparr>slots := [s[i := Some row]]\<rparr>" "Suc i"] Cons.prems s by simp
    moreover have "take (Suc i) (s[i := Some row]) = take i s @ [Some row]"
      using Cons.prems(4) s by (simp add: take_Suc_conv_app_nth)
    ultimately show ?case
      using Cons.prems s by (simp add: assign_row_def write_slot_def)
  qed
  have "root_is_column (raw_extractor [col])" "column_of (raw_extractor [col]) [] = Some 0"
    using assms(2,3) by (simp_all add: raw_extractor_def Let_def)
  then show ?thesis
    using step [of "reset_extractor (length rows) (raw_extractor [col])" 0]
    by (simp add: extract_batch_def raw_extractor_def hd_map)
qed

section \<open>Properties\<close>

text \<open>
  Routing is path lookup. After one traversal of every row of a batch, the slot
  of a row and a column holds the last value of the row at the column's path.
\<close>

theorem routing_is_lookup:
  assumes "node_ok root" "nclass root = NC_OBJECT" "flatten_schema root False = Inr cols"
  shows "\<exists>e. extract_batch root cols rows = Inr e \<and>
    (\<forall>c < length cols. \<forall>r < length rows.
       slots e ! c ! r = last_opt (vals_at (rows ! r) (cpath (cols ! c))))"
  using extract_batch_ok [OF assms] extract_batch_lookup [OF assms] by blast

theorem routing_is_lookup_witness:
  "\<exists>e. extract_batch (append_child (set_class NC_OBJECT new_node) ''a'')
         [\<lparr>cname = ''a'', cpath = [''a''], ctype = TVarchar, cnode = [0]\<rparr>]
         [JObj [(''a'', JNull), (''b'', JNull), (''a'', JBool True)]] = Inr e \<and>
       slots e ! 0 ! 0 = Some (JBool True)"
proof -
  let ?n = "append_child (set_class NC_OBJECT new_node) ''a''"
  have "node_ok ?n"
    by (rule node_okI) (simp_all add: append_child_def new_node_def index_ok_def node_ok.simps)
  moreover have "nclass ?n = NC_OBJECT" by (simp add: append_child_def new_node_def)
  moreover have "flatten_schema ?n False =
      Inr [\<lparr>cname = ''a'', cpath = [''a''], ctype = TVarchar, cnode = [0]\<rparr>]"
    by code_simp
  ultimately show ?thesis
    using routing_is_lookup [of ?n "[\<lparr>cname = ''a'', cpath = [''a''], ctype = TVarchar, cnode = [0]\<rparr>]"
        "[JObj [(''a'', JNull), (''b'', JNull), (''a'', JBool True)]]"]
    by (auto simp: last_opt_def)
qed

end
