(* ===== verification/Fill.thy ===== *)
theory Fill
  imports Extract
begin

text \<open>
  Column vectors (\<^verbatim>\<open>raw_json.cpp\<close>, lines 893 to 914 and 962 to 1105). A flat vector holds
  one cell per row; a list vector holds an offset and a length per row and one child vector
  that all rows share. The theorems say that \<^verbatim>\<open>FillVector\<close> computes the cell of every
  value independently of the batch, and that the cell of an accepted value carries it.
\<close>

section \<open>Vectors\<close>

datatype vec = Flat "cell list" | Lists "(nat \<times> nat) option list" vec

fun vec_size :: "vec \<Rightarrow> nat" where
  "vec_size (Flat cs) = length cs"
| "vec_size (Lists es _) = length es"

text \<open>A vector of the type without rows.\<close>

fun new_vec :: "logical_type \<Rightarrow> vec" where
  "new_vec (TList t) = Lists [] (new_vec t)"
| "new_vec _ = Flat []"

fun vec_ok :: "logical_type \<Rightarrow> vec \<Rightarrow> bool" where
  "vec_ok (TList t) (Lists es child) \<longleftrightarrow>
     vec_ok t child \<and> (\<forall>off len. Some (off, len) \<in> set es \<longrightarrow> off + len \<le> vec_size child)"
| "vec_ok (TList t) (Flat _) \<longleftrightarrow> False"
| "vec_ok _ (Flat _) \<longleftrightarrow> True"
| "vec_ok _ (Lists _ _) \<longleftrightarrow> False"

text \<open>What a reader of the vector sees.\<close>

fun cells :: "vec \<Rightarrow> cell list" where
  "cells (Flat cs) = cs"
| "cells (Lists es child) =
     map (\<lambda>e. case e of None \<Rightarrow> CNull | Some (off, len) \<Rightarrow> CList (take len (drop off (cells child)))) es"

lemma length_cells [simp]: "length (cells v) = vec_size v"
  by (cases v) simp_all

section \<open>Supported types\<close>

fun raw_fill_supported :: "logical_type \<Rightarrow> bool" where
  "raw_fill_supported t =
     (if is_raw_json_type t then True
      else case t of
        TBoolean \<Rightarrow> True | TBigint \<Rightarrow> True | TDouble \<Rightarrow> True | TDate \<Rightarrow> True
      | TTimestamp \<Rightarrow> True | TVarchar \<Rightarrow> True
      | TList t' \<Rightarrow> raw_fill_supported t'
      | _ \<Rightarrow> False)"

lemma schema_type_supported: "raw_fill_supported (schema_type s)"
proof (induction s rule: schema_type.induct)
  case (2 k)
  then show ?case by (cases k) simp_all
next
  case (4 k)
  then show ?case by (cases k) simp_all
qed simp_all

section \<open>FillVector\<close>

definition write_json_string :: "lib \<Rightarrow> json \<Rightarrow> cell result" where
  "write_json_string L v =
     (case write_json L v of
        None \<Rightarrow> Inl (InternalError ''RawDuck: failed to serialize JSON value'')
      | Some s \<Rightarrow> Inr (CText s))"

text \<open>The body of the loop over \<open>vals\<close> for every type but LIST.\<close>

fun fill_flat :: "lib \<Rightarrow> logical_type \<Rightarrow> json option \<Rightarrow> cell result" where
  "fill_flat L TJson (Some v) = (if is_null v then Inr CNull else write_json_string L v)"
| "fill_flat L TBoolean (Some (JBool b)) = Inr (CBool b)"
| "fill_flat L TBigint (Some (JSint i)) = Inr (CBigint i)"
| "fill_flat L TBigint (Some (JUint u)) = Inr (CBigint u)"
| "fill_flat L TDouble (Some v) = (if is_num v then Inr (CDouble (num_double L v)) else Inr CNull)"
| "fill_flat L TDate (Some (JStr s)) =
     (case try_date L s of None \<Rightarrow> Inr CNull | Some (d, _, _) \<Rightarrow> Inr (CDate d))"
| "fill_flat L TTimestamp (Some (JStr s)) =
     (case try_timestamp L s of None \<Rightarrow> Inr CNull | Some ts \<Rightarrow> Inr (CTimestamp ts))"
| "fill_flat L TVarchar (Some v) =
     (case v of
        JNull \<Rightarrow> Inr CNull
      | JStr s \<Rightarrow> Inr (CText s)
      | _ \<Rightarrow> write_json_string L v)"
| "fill_flat L _ _ = Inr CNull"

text \<open>
  The loop that lays out a list column from element \<open>child_offset\<close> on: the entries of the
  rows and the values for the child vector.
\<close>

fun list_entries :: "nat \<Rightarrow> json option list \<Rightarrow> (nat \<times> nat) option list \<times> json option list" where
  "list_entries child_offset [] = ([], [])"
| "list_entries child_offset (v # vals) =
     (case v of
        Some (JArr vs) \<Rightarrow>
          (let (es, child_vals) = list_entries (child_offset + length vs) vals in
           (Some (child_offset, length vs) # es, map Some vs @ child_vals))
      | _ \<Rightarrow>
          (let (es, child_vals) = list_entries child_offset vals in (None # es, child_vals)))"

text \<open>
  \<open>offset\<close> is the position of the first value; the rows before it stay. Values are written
  into the child vector from its current size on.
\<close>

fun fill_vector :: "lib \<Rightarrow> json option list \<Rightarrow> logical_type \<Rightarrow> vec \<Rightarrow> nat \<Rightarrow> vec result" where
  "fill_vector L vals (TList t) (Lists es child) offset =
     (let (new_es, child_vals) = list_entries (vec_size child) vals in
      bind_result (fill_vector L child_vals t child (vec_size child)) (\<lambda>child'.
        Inr (Lists (take offset es @ new_es) child')))"
| "fill_vector L vals t (Flat cs) offset =
     bind_result (map_result (fill_flat L t) vals) (\<lambda>new. Inr (Flat (take offset cs @ new)))"
| "fill_vector L vals t v offset = Inl (InternalError ''vector type mismatch'')"

section \<open>The cell of a value\<close>

text \<open>The specification: a value's cell depends on the value and the type only.\<close>

fun fill_value :: "lib \<Rightarrow> logical_type \<Rightarrow> json option \<Rightarrow> cell result" where
  "fill_value L (TList t) v =
     (case v of
        Some (JArr vs) \<Rightarrow>
          bind_result (map_result (fill_value L t) (map Some vs)) (\<lambda>cs. Inr (CList cs))
      | _ \<Rightarrow> Inr CNull)"
| "fill_value L t v = fill_flat L t v"

lemma fill_value_flat: "(\<And>t'. t \<noteq> TList t') \<Longrightarrow> fill_value L t v = fill_flat L t v"
  by (cases t) auto

definition arr_of :: "json option \<Rightarrow> json list option" where
  "arr_of v = (case v of Some (JArr vs) \<Rightarrow> Some vs | _ \<Rightarrow> None)"

lemma arr_of_Some: "arr_of v = Some vs \<longleftrightarrow> v = Some (JArr vs)"
  by (auto simp: arr_of_def split: option.splits json.splits)

lemma list_entries_Cons:
  "list_entries off (v # vals) =
     (case arr_of v of
        Some vs \<Rightarrow> (Some (off, length vs) # fst (list_entries (off + length vs) vals),
                    map Some vs @ snd (list_entries (off + length vs) vals))
      | None \<Rightarrow> (None # fst (list_entries off vals), snd (list_entries off vals)))"
  by (simp add: arr_of_def Let_def case_prod_beta split: option.splits json.splits)

lemma fill_value_list:
  "fill_value L (TList t) v =
     (case arr_of v of
        Some vs \<Rightarrow> bind_result (map_result (fill_value L t) (map Some vs)) (\<lambda>cs. Inr (CList cs))
      | None \<Rightarrow> Inr CNull)"
  by (simp add: arr_of_def split: option.splits json.splits)

lemma fill_value_flat_fun: "\<forall>t'. t \<noteq> TList t' \<Longrightarrow> fill_value L t = fill_flat L t"
  by (cases t) (simp_all add: fun_eq_iff)

lemma fill_vector_flat:
  "\<forall>t'. t \<noteq> TList t' \<Longrightarrow> fill_vector L vals t (Flat cs) offset =
     bind_result (map_result (fill_flat L t) vals) (\<lambda>new. Inr (Flat (take offset cs @ new)))"
  by (cases t) simp_all

lemma vec_ok_flat: "\<forall>t'. t \<noteq> TList t' \<Longrightarrow> vec_ok t v \<longleftrightarrow> (\<exists>cs. v = Flat cs)"
  by (cases t; cases v) simp_all

declare list_entries.simps(2) [simp del] fill_value.simps(1) [simp del]

lemma list_entries_bound:
  "length (fst (list_entries off vals)) = length vals \<and>
   (\<forall>o' l. Some (o', l) \<in> set (fst (list_entries off vals)) \<longrightarrow>
      o' + l \<le> off + length (snd (list_entries off vals)))"
proof (induction vals arbitrary: off)
  case (Cons v vals)
  show ?case
  proof (cases "arr_of v")
    case None
    with Cons show ?thesis by (simp add: list_entries_Cons)
  next
    case (Some vs)
    then show ?thesis using Cons [of "off + length vs"]
      by (auto simp: list_entries_Cons add.assoc)
  qed
qed simp

definition read_entry :: "cell list \<Rightarrow> (nat \<times> nat) option \<Rightarrow> cell" where
  "read_entry cs e = (case e of None \<Rightarrow> CNull | Some (off, len) \<Rightarrow> CList (take len (drop off cs)))"

text \<open>The slices of the shared child vector are the values' own elements.\<close>

lemma list_entries_read:
  "map_result (fill_value L (TList t)) vals =
     bind_result (map_result (fill_value L t) (snd (list_entries (length pre) vals)))
       (\<lambda>cs. Inr (map (read_entry (pre @ cs)) (fst (list_entries (length pre) vals))))"
proof (induction vals arbitrary: pre)
  case (Cons v vals)
  show ?case
  proof (cases "arr_of v")
    case None
    let ?r = "map_result (fill_value L t) (snd (list_entries (length pre) vals))"
    show ?thesis
      using None Cons [of pre]
      by (cases ?r) (simp_all add: fill_value_list list_entries_Cons read_entry_def)
  next
    case (Some vs)
    let ?r1 = "map_result (fill_value L t) (map Some vs)"
    show ?thesis
    proof (cases ?r1)
      case (Inl e)
      with Some show ?thesis by (simp add: fill_value_list list_entries_Cons map_result_append)
    next
      case (Inr cs)
      then have len: "length cs = length vs" by (auto dest: map_result_length)
      let ?r2 = "map_result (fill_value L t) (snd (list_entries (length (pre @ cs)) vals))"
      show ?thesis
        using Some Inr Cons [of "pre @ cs"] len
        by (cases ?r2)
          (simp_all add: fill_value_list list_entries_Cons map_result_append read_entry_def)
    qed
  qed
qed simp

lemma read_entry_stable:
  "off + len \<le> length cs \<Longrightarrow> read_entry (cs @ ds) (Some (off, len)) = read_entry cs (Some (off, len))"
  by (simp add: read_entry_def)

lemma cells_Lists: "cells (Lists es child) = map (read_entry (cells child)) es"
  by (simp add: read_entry_def)

declare cells.simps(2) [simp del]

text \<open>
  The refinement: after \<^verbatim>\<open>FillVector\<close> the vector holds the old cells up to \<open>offset\<close> and
  the cell of each value after them, or the first value's error leaves.
\<close>

definition fills :: "lib \<Rightarrow> logical_type \<Rightarrow> bool" where
  "fills L t \<longleftrightarrow> (\<forall>v vals offset. vec_ok t v \<longrightarrow> offset \<le> vec_size v \<longrightarrow>
     (case map_result (fill_value L t) vals of
        Inl e \<Rightarrow> fill_vector L vals t v offset = Inl e
      | Inr cs \<Rightarrow> \<exists>v'. fill_vector L vals t v offset = Inr v' \<and> vec_ok t v' \<and>
                  cells v' = take offset (cells v) @ cs))"

lemma fillsD:
  "fills L t \<Longrightarrow> vec_ok t v \<Longrightarrow> offset \<le> vec_size v \<Longrightarrow>
     (case map_result (fill_value L t) vals of
        Inl e \<Rightarrow> fill_vector L vals t v offset = Inl e
      | Inr cs \<Rightarrow> \<exists>v'. fill_vector L vals t v offset = Inr v' \<and> vec_ok t v' \<and>
                  cells v' = take offset (cells v) @ cs)"
  by (simp add: fills_def)

lemma fills_flat: "\<forall>t'. t \<noteq> TList t' \<Longrightarrow> fills L t"
proof -
  assume t: "\<forall>t'. t \<noteq> TList t'"
  show ?thesis
    unfolding fills_def fill_value_flat_fun [OF t] vec_ok_flat [OF t]
  proof (intro allI impI)
    fix v vals offset
    assume "\<exists>cs. v = Flat cs"
    then obtain cs where v: "v = Flat cs" by blast
    show "case map_result (fill_flat L t) vals of
        Inl e \<Rightarrow> fill_vector L vals t v offset = Inl e
      | Inr cs \<Rightarrow> \<exists>v'. fill_vector L vals t v offset = Inr v' \<and> (\<exists>cs. v' = Flat cs) \<and>
                  cells v' = take offset (cells v) @ cs"
      unfolding v fill_vector_flat [OF t]
      by (cases "map_result (fill_flat L t) vals") simp_all
  qed
qed

lemma fills_list:
  assumes t: "fills L t"
  shows "fills L (TList t)"
  unfolding fills_def
proof (intro allI impI)
  fix v vals offset
  assume ok: "vec_ok (TList t) v" and offset: "offset \<le> vec_size v"
  then obtain es child where v: "v = Lists es child" by (cases v) auto
  let ?es = "fst (list_entries (vec_size child) vals)"
  let ?cvs = "snd (list_entries (vec_size child) vals)"
  have child: "vec_ok t child" using ok by (simp add: v)
  have IH: "case map_result (fill_value L t) ?cvs of
        Inl e \<Rightarrow> fill_vector L ?cvs t child (vec_size child) = Inl e
      | Inr cs \<Rightarrow> \<exists>v'. fill_vector L ?cvs t child (vec_size child) = Inr v' \<and> vec_ok t v' \<and>
                  cells v' = cells child @ cs"
    using fillsD [OF t child order_refl, of ?cvs] by (auto split: sum.splits)
  note read = list_entries_read [of L t vals "cells child"]
  show "case map_result (fill_value L (TList t)) vals of
        Inl e \<Rightarrow> fill_vector L vals (TList t) v offset = Inl e
      | Inr cs \<Rightarrow> \<exists>v'. fill_vector L vals (TList t) v offset = Inr v' \<and> vec_ok (TList t) v' \<and>
                  cells v' = take offset (cells v) @ cs"
  proof (cases "map_result (fill_value L t) ?cvs")
    case (Inl e)
    with IH read show ?thesis by (simp add: v Let_def case_prod_beta)
  next
    case (Inr cs)
    with IH obtain child' where c: "fill_vector L ?cvs t child (vec_size child) = Inr child'"
        "vec_ok t child'" "cells child' = cells child @ cs"
      by auto
    have size: "vec_size child' = vec_size child + length ?cvs"
      using c(3) Inr map_result_length by (metis length_append length_cells)
    have "vec_ok (TList t) (Lists (take offset es @ ?es) child')"
      using ok c(2) list_entries_bound [of "vec_size child" vals] size
      by (fastforce simp: v dest: in_set_takeD)
    moreover have "cells (Lists (take offset es @ ?es) child') =
        take offset (cells (Lists es child)) @ map (read_entry (cells child @ cs)) ?es"
    proof -
      have "read_entry (cells child @ cs) e = read_entry (cells child) e"
        if "e \<in> set (take offset es)" for e
        using in_set_takeD [OF that] ok
        by (fastforce simp: v read_entry_def split: option.splits)
      then show ?thesis by (simp add: cells_Lists c(3) take_map)
    qed
    ultimately show ?thesis using read Inr c(1) by (simp add: v Let_def case_prod_beta)
  qed
qed

lemma fill_vector_refines: "fills L t"
  by (induction t) (simp_all add: fills_flat fills_list)

section \<open>No value is lost\<close>

text \<open>
  When a cell carries a value: a number as itself or as the double \<^verbatim>\<open>yyjson\<close> reads, a date
  or a timestamp as the conversion of its text, anything else as its text, NULL for null
  only.
\<close>

fun carries :: "lib \<Rightarrow> json \<Rightarrow> cell \<Rightarrow> bool" where
  "carries L v CNull \<longleftrightarrow> v = JNull"
| "carries L v (CBool b) \<longleftrightarrow> v = JBool b"
| "carries L v (CBigint w) \<longleftrightarrow> v = JSint w \<or> (\<exists>u. v = JUint u \<and> sint w = uint u)"
| "carries L v (CDouble d) \<longleftrightarrow> is_num v \<and> d = num_double L v"
| "carries L v (CDate d) \<longleftrightarrow> (\<exists>s. v = JStr s \<and> try_date L s = Some (d, length s, False))"
| "carries L v (CTimestamp ts) \<longleftrightarrow> (\<exists>s. v = JStr s \<and> try_timestamp L s = Some ts)"
| "carries L v (CText t) \<longleftrightarrow> v = JStr t \<or> write_json L v = Some t"
| "carries L v (CList cs) \<longleftrightarrow> (\<exists>vs. v = JArr vs \<and> list_all2 (carries L) vs cs)"

text \<open>
  \<^verbatim>\<open>WriteJSONString\<close> throws on a value \<^verbatim>\<open>yyjson\<close> does not write (an infinity or a NaN, which
  the reader admits): the values that cannot be written into a column of a type.
\<close>

fun unwritable :: "lib \<Rightarrow> logical_type \<Rightarrow> json \<Rightarrow> bool" where
  "unwritable L (TList t) (JArr vs) \<longleftrightarrow> list_ex (unwritable L t) vs"
| "unwritable L TJson v \<longleftrightarrow> \<not> is_null v \<and> write_json L v = None"
| "unwritable L TVarchar v \<longleftrightarrow> \<not> is_null v \<and> \<not> is_str v \<and> write_json L v = None"
| "unwritable L _ _ \<longleftrightarrow> False"

definition serialize_error :: raw_error where
  "serialize_error = InternalError ''RawDuck: failed to serialize JSON value''"

text \<open>
  A complete date beyond the range of timestamps: a date column holds it and a timestamp
  column holds NULL for it.
\<close>

definition date_only :: "lib \<Rightarrow> string \<Rightarrow> bool" where
  "date_only L s \<longleftrightarrow>
     try_timestamp L s = None \<and>
     (case try_date L s of None \<Rightarrow> False | Some (d, n, special) \<Rightarrow> n = length s \<and> \<not> special)"

text \<open>What the cell of a value in a column of a type has to be.\<close>

fun holds :: "lib \<Rightarrow> logical_type \<Rightarrow> json \<Rightarrow> cell \<Rightarrow> bool" where
  "holds L (TList t) v c \<longleftrightarrow>
     v = JNull \<and> c = CNull \<or> (\<exists>vs cs. v = JArr vs \<and> c = CList cs \<and> list_all2 (holds L t) vs cs)"
| "holds L TTimestamp v c \<longleftrightarrow> carries L v c \<or> (\<exists>s. v = JStr s \<and> date_only L s \<and> c = CNull)"
| "holds L t v c \<longleftrightarrow> carries L v c"

text \<open>A type that takes the value: whatever is stored for it is what has to be stored.\<close>

fun keeps :: "lib \<Rightarrow> logical_type \<Rightarrow> json \<Rightarrow> bool" where
  "keeps L (TList t) v \<longleftrightarrow> v = JNull \<or> (\<exists>vs. v = JArr vs \<and> list_all (keeps L t) vs)"
| "keeps L t v \<longleftrightarrow> (\<forall>c. fill_value L t (Some v) = Inr c \<longrightarrow> holds L t v c)"

lemma uint_sint_small: "unat (u :: 64 word) \<le> int64_max \<Longrightarrow> sint u = uint u"
proof -
  assume "unat u \<le> int64_max"
  then have "int (unat u) \<le> int int64_max" by (simp only: of_nat_le_iff)
  then have "uint u < 2 ^ 63" by (simp add: int64_max_def)
  moreover have "0 \<le> uint u" by simp
  ultimately have "signed_take_bit 63 (uint u) = uint u"
    by (intro signed_take_bit_int_eq_self) linarith+
  then show ?thesis by (simp add: sint_uint)
qed

lemma elements_below:
  "v \<in> set vs \<Longrightarrow> schemas.below (val_schema L d v) (elements_schema L d vs)"
proof (induction vs)
  case (Cons w vs)
  then show ?case
    by (auto intro: schemas.below_join schemas.below_trans)
qed simp

lemma write_json_string_cases:
  "write_json_string L v = (case write_json L v of None \<Rightarrow> Inl serialize_error | Some s \<Rightarrow> Inr (CText s))"
  by (simp add: write_json_string_def serialize_error_def split: option.splits)

lemma map_result_Inl: "map_result f xs = Inl e \<Longrightarrow> \<exists>x \<in> set xs. f x = Inl e"
proof (induction xs)
  case (Cons x xs)
  then show ?case by (cases "f x"; cases "map_result f xs") auto
qed simp

lemma map_result_uniform:
  "\<forall>x \<in> set xs. f x = Inl e \<or> (\<exists>y. f x = Inr y) \<Longrightarrow>
     (map_result f xs = Inl e \<longleftrightarrow> (\<exists>x \<in> set xs. f x = Inl e)) \<and>
     ((\<exists>ys. map_result f xs = Inr ys) \<longleftrightarrow> \<not> (\<exists>x \<in> set xs. f x = Inl e))"
  by (induction xs) (auto split: sum.splits)

text \<open>A value's cell exists unless the value cannot be written, and there is no other error.\<close>

lemma fill_flat_result:
  "\<forall>t'. t \<noteq> TList t' \<Longrightarrow>
     (if unwritable L t v then fill_flat L t (Some v) = Inl serialize_error
      else \<exists>c. fill_flat L t (Some v) = Inr c)"
  by (cases t; cases v) (auto simp: write_json_string_cases split: option.splits)

lemma fill_value_result:
  "if unwritable L t v then fill_value L t (Some v) = Inl serialize_error
   else \<exists>c. fill_value L t (Some v) = Inr c"
proof (induction t arbitrary: v)
  case (TList t)
  show ?case
  proof (cases "\<exists>vs. v = JArr vs")
    case True
    then obtain vs where v: "v = JArr vs" by blast
    have e: "\<forall>x \<in> set (map Some vs).
        fill_value L t x = Inl serialize_error \<or> (\<exists>y. fill_value L t x = Inr y)"
    proof -
      have "fill_value L t (Some w) = Inl serialize_error \<or> (\<exists>y. fill_value L t (Some w) = Inr y)" for w
        using TList [of w] by (simp split: if_splits)
      then show ?thesis by simp
    qed
    have u: "list_ex (unwritable L t) vs \<longleftrightarrow> (\<exists>x \<in> set (map Some vs). fill_value L t x = Inl serialize_error)"
      using TList by (force simp: list_ex_iff split: if_splits)
    show ?thesis
      using map_result_uniform [OF e] unfolding v
      by (auto simp: fill_value_list arr_of_def u)
  next
    case False
    then show ?thesis by (cases v) (simp_all add: fill_value_list arr_of_def)
  qed
qed (simp only: fill_value.simps, rule fill_flat_result, simp)+

lemma fill_value_fails: "fill_value L t (Some v) = Inl e \<longleftrightarrow> unwritable L t v \<and> e = serialize_error"
  using fill_value_result [of L t v] by (auto split: if_splits)

lemma fill_value_ex: "(\<exists>c. fill_value L t (Some v) = Inr c) \<longleftrightarrow> \<not> unwritable L t v"
  using fill_value_result [of L t v] by (auto split: if_splits)

lemma fill_value_None: "fill_value L t None = Inr CNull"
  by (cases t) (simp_all add: fill_value_list arr_of_def)

lemma fill_null: "fill_value L t (Some JNull) = Inr CNull"
  by (cases t) (auto simp: fill_value_list arr_of_def)

lemma holds_null: "holds L t JNull CNull"
  by (cases t) simp_all

lemma keeps_text: "keeps L TJson v" "keeps L TVarchar v"
  by (cases v; auto simp: write_json_string_cases split: option.splits)+

lemma keeps_null: "keeps L t JNull"
  by (cases t) (simp_all add: fill_null)

lemma keeps_holds: "keeps L t v \<Longrightarrow> fill_value L t (Some v) = Inr c \<Longrightarrow> holds L t v c"
proof (induction t arbitrary: v c)
  case (TList t)
  from TList.prems(1) consider "v = JNull" | vs where "v = JArr vs" "list_all (keeps L t) vs" by auto
  then show ?case
  proof cases
    case 1
    with TList.prems(2) show ?thesis by (simp add: fill_null)
  next
    case 2
    then obtain cs where cs: "map_result (fill_value L t) (map Some vs) = Inr cs" "c = CList cs"
      using TList.prems(2) by (auto simp: fill_value_list arr_of_def split: sum.splits)
    then have "list_all2 (\<lambda>w c. fill_value L t (Some w) = Inr c) vs cs"
      by (simp add: map_result_iff list_all2_map1)
    then have "list_all2 (holds L t) vs cs"
      by (rule list.rel_mono_strong) (use 2(2) TList.IH in \<open>auto simp: list_all_iff\<close>)
    with 2(1) cs(2) show ?thesis by simp
  qed
qed simp_all

lemma sniff_string_date:
  "sniff_string L s = SK_DATE \<Longrightarrow> \<exists>d. try_date L s = Some (d, length s, False)"
  by (auto simp: sniff_string_def Let_def split: if_splits option.splits)

lemma sniff_string_timestamp:
  "sniff_string L s = SK_TIMESTAMP \<Longrightarrow> \<exists>ts. try_timestamp L s = Some ts"
  by (auto simp: sniff_string_def Let_def split: if_splits option.splits)

lemma sniff_string_kinds: "sniff_string L s \<in> {SK_DATE, SK_TIMESTAMP, SK_VARCHAR}"
  by (auto simp: sniff_string_def Let_def)

lemma date_only_iff:
  "try_date L s = Some (d, length s, False) \<Longrightarrow> date_only L s \<longleftrightarrow> try_timestamp L s = None"
  by (simp add: date_only_def)

lemma keeps_scalar:
  assumes v: "\<not> is_null v" "\<not> is_obj v" "\<not> is_arr v"
    and below: "join_scalar_kinds k (sniff_scalar_kind L v) = k"
  shows "keeps L (scalar_kind_to_type k) v"
proof (cases v)
  case (JStr s)
  have "join_scalar_kinds k (sniff_string L s) = k" using below JStr by simp
  then consider "k = SK_VARCHAR" | "k = SK_DATE" "sniff_string L s = SK_DATE"
    | "k = SK_TIMESTAMP" "sniff_string L s = SK_DATE"
    | "k = SK_TIMESTAMP" "sniff_string L s = SK_TIMESTAMP"
    using sniff_string_kinds [of L s] by (cases k) (auto simp: kind_defs)
  then show ?thesis
    using JStr sniff_string_date [of L s] sniff_string_timestamp [of L s]
    by cases (auto simp: date_only_iff split: option.splits)
qed (use v below in
    \<open>cases k; auto simp: kind_defs uint_sint_small write_json_string_cases split: if_splits option.splits\<close>)+

lemma accepts_keeps: "accepts L s d v \<Longrightarrow> keeps L (schema_type s) v"
proof (induction v arbitrary: s d rule: measure_induct_rule [of size])
  case (less v)
  have below: "sjoin s (val_schema L d v) = s"
    using less.prems by (simp add: accepts_def schemas.below_def)
  consider (deep) "d > RAW_MAX_NESTING" | (null) "v = JNull" "\<not> d > RAW_MAX_NESTING"
    | (obj) ms where "v = JObj ms" "\<not> d > RAW_MAX_NESTING"
    | (arr) vs where "v = JArr vs" "\<not> d > RAW_MAX_NESTING"
    | (scalar) "\<not> is_null v" "\<not> is_obj v" "\<not> is_arr v" "\<not> d > RAW_MAX_NESTING"
    by (cases v) auto
  then show ?case
  proof cases
    case deep
    then have "s = SJson" using below by (simp add: val_schema.simps(1) [of L d v])
    then show ?thesis by (simp only: schema_type.simps keeps_text)
  next
    case null
    then show ?thesis by (simp only: keeps_null)
  next
    case obj
    then have "sjoin s (SObject (members_schema L (d + 1) ms)) = s"
      using below by (simp add: val_schema.simps(1) [of L d "JObj ms"])
    then have "schema_type s = TJson" by (cases s) simp_all
    then show ?thesis by (simp only: keeps_text)
  next
    case arr
    then have arr_below: "sjoin s (SArray (elements_schema L (d + 1) vs)) = s"
      using below by (simp add: val_schema.simps(1) [of L d "JArr vs"])
    then consider (json) "schema_type s = TJson"
      | (list) e where "schema_type s = TList (schema_type e)"
          "sjoin e (elements_schema L (d + 1) vs) = e"
      using arr_below
    proof (cases s)
      case (SArray e)
      then have e: "sjoin e (elements_schema L (d + 1) vs) = e"
        using arr_below by simp
      have "schema_type s = TJson \<or> schema_type s = TList (schema_type e)"
        unfolding SArray by (cases e) simp_all
      with e show thesis using that by blast
    qed (use that in simp_all)
    then show ?thesis
    proof cases
      case json
      then show ?thesis by (simp only: keeps_text)
    next
      case list
      have "keeps L (schema_type e) w" if w: "w \<in> set vs" for w
      proof -
        have "schemas.below (elements_schema L (d + 1) vs) e"
          using list(2) by (simp add: schemas.below_def)
        then have "accepts L e (d + 1) w"
          using elements_below [OF w] schemas.below_trans unfolding accepts_def by blast
        moreover have "size w < size v" using w arr(1) by (simp add: size_list_estimation' less_Suc_eq_le)
        ultimately show ?thesis using less.IH by blast
      qed
      then show ?thesis using arr list by (simp add: list_all_iff)
    qed
  next
    case scalar
    have "val_schema L d v = SScalar (sniff_scalar_kind L v)"
      using scalar by (cases v) (simp_all add: val_schema.simps(1))
    then have "s = SJson \<or> (\<exists>k. s = SScalar k \<and> join_scalar_kinds k (sniff_scalar_kind L v) = k) "
      using below scalar by (cases s) auto
    then show ?thesis
      using keeps_text(1) [of L v] keeps_scalar [OF scalar(1-3)] by (auto simp del: keeps.simps)
  qed
qed

section \<open>Properties\<close>

text \<open>
  Property C35: \<^verbatim>\<open>FillVector\<close> is pointwise. Whatever the vector held before, it keeps the
  cells up to \<open>offset\<close> and then has the cell of each value, lists of lists included; an
  unserialisable value is the only error.
\<close>

theorem fill_vector_pointwise:
  assumes "vec_ok t v" "offset \<le> vec_size v"
  shows "case map_result (fill_value L t) vals of
      Inl e \<Rightarrow> fill_vector L vals t v offset = Inl e
    | Inr cs \<Rightarrow> \<exists>v'. fill_vector L vals t v offset = Inr v' \<and> vec_ok t v' \<and>
                cells v' = take offset (cells v) @ cs"
  by (rule fillsD [OF fill_vector_refines assms])

theorem fill_vector_pointwise_witness:
  "\<exists>v'. fill_vector sample_lib [Some (JArr [JUint 1, JNull]), None, Some (JArr [JSint 2])]
          (TList TBigint) (Lists [Some (0, 1)] (Flat [CBigint 7])) 1 = Inr v' \<and>
        cells v' = [CList [CBigint 7], CList [CBigint 1, CNull], CNull, CList [CBigint 2]]"
proof -
  have "vec_ok (TList TBigint) (Lists [Some (0, 1)] (Flat [CBigint 7]))" by simp
  from fill_vector_pointwise [OF this, of 1 sample_lib
      "[Some (JArr [JUint 1, JNull]), None, Some (JArr [JSint 2])]"]
  show ?thesis by (auto simp: fill_value_list arr_of_def cells.simps(2))
qed

text \<open>
  The cell of a value an inferred schema accepts is what the column's type makes of the value,
  whatever the schema was widened to in between; only a value that cannot be written has no cell.
\<close>

theorem accepted_value_survives:
  assumes "accepts L s d v"
  shows "case fill_value L (schema_type s) (Some v) of
      Inl e \<Rightarrow> unwritable L (schema_type s) v \<and> e = serialize_error
    | Inr c \<Rightarrow> \<not> unwritable L (schema_type s) v \<and> holds L (schema_type s) v c"
  using fill_value_result [of L "schema_type s" v] keeps_holds [OF accepts_keeps [OF assms]]
  by (auto split: sum.splits if_splits)

theorem accepted_value_survives_witness:
  "\<exists>c. fill_value sample_lib TTimestamp (Some (JStr ''2024-01-01'')) = Inr c \<and>
       holds sample_lib TTimestamp (JStr ''2024-01-01'') c"
proof -
  have "accepts sample_lib (SScalar SK_TIMESTAMP) 0 (JStr ''2024-01-01'')"
    by (simp add: accepts_def schemas.below_def val_schema.simps(1) sniff_string_def sample_lib_def
        is_digit_def kind_defs RAW_MAX_NESTING_def)
  from accepted_value_survives [OF this] show ?thesis
    by (simp del: fill_value.simps holds.simps add: unwritable.simps split: sum.splits)
qed

end
