(* ===== verification/Lossless.thy ===== *)
theory Lossless
  imports Fill
begin

text \<open>
  A batch from rows to cells: what schema inference, flattening, routing and filling give
  together. Every value of every row is under the path of some column, and the cell of a
  row and a column holds the last value of the row at the column's path, unless a value of the
  column cannot be written.
\<close>

section \<open>Accepted values below a path\<close>

lemma members_below:
  "(key, w) \<in> set ms \<Longrightarrow>
     \<exists>s. members_schema L d ms key = Some s \<and> schemas.below (val_schema L d w) s"
proof (induction ms)
  case (Cons m ms)
  obtain k v where m: "m = (k, v)" by (cases m)
  show ?case
  proof (cases "(key, w) \<in> set ms")
    case True
    then obtain s where "members_schema L d ms key = Some s" "schemas.below (val_schema L d w) s"
      using Cons.IH by blast
    then show ?thesis
      using schemas.below_join(1) [of s "val_schema L d v"] schemas.below_trans
      by (auto simp: m omerge_def split: option.splits)
  next
    case False
    then have "k = key" "v = w" using Cons.prems m by auto
    then show ?thesis
      using schemas.below_join(2) schemas.below_refl
      by (auto simp: m omerge_def split: option.splits)
  qed
qed simp

lemma accepts_member:
  assumes acc: "accepts L (SObject f) d v" and mem: "(key, w) \<in> set (members v)"
  shows "\<exists>s. f key = Some s \<and> accepts L s (d + 1) w"
proof -
  obtain ms where v: "v = JObj ms" using mem by (cases v) auto
  have below: "sjoin (SObject f) (val_schema L d v) = SObject f"
    using acc by (simp add: accepts_def schemas.below_def)
  then have "\<not> d > RAW_MAX_NESTING" by (auto simp: val_schema.simps(1) [of L d v])
  then have "omerge sjoin f (members_schema L (d + 1) ms) = f"
    using below by (simp add: v val_schema.simps(1) [of L d "JObj ms"])
  then have merged: "omerge sjoin f (members_schema L (d + 1) ms) key = f key" by simp
  obtain s where s: "members_schema L (d + 1) ms key = Some s"
      "schemas.below (val_schema L (d + 1) w) s"
    using members_below [of key w ms L "d + 1"] mem v by auto
  with merged obtain t where "f key = Some t" "sjoin t s = t"
    by (auto simp: omerge_def split: option.splits)
  moreover from this(2) have "schemas.below s t" by (simp add: schemas.below_def)
  ultimately show ?thesis
    using s(2) schemas.below_trans unfolding accepts_def by blast
qed

lemma accepts_object_value:
  "accepts L (SObject f) d v \<Longrightarrow> is_obj v \<or> is_null v"
  by (cases v) (auto simp: accepts_def schemas.below_def val_schema.simps(1) split: if_splits)

lemma abs_children_nth:
  "node_ok n \<Longrightarrow> i < length (children n) \<Longrightarrow>
     abs_children n (fst (children n ! i)) = Some (abs_node (snd (children n ! i)))"
proof -
  assume n: "node_ok n" and i: "i < length (children n)"
  have "distinct (child_names n)" using index_ok_distinct [OF node_okD(1) [OF n]] .
  then have "map_of (children n) (fst (children n ! i)) = Some (snd (children n ! i))"
    using i by (simp add: map_of_eq_Some_iff)
  then show ?thesis by (simp add: abs_children_def)
qed

lemma abs_children_child:
  "abs_children n key = Some s \<Longrightarrow>
     \<exists>i < length (children n). fst (children n ! i) = key \<and> abs_node (snd (children n ! i)) = s"
  by (auto simp: abs_children_def dest!: map_of_Some_nth)

lemma vals_at_step:
  "w \<in> set (vals_at v (k # p)) \<longleftrightarrow> (\<exists>u. (k, u) \<in> set (members v) \<and> w \<in> set (vals_at u p))"
  by auto

declare vals_at.simps(2) [simp del]

text \<open>A leaf's schema accepts the values at its path.\<close>

lemma accepts_leaf:
  "leaf_at n depth is = Some (p, m) \<Longrightarrow> node_ok n \<Longrightarrow> nclass n = NC_OBJECT \<Longrightarrow>
     accepts L (abs_node n) d v \<Longrightarrow> w \<in> set (vals_at v p) \<Longrightarrow> \<exists>d'. accepts L (abs_node m) d' w"
proof (induction n depth "is" arbitrary: p v d rule: leaf_at.induct)
  case (2 n depth i "is")
  let ?child = "snd (children n ! i)"
  have i: "i < length (children n)" using 2(2) by (auto split: if_splits)
  then obtain q where p: "p = fst (children n ! i) # q"
    using 2(2) by (auto split: prod.splits if_splits)
  then obtain u where u: "(fst (children n ! i), u) \<in> set (members v)" "w \<in> set (vals_at u q)"
    using 2(6) by (auto simp: vals_at_step)
  have acc: "accepts L (abs_node ?child) (d + 1) u"
    using accepts_member [of L "abs_children n" d v "fst (children n ! i)" u] 2(3-5) u(1)
      abs_children_nth [OF 2(3) i] by (simp add: abs_node_class)
  show ?case
  proof (cases "flattens ?child depth")
    case True
    then have "leaf_at ?child (depth + 1) is = Some (q, m)"
      using 2(2) i p by (auto split: prod.splits)
    moreover have "nclass ?child = NC_OBJECT" using True by (simp add: flattens_def)
    ultimately show ?thesis
      using 2(1) [OF i refl prod.collapse True] node_okD(2) [OF 2(3) i] acc u(2) by blast
  next
    case False
    then have "q = [] \<and> m = ?child" using 2(2) i p by (auto split: prod.splits if_splits)
    with acc u(2) show ?thesis by auto
  qed
qed simp

text \<open>Every value that is neither an object nor null lies at or below a leaf.\<close>

lemma leaf_covers:
  "node_ok n \<Longrightarrow> nclass n = NC_OBJECT \<Longrightarrow> accepts L (abs_node n) d v \<Longrightarrow> p \<noteq> [] \<Longrightarrow>
     w \<in> set (vals_at v p) \<Longrightarrow> \<not> is_obj w \<Longrightarrow> \<not> is_null w \<Longrightarrow>
     \<exists>is q m r. leaf_at n depth is = Some (q, m) \<and> p = q @ r"
proof (induction p arbitrary: n d v depth)
  case (Cons k p)
  then obtain u where u: "(k, u) \<in> set (members v)" "w \<in> set (vals_at u p)"
    by (auto simp: vals_at_step)
  with Cons.prems(2,3) obtain s where s: "abs_children n k = Some s" "accepts L s (d + 1) u"
    using accepts_member [of L "abs_children n" d v k u] by (auto simp: abs_node_class)
  then obtain i where i: "i < length (children n)" "fst (children n ! i) = k"
      "abs_node (snd (children n ! i)) = s"
    using abs_children_child by blast
  let ?child = "snd (children n ! i)"
  show ?case
  proof (cases "flattens ?child depth")
    case True
    then have obj: "nclass ?child = NC_OBJECT" by (simp add: flattens_def)
    then have "is_obj u \<or> is_null u"
      using s(2) i(3) by (auto simp: abs_node_class dest: accepts_object_value)
    then have "p \<noteq> []" using Cons.prems(6,7) u(2) by auto
    then obtain "is" q m r where "leaf_at ?child (depth + 1) is = Some (q, m)" "p = q @ r"
      using Cons.IH [OF node_okD(2) [OF Cons.prems(1) i(1)] obj, of "d + 1" u "depth + 1"] i(3) s(2) u(2)
        Cons.prems(6,7) by blast
    then show ?thesis
      using i True by (intro exI [of _ "i # is"] exI [of _ "k # q"]) (auto split: prod.splits)
  next
    case False
    then have "leaf_at n depth [i] = Some ([k], ?child)" using i by (auto split: prod.splits)
    then show ?thesis by fastforce
  qed
qed simp

section \<open>The rows of a payload\<close>

lemma infer_schema_accepts: "row \<in> set rows \<Longrightarrow> accepts L (abs_node (infer_schema L rows)) 0 row"
  by (simp add: accepts_def infer_schema_abs schemas.below_fold)

lemma column_of_leaf:
  assumes "flatten_schema root False = Inr cols" "nclass root = NC_OBJECT"
    and "leaf_at root 0 a = Some (p, m)"
  shows "\<exists>c < length cols. cpath (cols ! c) = p \<and> ctype (cols ! c) = node_to_type m"
proof -
  have "column_of (raw_extractor cols) a \<noteq> None"
    using flatten_schema_routes(1) [OF assms(1,2)] assms(3) leaf_at_nonempty [OF assms(3)]
    unfolding routes_def by (metis append_Nil option.distinct(1))
  then obtain c where c: "c < length cols" "cnode (cols ! c) = a"
    using column_of_iff [OF flatten_schema_distinct [OF assms(1)]] by blast
  with flatten_schema_leaf [OF assms(1,2) c(1)] assms(3) show ?thesis by auto
qed

lemma batch_covers:
  assumes "flatten_schema (infer_schema L rows) False = Inr cols"
    and "nclass (infer_schema L rows) = NC_OBJECT"
    and "row \<in> set rows" "p \<noteq> []" "w \<in> set (vals_at row p)" "\<not> is_obj w" "\<not> is_null w"
  shows "\<exists>c < length cols. \<exists>r. p = cpath (cols ! c) @ r"
  using leaf_covers [OF infer_schema_ok assms(2) infer_schema_accepts [OF assms(3)] assms(4-7), of 0]
    column_of_leaf [OF assms(1,2)] by metis

text \<open>Filling every column of an extracted batch from empty vectors.\<close>

definition fill_column :: "lib \<Rightarrow> raw_column list \<Rightarrow> extractor \<Rightarrow> nat \<Rightarrow> vec result" where
  "fill_column L cols e c =
     fill_vector L (slots e ! c) (ctype (cols ! c)) (new_vec (ctype (cols ! c))) 0"

lemma new_vec_ok: "vec_ok t (new_vec t)" "vec_size (new_vec t) = 0"
  by (induction t) simp_all

lemma fill_column_result:
  assumes "length (slots e ! c) = n"
  shows "case fill_column L cols e c of
      Inl err \<Rightarrow> err = serialize_error \<and>
        (\<exists>r < n. \<exists>w. slots e ! c ! r = Some w \<and> unwritable L (ctype (cols ! c)) w)
    | Inr v \<Rightarrow> vec_size v = n \<and>
        (\<forall>r < n. fill_value L (ctype (cols ! c)) (slots e ! c ! r) = Inr (cells v ! r))"
proof -
  let ?t = "ctype (cols ! c)" and ?vals = "slots e ! c"
  have fills: "case map_result (fill_value L ?t) ?vals of
      Inl e \<Rightarrow> fill_vector L ?vals ?t (new_vec ?t) 0 = Inl e
    | Inr cs \<Rightarrow> \<exists>v'. fill_vector L ?vals ?t (new_vec ?t) 0 = Inr v' \<and> vec_ok ?t v' \<and>
        cells v' = take 0 (cells (new_vec ?t)) @ cs"
    by (rule fillsD [OF fill_vector_refines new_vec_ok(1)]) simp
  show ?thesis
  proof (cases "map_result (fill_value L ?t) ?vals")
    case (Inl err)
    from map_result_Inl [OF this] obtain v where v: "v \<in> set ?vals" "fill_value L ?t v = Inl err" by blast
    obtain r where r: "r < n" "?vals ! r = v" using v(1) assms by (metis in_set_conv_nth)
    obtain w where "v = Some w" using v(2) by (cases v) (simp_all add: fill_value_None)
    with Inl fills r v(2) show ?thesis by (auto simp: fill_column_def fill_value_fails)
  next
    case (Inr cs)
    with fills obtain v where v: "fill_column L cols e c = Inr v" "cells v = cs"
      by (auto simp: fill_column_def)
    have len: "vec_size v = n" using v(2) map_result_length [OF Inr] assms by (metis length_cells)
    have "\<forall>r < n. fill_value L ?t (?vals ! r) = Inr (cells v ! r)"
      using map_result_nth [OF Inr] v(2) assms by simp
    with v(1) len show ?thesis by simp
  qed
qed

lemma slots_shape:
  "extract_batch root cols rows = Inr e \<Longrightarrow> c < length cols \<Longrightarrow> length (slots e ! c) = length rows"
proof -
  assume e: "extract_batch root cols rows = Inr e" and c: "c < length cols"
  have shape: "map length (slots e) = map (\<lambda>_. length rows) (slots (raw_extractor cols))"
    using assign_rows_fields [of root 0 rows "reset_extractor (length rows) (raw_extractor cols)" e] e
    by (simp add: extract_batch_def comp_def)
  then have "length (slots e) = length cols"
    using length_slots_raw_extractor by (metis length_map)
  then have "map length (slots e) ! c = length (slots e ! c)" using c by simp
  with shape c show ?thesis by simp
qed

text \<open>The value a row has for a column.\<close>

definition value_at :: "raw_column \<Rightarrow> json \<Rightarrow> json option" where
  "value_at c row = last_opt (vals_at row (cpath c))"

lemma batch_lossless:
  assumes obj: "nclass (infer_schema L rows) = NC_OBJECT"
    and fl: "flatten_schema (infer_schema L rows) False = Inr cols"
    and e: "extract_batch (infer_schema L rows) cols rows = Inr e"
    and c: "c < length cols"
  shows "case fill_column L cols e c of
      Inl err \<Rightarrow> err = serialize_error \<and>
        (\<exists>row \<in> set rows. \<exists>w. value_at (cols ! c) row = Some w \<and> unwritable L (ctype (cols ! c)) w)
    | Inr v \<Rightarrow> vec_size v = length rows \<and>
        (\<forall>r < length rows. case value_at (cols ! c) (rows ! r) of
            None \<Rightarrow> cells v ! r = CNull
          | Some w \<Rightarrow> \<not> unwritable L (ctype (cols ! c)) w \<and> holds L (ctype (cols ! c)) w (cells v ! r))"
proof -
  let ?t = "ctype (cols ! c)"
  have slot: "slots e ! c ! r = value_at (cols ! c) (rows ! r)" if "r < length rows" for r
    unfolding value_at_def by (rule extract_batch_lookup [OF infer_schema_ok obj fl e c that])
  have keeps: "keeps L ?t w" if r: "r < length rows" and w: "value_at (cols ! c) (rows ! r) = Some w" for r w
  proof -
    have w': "w \<in> set (vals_at (rows ! r) (cpath (cols ! c)))"
      using w by (auto simp: value_at_def last_opt_def split: if_splits)
    obtain m where m: "leaf_at (infer_schema L rows) 0 (cnode (cols ! c)) = Some (cpath (cols ! c), m)"
        "?t = node_to_type m"
      using flatten_schema_leaf [OF fl obj c] by blast
    obtain d where "accepts L (abs_node m) d w"
      using accepts_leaf [OF m(1) infer_schema_ok obj infer_schema_accepts w'] r by auto
    from accepts_keeps [OF this] m(2) show ?thesis by (simp add: node_to_type_abs)
  qed
  note filled = fill_column_result [OF slots_shape [OF e c], of L cols]
  show ?thesis
  proof (cases "fill_column L cols e c")
    case (Inl err)
    then obtain r w where "err = serialize_error" "r < length rows"
        "value_at (cols ! c) (rows ! r) = Some w" "unwritable L ?t w"
      using filled slot by auto
    with Inl show ?thesis using nth_mem by fastforce
  next
    case (Inr v)
    then have v: "vec_size v = length rows"
      "\<And>r. r < length rows \<Longrightarrow> fill_value L ?t (value_at (cols ! c) (rows ! r)) = Inr (cells v ! r)"
      using filled slot by simp_all
    have "case value_at (cols ! c) (rows ! r) of None \<Rightarrow> cells v ! r = CNull
        | Some w \<Rightarrow> \<not> unwritable L ?t w \<and> holds L ?t w (cells v ! r)" if r: "r < length rows" for r
    proof (cases "value_at (cols ! c) (rows ! r)")
      case None
      with v(2) [OF r] show ?thesis by (simp add: fill_value_None)
    next
      case (Some w)
      with v(2) [OF r] have "fill_value L ?t (Some w) = Inr (cells v ! r)" by simp
      with keeps_holds [OF keeps [OF r Some]] fill_value_ex [of L ?t w] Some show ?thesis by auto
    qed
    with Inr v(1) show ?thesis by simp
  qed
qed

section \<open>Properties\<close>

definition sample_rows :: "json list" where
  "sample_rows =
     [JObj [(''id'', JUint 1), (''at'', JStr ''2024-01-01''), (''u'', JObj [(''n'', JStr ''a'')])],
      JObj [(''id'', JReal 5), (''tags'', JArr [JStr ''x'', JNull])]]"

definition sample_cols :: "raw_column list" where
  "sample_cols =
     [\<lparr>cname = ''id'', cpath = [''id''], ctype = TDouble, cnode = [0]\<rparr>,
      \<lparr>cname = ''at'', cpath = [''at''], ctype = TDate, cnode = [1]\<rparr>,
      \<lparr>cname = ''u.n'', cpath = [''u'', ''n''], ctype = TVarchar, cnode = [2, 0]\<rparr>,
      \<lparr>cname = ''tags'', cpath = [''tags''], ctype = TList TVarchar, cnode = [3]\<rparr>]"

lemma sample_flattens:
  "flatten_schema (infer_schema sample_lib sample_rows) False = Inr sample_cols"
  "nclass (infer_schema sample_lib sample_rows) = NC_OBJECT"
  by code_simp+

text \<open>
  Property C1: a batch loses nothing it routes. For rows that infer to an object tree, extraction
  succeeds, and filling column \<open>c\<close> of the flattened schema fails exactly when the value of
  some row at the column's path cannot be written as text into a column of that type.
  Otherwise the cell of every row holds the last value the row has at the path: NULL without one,
  the value itself, or, in a timestamp column, NULL for a date beyond the range of timestamps.
\<close>

theorem ingest_batch_lossless:
  assumes "nclass (infer_schema L rows) = NC_OBJECT"
    and "flatten_schema (infer_schema L rows) False = Inr cols"
    and "c < length cols"
  shows "\<exists>e. extract_batch (infer_schema L rows) cols rows = Inr e \<and>
    (case fill_column L cols e c of
        Inl err \<Rightarrow> err = serialize_error \<and>
          (\<exists>row \<in> set rows. \<exists>w. value_at (cols ! c) row = Some w \<and> unwritable L (ctype (cols ! c)) w)
      | Inr v \<Rightarrow> vec_size v = length rows \<and>
          (\<forall>r < length rows. case value_at (cols ! c) (rows ! r) of
              None \<Rightarrow> cells v ! r = CNull
            | Some w \<Rightarrow> \<not> unwritable L (ctype (cols ! c)) w \<and> holds L (ctype (cols ! c)) w (cells v ! r)))"
  using extract_batch_ok [OF infer_schema_ok assms(1,2)] batch_lossless [OF assms(1,2) _ assms(3)]
  by blast

text \<open>A library that writes no floating-point number, for the error branch.\<close>

definition no_reals :: lib where
  "no_reals = sample_lib\<lparr>write_json := (\<lambda>v. case v of JReal _ \<Rightarrow> None | _ \<Rightarrow> Some ''{}'')\<rparr>"

theorem ingest_batch_lossless_witness:
  "(\<exists>e v. extract_batch (infer_schema sample_lib sample_rows) sample_cols sample_rows = Inr e \<and>
      fill_column sample_lib sample_cols e 3 = Inr v \<and> vec_size v = 2 \<and>
      holds sample_lib (TList TVarchar) (JArr [JStr ''x'', JNull]) (cells v ! 1)) \<and>
   (let rows = [JObj [(''x'', JStr ''a'')], JObj [(''x'', JReal 0)]] in
    \<exists>e. extract_batch (infer_schema no_reals rows) (projr (flatten_schema (infer_schema no_reals rows) False)) rows = Inr e \<and>
      fill_column no_reals (projr (flatten_schema (infer_schema no_reals rows) False)) e 0 = Inl serialize_error)"
proof
  have "3 < length sample_cols" by (simp add: sample_cols_def)
  from ingest_batch_lossless [OF sample_flattens(2,1) this]
  obtain e where e: "extract_batch (infer_schema sample_lib sample_rows) sample_cols sample_rows = Inr e"
    "case fill_column sample_lib sample_cols e 3 of
        Inl err \<Rightarrow> err = serialize_error \<and>
          (\<exists>row \<in> set sample_rows. \<exists>w. value_at (sample_cols ! 3) row = Some w \<and>
             unwritable sample_lib (ctype (sample_cols ! 3)) w)
      | Inr v \<Rightarrow> vec_size v = length sample_rows \<and>
          (\<forall>r < length sample_rows. case value_at (sample_cols ! 3) (sample_rows ! r) of
              None \<Rightarrow> cells v ! r = CNull
            | Some w \<Rightarrow> \<not> unwritable sample_lib (ctype (sample_cols ! 3)) w \<and>
                holds sample_lib (ctype (sample_cols ! 3)) w (cells v ! r))"
    by blast
  have at: "map (value_at (sample_cols ! 3)) sample_rows = [None, Some (JArr [JStr ''x'', JNull])]"
    by code_simp
  have ty: "ctype (sample_cols ! 3) = TList TVarchar" by (simp add: sample_cols_def)
  moreover have two: "length sample_rows = 2" by (simp add: sample_rows_def)
  have "value_at (sample_cols ! 3) (sample_rows ! 0) = None"
    "value_at (sample_cols ! 3) (sample_rows ! 1) = Some (JArr [JStr ''x'', JNull])"
    using at by (simp_all add: sample_rows_def)
  moreover have "\<forall>row \<in> set sample_rows. value_at (sample_cols ! 3) row \<in> {None, Some (JArr [JStr ''x'', JNull])}"
    using at by (auto simp: sample_rows_def)
  moreover have "\<not> unwritable sample_lib (TList TVarchar) (JArr [JStr ''x'', JNull])" by simp
  moreover have "1 < length sample_rows" by (simp add: two)
  ultimately show "\<exists>e v. extract_batch (infer_schema sample_lib sample_rows) sample_cols sample_rows = Inr e \<and>
      fill_column sample_lib sample_cols e 3 = Inr v \<and> vec_size v = 2 \<and>
      holds sample_lib (TList TVarchar) (JArr [JStr ''x'', JNull]) (cells v ! 1)"
    using e two
    by (cases "fill_column sample_lib sample_cols e 3")
      (fastforce simp del: holds.simps unwritable.simps dest: spec [where x = 1])+
next
  let ?rows = "[JObj [(''x'', JStr ''a'')], JObj [(''x'', JReal 0)]]"
  let ?cols = "projr (flatten_schema (infer_schema no_reals ?rows) False)"
  have fl: "flatten_schema (infer_schema no_reals ?rows) False = Inr ?cols" by code_simp
  have obj: "nclass (infer_schema no_reals ?rows) = NC_OBJECT" by code_simp
  have c: "0 < length ?cols" by code_simp
  have bad: "value_at (?cols ! 0) (?rows ! 1) = Some (JReal 0)" "unwritable no_reals (ctype (?cols ! 0)) (JReal 0)"
    by code_simp+
  from ingest_batch_lossless [OF obj fl c] obtain e where
    e: "extract_batch (infer_schema no_reals ?rows) ?cols ?rows = Inr e" "case fill_column no_reals ?cols e 0 of
        Inl err \<Rightarrow> err = serialize_error \<and>
          (\<exists>row \<in> set ?rows. \<exists>w. value_at (?cols ! 0) row = Some w \<and> unwritable no_reals (ctype (?cols ! 0)) w)
      | Inr v \<Rightarrow> vec_size v = length ?rows \<and>
          (\<forall>r < length ?rows. case value_at (?cols ! 0) (?rows ! r) of
              None \<Rightarrow> cells v ! r = CNull
            | Some w \<Rightarrow> \<not> unwritable no_reals (ctype (?cols ! 0)) w \<and> holds no_reals (ctype (?cols ! 0)) w (cells v ! r))"
    by blast
  have "1 < length ?rows" by simp
  then have "fill_column no_reals ?cols e 0 = Inl serialize_error"
    using e(2) bad by (cases "fill_column no_reals ?cols e 0") (fastforce simp only: sum.case option.case)+
  with e(1) show "let rows = ?rows in
    \<exists>e. extract_batch (infer_schema no_reals rows) (projr (flatten_schema (infer_schema no_reals rows) False)) rows = Inr e \<and>
      fill_column no_reals (projr (flatten_schema (infer_schema no_reals rows) False)) e 0 = Inl serialize_error"
    unfolding Let_def by blast
qed

text \<open>
  Property C7: every value of a row that is neither an object nor null lies under the path of
  some column, so flattening leaves nothing of a row out.
\<close>

theorem every_value_has_a_column:
  assumes "nclass (infer_schema L rows) = NC_OBJECT"
    and "flatten_schema (infer_schema L rows) False = Inr cols"
    and "row \<in> set rows" "p \<noteq> []" "w \<in> set (vals_at row p)" "\<not> is_obj w" "\<not> is_null w"
  shows "\<exists>c < length cols. \<exists>r. p = cpath (cols ! c) @ r"
  by (rule batch_covers [OF assms(2,1,3-7)])

theorem every_value_has_a_column_witness:
  "\<exists>c < length sample_cols. \<exists>r. [''u'', ''n''] = cpath (sample_cols ! c) @ r"
proof (rule every_value_has_a_column [OF sample_flattens(2,1)])
  show "hd sample_rows \<in> set sample_rows" by (simp add: sample_rows_def)
  show "JStr ''a'' \<in> set (vals_at (hd sample_rows) [''u'', ''n''])" by code_simp
qed simp_all

end
