(* ===== verification/Payload.thy ===== *)
theory Payload
  imports Schema
begin

text \<open>
  Payload parsing (\<^verbatim>\<open>raw_json.cpp\<close>, lines 51 to 167 and 557 to 591): one JSON document or
  one per line, the read pool with its fallback, and the uniformity check.
\<close>

section \<open>State\<close>

record raw_payload =
  docs :: "json list"
  prows :: "json list"
  scalar_rows :: bool
  parse_errors :: nat
  otlp_semantics :: bool
  pool_buffers :: nat

definition new_payload :: raw_payload where
  "new_payload =
     \<lparr>docs = [], prows = [], scalar_rows = False, parse_errors = 0, otlp_semantics = False,
      pool_buffers = 0\<rparr>"

record parse_options =
  ignore_errors :: bool
  explode_path :: "string list"
  otlp :: bool

definition default_options :: parse_options where
  "default_options = \<lparr>ignore_errors = False, explode_path = [], otlp = False\<rparr>"

section \<open>Rows\<close>

definition collect_rows :: "json \<Rightarrow> json list" where
  "collect_rows root = (if is_arr root then elements root else [root])"

definition object_rows :: "json list \<Rightarrow> nat" where
  "object_rows rows = length (filter is_obj rows)"

text \<open>The value is the member \<^verbatim>\<open>scalar_rows\<close>.\<close>

definition check_row_uniformity :: "json list \<Rightarrow> bool result" where
  "check_row_uniformity rows =
     (if object_rows rows > 0 \<and> object_rows rows \<noteq> length rows
      then Inl (InvalidInput ''payload mixes JSON objects with non-object values'')
      else Inr (rows \<noteq> [] \<and> object_rows rows = 0))"

text \<open>The call on a payload: \<^verbatim>\<open>CheckRowUniformity(rows, scalar_rows)\<close>.\<close>

definition set_scalar_rows :: "raw_payload \<Rightarrow> raw_payload result" where
  "set_scalar_rows p =
     bind_result (check_row_uniformity (prows p)) (\<lambda>sr. Inr (p\<lparr>scalar_rows := sr\<rparr>))"

section \<open>The read pool\<close>

definition raw_init_read_pool :: "lib \<Rightarrow> string \<Rightarrow> bool" where
  "raw_init_read_pool L payload = (if payload = [] then False else pool_init L payload)"

text \<open>\<open>alc\<close>: whether there is a pool; \<open>reads\<close>: how many reads it has served.\<close>

definition raw_pool_read :: "lib \<Rightarrow> bool \<Rightarrow> nat \<Rightarrow> string \<Rightarrow> json option" where
  "raw_pool_read L alc reads text =
     (case (if alc then pool_read L reads text else read_json L text) of
        Some doc \<Rightarrow> Some doc
      | None \<Rightarrow> if alc then read_json L text else None)"

section \<open>Parsing\<close>

text \<open>\<^verbatim>\<open>StringUtil::CharacterIsSpace\<close>.\<close>

definition is_space :: "char \<Rightarrow> bool" where
  "is_space c \<longleftrightarrow> (of_char c :: nat) = 32 \<or> (9 \<le> (of_char c :: nat) \<and> (of_char c :: nat) \<le> 13)"

definition newline :: char where
  "newline = CHR 0x0A"

text \<open>
  The lines the loop visits from \<open>pos\<close> on: up to the next newline or the end; a text ending
  in a newline has an empty last line.
\<close>

function text_lines :: "string \<Rightarrow> string list" where
  "text_lines s =
     (case dropWhile (\<lambda>c. c \<noteq> newline) s of
        [] \<Rightarrow> [s]
      | _ # rest \<Rightarrow> takeWhile (\<lambda>c. c \<noteq> newline) s # text_lines rest)"
  by pat_completeness auto
termination
proof (relation "measure length", goal_cases)
  case (2 s c rest)
  with length_dropWhile_le [of "\<lambda>c. c \<noteq> newline" s] show ?case by simp
qed simp

declare text_lines.simps [simp del]

lemma text_lines_last: "newline \<notin> set s \<Longrightarrow> text_lines s = [s]"
proof -
  assume "newline \<notin> set s"
  then have "dropWhile (\<lambda>c. c \<noteq> newline) s = []" by (simp add: dropWhile_eq_Nil_conv) metis
  then show ?thesis by (simp only: text_lines.simps [of s] list.case)
qed

lemma text_lines_more:
  "newline \<notin> set line \<Longrightarrow> text_lines (line @ newline # rest) = line # text_lines rest"
proof -
  assume l: "newline \<notin> set line"
  then have "dropWhile (\<lambda>c. c \<noteq> newline) (line @ newline # rest) = newline # rest"
    and "takeWhile (\<lambda>c. c \<noteq> newline) (line @ newline # rest) = line"
    by (induction line) auto
  then show ?thesis by (simp only: text_lines.simps [of "line @ newline # rest"] list.case)
qed

fun parse_lines ::
    "lib \<Rightarrow> parse_options \<Rightarrow> bool \<Rightarrow> nat \<Rightarrow> nat \<Rightarrow> string list \<Rightarrow> raw_payload \<Rightarrow> raw_payload result" where
  "parse_lines L opts alc reads line_number [] p = Inr p"
| "parse_lines L opts alc reads line_number (line # rest) p =
     (let line_number = line_number + 1 in
      if list_all is_space line then parse_lines L opts alc reads line_number rest p
      else
        case raw_pool_read L alc reads line of
          None \<Rightarrow>
            if ignore_errors opts
            then parse_lines L opts alc (reads + 1) line_number rest
                   (p\<lparr>parse_errors := parse_errors p + 1\<rparr>)
            else Inl (InvalidInput (''parse error on line '' @ dec_string line_number))
        | Some doc \<Rightarrow>
            parse_lines L opts alc (reads + 1) line_number rest
              (p\<lparr>docs := docs p @ [doc], prows := prows p @ [doc]\<rparr>))"

text \<open>
  \<^verbatim>\<open>RawPayload::Parse\<close> up to the uniformity check; \<^verbatim>\<open>Explode\<close> follows in its own theory.
\<close>

definition parse_rows :: "lib \<Rightarrow> parse_options \<Rightarrow> string \<Rightarrow> raw_payload \<Rightarrow> raw_payload result" where
  "parse_rows L opts payload p =
     (let alc = raw_init_read_pool L payload;
          p = (if alc then p\<lparr>pool_buffers := pool_buffers p + 1\<rparr> else p) in
      bind_result
        (case raw_pool_read L alc 0 payload of
           Some doc \<Rightarrow> Inr (p\<lparr>docs := docs p @ [doc], prows := prows p @ collect_rows doc\<rparr>)
         | None \<Rightarrow> parse_lines L opts alc 1 0 (text_lines payload) p)
        set_scalar_rows)"

text \<open>\<^verbatim>\<open>RawPayloadAddDocument\<close>.\<close>

definition raw_payload_add_document ::
    "lib \<Rightarrow> raw_payload \<Rightarrow> string \<Rightarrow> bool \<Rightarrow> raw_payload result" where
  "raw_payload_add_document L p text ignore =
     (case read_json L text of
        None \<Rightarrow>
          if ignore then Inr (p\<lparr>parse_errors := parse_errors p + 1\<rparr>)
          else Inl (InvalidInput ''payload is not valid JSON'')
      | Some doc \<Rightarrow> Inr (p\<lparr>docs := docs p @ [doc], prows := prows p @ collect_rows doc\<rparr>))"

section \<open>Facts\<close>

text \<open>
  Documented behaviour of the pool allocator: a read through it either gives what a read
  through the default allocator gives or fails for want of space.
\<close>

definition pool_faithful :: "lib \<Rightarrow> bool" where
  "pool_faithful L \<longleftrightarrow>
     (\<forall>n text. pool_read L n text = None \<or> pool_read L n text = read_json L text)"

lemma raw_pool_read_plain: "pool_faithful L \<Longrightarrow> raw_pool_read L alc n text = read_json L text"
proof -
  assume "pool_faithful L"
  then have "pool_read L n text = None \<or> pool_read L n text = read_json L text"
    unfolding pool_faithful_def by blast
  then show ?thesis by (auto simp: raw_pool_read_def split: option.splits)
qed

text \<open>The lines are the text cut at its newlines.\<close>

lemma text_lines_spec:
  "concat (map (\<lambda>l. l @ [newline]) (text_lines s)) = s @ [newline] \<and>
     (\<forall>l \<in> set (text_lines s). newline \<notin> set l)"
proof (induction s rule: measure_induct_rule [of length])
  case (less s)
  show ?case
  proof (cases "newline \<in> set s")
    case True
    then obtain line rest where "s = line @ newline # rest" "newline \<notin> set line"
      by (meson split_list_first)
    then show ?thesis using less [of rest] by (simp add: text_lines_more)
  qed (simp add: text_lines_last)
qed

text \<open>The specification of line mode: the parsed and the broken lines.\<close>

definition data_lines :: "string \<Rightarrow> string list" where
  "data_lines s = filter (\<lambda>l. \<not> list_all is_space l) (text_lines s)"

definition good_lines :: "lib \<Rightarrow> string list \<Rightarrow> json list" where
  "good_lines L ls = List.map_filter (read_json L) ls"

definition bad_lines :: "lib \<Rightarrow> string list \<Rightarrow> string list" where
  "bad_lines L ls = filter (\<lambda>l. read_json L l = None) ls"

lemma good_lines_simps [simp]:
  "good_lines L [] = []"
  "good_lines L (l # ls) =
     (case read_json L l of None \<Rightarrow> good_lines L ls | Some d \<Rightarrow> d # good_lines L ls)"
  by (simp_all add: good_lines_def List.map_filter_def split: option.splits)

lemma parse_lines_ignore:
  "pool_faithful L \<Longrightarrow> ignore_errors opts \<Longrightarrow>
     parse_lines L opts alc reads k ls p =
       (let ds = filter (\<lambda>l. \<not> list_all is_space l) ls in
        Inr (p\<lparr>docs := docs p @ good_lines L ds, prows := prows p @ good_lines L ds,
               parse_errors := parse_errors p + length (bad_lines L ds)\<rparr>))"
proof (induction L opts alc reads k ls p rule: parse_lines.induct)
  case (2 L opts alc reads k line rest p)
  show ?case
  proof (cases "list_all is_space line")
    case True
    with 2 show ?thesis by (simp add: Let_def)
  next
    case False
    note IH = 2(2,3) [OF refl False]
    from False IH 2(4,5) show ?thesis
      by (cases "read_json L line") (simp_all add: raw_pool_read_plain Let_def bad_lines_def)
  qed
qed (simp add: bad_lines_def)

lemma parse_lines_strict:
  "pool_faithful L \<Longrightarrow> \<not> ignore_errors opts \<Longrightarrow>
     (let ds = filter (\<lambda>l. \<not> list_all is_space l) ls in
      parse_lines L opts alc reads k ls p =
       (if bad_lines L ds = []
        then Inr (p\<lparr>docs := docs p @ good_lines L ds, prows := prows p @ good_lines L ds\<rparr>)
        else Inl (InvalidInput (''parse error on line '' @ dec_string
               (k + 1 + length (takeWhile (\<lambda>l. list_all is_space l \<or> read_json L l \<noteq> None) ls))))))"
proof (induction L opts alc reads k ls p rule: parse_lines.induct)
  case (2 L opts alc reads k line rest p)
  show ?case
  proof (cases "list_all is_space line")
    case True
    with 2(1) [OF refl True 2(4,5)] show ?thesis by (simp add: Let_def)
  next
    case False
    note IH = 2(3) [OF refl False]
    from False IH 2(4,5) show ?thesis
      by (cases "read_json L line") (simp_all add: raw_pool_read_plain Let_def bad_lines_def)
  qed
qed (simp add: bad_lines_def Let_def)

section \<open>Properties\<close>

text \<open>
  Property C36: line mode reads exactly the non-blank lines in order. Ignoring errors it
  keeps the rows of the lines that parse and counts the others; otherwise the first broken
  line stops it with the line's number, counted from 1 with blank lines included.
\<close>

theorem ndjson_lines_read:
  assumes "pool_faithful L" "read_json L payload = None"
  shows "let alc = raw_init_read_pool L payload; ls = text_lines payload;
             ds = data_lines payload;
             p1 = (if alc then p\<lparr>pool_buffers := pool_buffers p + 1\<rparr> else p) in
     parse_rows L opts payload p =
       (if ignore_errors opts \<or> bad_lines L ds = []
        then map_sum id (\<lambda>sr. p1\<lparr>docs := docs p @ good_lines L ds,
                prows := prows p @ good_lines L ds,
                parse_errors := parse_errors p + length (bad_lines L ds), scalar_rows := sr\<rparr>)
               (check_row_uniformity (prows p @ good_lines L ds))
        else Inl (InvalidInput (''parse error on line '' @ dec_string
               (1 + length (takeWhile (\<lambda>l. list_all is_space l \<or> read_json L l \<noteq> None) ls)))))"
proof -
  define alc where "alc = raw_init_read_pool L payload"
  define p1 where "p1 = (if alc then p\<lparr>pool_buffers := pool_buffers p + 1\<rparr> else p)"
  have fields: "docs p1 = docs p" "prows p1 = prows p" "parse_errors p1 = parse_errors p"
    by (simp_all add: p1_def)
  have same: "p1\<lparr>docs := d, prows := r, parse_errors := parse_errors p, scalar_rows := s\<rparr> =
      p1\<lparr>docs := d, prows := r, scalar_rows := s\<rparr>" for d r s
    using fields(3) by (cases p1) simp
  have uniform: "bind_result r (\<lambda>sr. Inr (f sr)) = map_sum id f r" for r :: "bool result" and f
    by (cases r) simp_all
  have parse: "parse_rows L opts payload p =
      bind_result (parse_lines L opts alc 1 0 (text_lines payload) p1) set_scalar_rows"
    using assms by (simp add: parse_rows_def alc_def [symmetric] p1_def [symmetric] raw_pool_read_plain)
  show ?thesis
  proof (cases "ignore_errors opts")
    case True
    show ?thesis
      unfolding parse parse_lines_ignore [OF assms(1) True] data_lines_def
      by (simp add: True set_scalar_rows_def uniform Let_def alc_def [symmetric] p1_def [symmetric] fields)
  next
    case False
    show ?thesis
      using parse_lines_strict [OF assms(1) False, where alc = alc and reads = 1 and k = 0
          and ls = "text_lines payload" and p = p1]
      unfolding parse data_lines_def
      by (simp add: False set_scalar_rows_def uniform Let_def alc_def [symmetric] p1_def [symmetric] fields same)
  qed
qed

theorem ndjson_lines_read_witness:
  "parse_rows (sample_lib\<lparr>read_json := (\<lambda>s. if length s = 1 then Some (JStr s) else None),
       pool_read := (\<lambda>_ _. None)\<rparr>)
     (default_options\<lparr>ignore_errors := True\<rparr>) (''a'' @ [newline] @ ''bad'' @ [newline] @ ''c'') new_payload =
   Inr (new_payload\<lparr>docs := [JStr ''a'', JStr ''c''], prows := [JStr ''a'', JStr ''c''],
          scalar_rows := True, parse_errors := 1, pool_buffers := 1\<rparr>)"
proof -
  let ?L = "sample_lib\<lparr>read_json := (\<lambda>s. if length s = 1 then Some (JStr s) else None),
       pool_read := (\<lambda>_ _. None)\<rparr>"
  let ?t = "''a'' @ [newline] @ ''bad'' @ [newline] @ ''c''"
  have "pool_faithful ?L" by (simp add: pool_faithful_def)
  note read = ndjson_lines_read [OF this(1), of ?t new_payload "default_options\<lparr>ignore_errors := True\<rparr>"]
  have "read_json ?L ?t = None" by (simp add: newline_def)
  from read [OF this] show ?thesis by code_simp
qed

lemma pool_buffers_commute:
  "p\<lparr>pool_buffers := b, parse_errors := e\<rparr> = p\<lparr>parse_errors := e, pool_buffers := b\<rparr>"
  "p\<lparr>pool_buffers := b, docs := d, prows := r\<rparr> = p\<lparr>docs := d, prows := r, pool_buffers := b\<rparr>"
  "p\<lparr>pool_buffers := b, scalar_rows := s\<rparr> = p\<lparr>scalar_rows := s, pool_buffers := b\<rparr>"
  by simp_all

lemma parse_lines_pool:
  "pool_faithful L \<Longrightarrow> pool_faithful L' \<Longrightarrow> read_json L' = read_json L \<Longrightarrow>
     parse_lines L opts alc n k ls (p\<lparr>pool_buffers := b\<rparr>) =
       map_sum id (\<lambda>q. q\<lparr>pool_buffers := b\<rparr>) (parse_lines L' opts alc' n' k ls p)"
proof (induction ls arbitrary: n n' k p)
  case (Cons l ls)
  then show ?case
    by (cases "read_json L l")
      (simp_all add: Let_def raw_pool_read_plain pool_buffers_commute)
qed simp

text \<open>
  The read pool is unobservable. With a pool that fails only for want of
  space, parsing gives the rows, errors and error line it gives without one; the buffer of
  the pool is kept with the payload.
\<close>

theorem read_pool_unobservable:
  assumes "pool_faithful L"
  shows "parse_rows L opts payload p =
    map_sum id (\<lambda>q. q\<lparr>pool_buffers := pool_buffers p + (if raw_init_read_pool L payload then 1 else 0)\<rparr>)
      (parse_rows (L\<lparr>pool_init := (\<lambda>_. False)\<rparr>) opts payload p)"
proof -
  let ?L' = "L\<lparr>pool_init := (\<lambda>_. False)\<rparr>"
  let ?b = "pool_buffers p + (if raw_init_read_pool L payload then 1 else 0)"
  have faithful': "pool_faithful ?L'" using assms by (simp add: pool_faithful_def)
  note plain = raw_pool_read_plain [OF assms] raw_pool_read_plain [OF faithful']
  have no_pool: "\<not> raw_init_read_pool ?L' payload" by (simp add: raw_init_read_pool_def)
  have p: "(if raw_init_read_pool L payload then p\<lparr>pool_buffers := pool_buffers p + 1\<rparr> else p) =
      p\<lparr>pool_buffers := ?b\<rparr>"
    by simp
  have finish: "set_scalar_rows (q\<lparr>pool_buffers := ?b\<rparr>) = map_sum id (\<lambda>q. q\<lparr>pool_buffers := ?b\<rparr>) (set_scalar_rows q)" for q
    by (cases "check_row_uniformity (prows q)") (simp_all add: set_scalar_rows_def)
  show ?thesis
  proof (cases "read_json L payload")
    case None
    have "bind_result (map_sum id (\<lambda>q. q\<lparr>pool_buffers := ?b\<rparr>) r) set_scalar_rows =
        map_sum id (\<lambda>q. q\<lparr>pool_buffers := ?b\<rparr>) (bind_result r set_scalar_rows)" for r
      by (cases r) (simp_all add: finish)
    then show ?thesis
      using None no_pool
        parse_lines_pool [OF assms faithful', where k = 0 and ls = "text_lines payload"
            and p = p and b = ?b and alc' = False and n' = 1 and n = 1 and opts = opts]
      unfolding parse_rows_def Let_def p
      by (simp add: plain)
  next
    case (Some d)
    then show ?thesis
      using no_pool finish [of "p\<lparr>docs := docs p @ [d], prows := prows p @ collect_rows d\<rparr>"]
      unfolding parse_rows_def Let_def p
      by (simp add: plain pool_buffers_commute)
  qed
qed

theorem read_pool_unobservable_witness:
  "parse_rows sample_lib default_options ''x'' new_payload =
     map_sum id (\<lambda>q. q\<lparr>pool_buffers := 1\<rparr>)
       (parse_rows (sample_lib\<lparr>pool_init := (\<lambda>_. False)\<rparr>) default_options ''x'' new_payload)"
proof -
  have "pool_faithful sample_lib" by (simp add: pool_faithful_def sample_lib_def)
  from read_pool_unobservable [OF this, of default_options "''x''" new_payload]
  show ?thesis by (simp add: raw_init_read_pool_def new_payload_def) (simp add: sample_lib_def)
qed

end
