(* ===== verification/Explode.thy ===== *)
theory Explode
  imports Payload
begin

text \<open>
  Multi-level explode (\<^verbatim>\<open>raw_json.cpp\<close>, lines 169 to 245): descending a dotted path, fanning
  out over arrays, and merging every leaf with the envelopes passed on the way. The
  specification is the list of leaves with their envelopes and, per merged row, a lookup
  that asks the leaf first and then the envelopes from the deepest to the shallowest.
\<close>

section \<open>Merging\<close>

record envelope =
  eobject :: json
  descended_key :: string

text \<open>The loop over the members of \<open>object\<close>; \<open>merged\<close> holds the members written so far.\<close>

fun add_object_fields ::
    "(string \<times> json) list \<Rightarrow> (string \<times> json) list \<Rightarrow> string option \<Rightarrow> (string \<times> json) list" where
  "add_object_fields merged [] skip = merged"
| "add_object_fields merged ((key, v) # ms) skip =
     (if skip = Some key then add_object_fields merged ms skip
      else if map_of merged key \<noteq> None then add_object_fields merged ms skip
      else add_object_fields (merged @ [(key, v)]) ms skip)"

text \<open>\<open>envelopes\<close> is the stack, shallowest first.\<close>

definition emit_merged_row :: "json \<Rightarrow> envelope list \<Rightarrow> json" where
  "emit_merged_row leaf envelopes =
     (if \<not> is_obj leaf then leaf
      else JObj (fold (\<lambda>e merged. add_object_fields merged (members (eobject e)) (Some (descended_key e)))
                   (rev envelopes) (add_object_fields [] (members leaf) None)))"

fun explode_into :: "json \<Rightarrow> string list \<Rightarrow> envelope list \<Rightarrow> json list" where
  "explode_into node [] envelopes = [emit_merged_row node envelopes]"
| "explode_into node (segment # path) envelopes =
     (if \<not> is_obj node then [emit_merged_row node envelopes]
      else case obj_get node segment of
        None \<Rightarrow> [emit_merged_row node envelopes]
      | Some child \<Rightarrow>
          (let envelopes = envelopes @ [\<lparr>eobject = node, descended_key = segment\<rparr>] in
           if is_arr child
           then concat (map (\<lambda>element. explode_into element path envelopes) (elements child))
           else explode_into child path envelopes))"

text \<open>The loop over the rows in \<^verbatim>\<open>RawPayload::Explode\<close>.\<close>

definition explode_rows :: "json list \<Rightarrow> string list \<Rightarrow> json list" where
  "explode_rows rows path = concat (map (\<lambda>row. explode_into row path []) rows)"

section \<open>Specification\<close>

text \<open>The leaves the path reaches, each with the envelopes above it, shallowest first.\<close>

fun leaves :: "json \<Rightarrow> string list \<Rightarrow> (json \<times> envelope list) list" where
  "leaves node [] = [(node, [])]"
| "leaves node (segment # path) =
     (case obj_get node segment of
        None \<Rightarrow> [(node, [])]
      | Some child \<Rightarrow>
          map (\<lambda>(leaf, es). (leaf, \<lparr>eobject = node, descended_key = segment\<rparr> # es))
            (concat (map (\<lambda>element. leaves element path) (collect_rows child))))"

text \<open>A field of a merged row: the leaf's, else the deepest envelope's that has it.\<close>

fun first_field :: "envelope list \<Rightarrow> string \<Rightarrow> json option" where
  "first_field [] key = None"
| "first_field (e # es) key =
     (if key \<noteq> descended_key e \<and> obj_get (eobject e) key \<noteq> None
      then obj_get (eobject e) key else first_field es key)"

definition merged_field :: "json \<Rightarrow> envelope list \<Rightarrow> string \<Rightarrow> json option" where
  "merged_field leaf envelopes key =
     (case obj_get leaf key of Some v \<Rightarrow> Some v | None \<Rightarrow> first_field (rev envelopes) key)"

section \<open>The code meets the specification\<close>

lemma obj_get_no_obj [simp]: "\<not> is_obj v \<Longrightarrow> obj_get v k = None"
  by (cases v) (simp_all add: obj_get_def)

lemma explode_into_leaves:
  "explode_into node path envelopes =
     map (\<lambda>(leaf, es). emit_merged_row leaf (envelopes @ es)) (leaves node path)"
proof (induction node path envelopes rule: explode_into.induct)
  case (2 node segment path envelopes)
  show ?case
  proof (cases "obj_get node segment")
    case None
    then show ?thesis by simp
  next
    case (Some child)
    then have obj: "is_obj node" by (cases "is_obj node") simp_all
    let ?es = "envelopes @ [\<lparr>eobject = node, descended_key = segment\<rparr>]"
    show ?thesis
    proof (cases "is_arr child")
      case True
      with Some obj 2(1) [OF _ Some refl True]
      show ?thesis
        by (simp add: collect_rows_def map_concat comp_def case_prod_beta cong: map_cong)
    next
      case False
      with Some obj 2(2) [OF _ Some refl False] show ?thesis
        by (simp add: collect_rows_def comp_def case_prod_beta)
    qed
  qed
qed simp

lemma add_object_fields_get:
  "map_of (add_object_fields merged ms skip) key =
     (case map_of merged key of
        Some v \<Rightarrow> Some v
      | None \<Rightarrow> if skip = Some key then None else map_of ms key)"
proof (induction merged ms skip rule: add_object_fields.induct)
  case (2 merged k v ms skip)
  then show ?case by (auto simp: map_add_def split: option.splits)
qed (simp split: option.splits)

lemma add_object_fields_distinct:
  "distinct (map fst merged) \<Longrightarrow> distinct (map fst (add_object_fields merged ms skip))"
proof (induction merged ms skip rule: add_object_fields.induct)
  case (2 merged k v ms skip)
  then show ?case by (simp add: map_of_eq_None_iff)
qed simp

lemma fold_envelopes_get:
  "map_of (fold (\<lambda>e merged. add_object_fields merged (members (eobject e)) (Some (descended_key e)))
       es merged) key =
     (case map_of merged key of Some v \<Rightarrow> Some v | None \<Rightarrow> first_field es key)"
  by (induction es arbitrary: merged)
    (auto simp: add_object_fields_get obj_get_def split: option.splits)

lemma fold_envelopes_distinct:
  "distinct (map fst merged) \<Longrightarrow>
     distinct (map fst (fold (\<lambda>e merged. add_object_fields merged (members (eobject e))
       (Some (descended_key e))) es merged))"
  by (induction es arbitrary: merged) (simp_all add: add_object_fields_distinct)

lemma emit_merged_row_get:
  "is_obj leaf \<Longrightarrow> obj_get (emit_merged_row leaf es) key = merged_field leaf es key"
  by (simp add: emit_merged_row_def obj_get_def merged_field_def fold_envelopes_get
      add_object_fields_get split: option.splits)

lemma emit_merged_row_distinct:
  "is_obj leaf \<Longrightarrow> distinct (map fst (members (emit_merged_row leaf es)))"
  by (simp add: emit_merged_row_def fold_envelopes_distinct add_object_fields_distinct)

section \<open>Properties\<close>

text \<open>
  Property C37: exploding makes exactly one row per leaf of the path, in order. A leaf that
  is no object is passed through as it is. The row of a leaf that is an object is an object with
  each key once, whose fields are the leaf's, then those of the deepest envelope that has the key
  and was not descended through it, and no others.
\<close>

theorem explode_is_leaf_merge:
  "explode_rows rows path =
     map (\<lambda>(leaf, es). emit_merged_row leaf es) (concat (map (\<lambda>row. leaves row path) rows)) \<and>
   (\<forall>leaf es. if is_obj leaf
      then is_obj (emit_merged_row leaf es) \<and> distinct (map fst (members (emit_merged_row leaf es))) \<and>
        (\<forall>key. obj_get (emit_merged_row leaf es) key = merged_field leaf es key)
      else emit_merged_row leaf es = leaf)"
proof (intro conjI allI)
  show "explode_rows rows path =
     map (\<lambda>(leaf, es). emit_merged_row leaf es) (concat (map (\<lambda>row. leaves row path) rows))"
    by (simp add: explode_rows_def explode_into_leaves map_concat comp_def)
  show "if is_obj leaf
      then is_obj (emit_merged_row leaf es) \<and> distinct (map fst (members (emit_merged_row leaf es))) \<and>
        (\<forall>key. obj_get (emit_merged_row leaf es) key = merged_field leaf es key)
      else emit_merged_row leaf es = leaf" for leaf es
    using emit_merged_row_get [of leaf es] emit_merged_row_distinct [of leaf es]
    by (cases "is_obj leaf") (simp_all, simp_all add: emit_merged_row_def)
qed

end
