(* ===== verification/Otlp.thy ===== *)
theory Otlp
  imports Explode
begin

text \<open>
  OTLP normalization (\<^verbatim>\<open>raw_json.cpp\<close>, lines 247 to 591): identifiers from base64 to hex,
  \<^verbatim>\<open>AnyValue\<close> unwrapping, attribute lists spread into their parent, and the payload
  pipeline that uses it (\<^verbatim>\<open>Explode\<close>, \<^verbatim>\<open>Process\<close>, \<^verbatim>\<open>RawPayloadFinalize\<close>). Mutable
  documents are values here: the code rebuilds an object or an array in place, and what it
  returns for a value is the value's new contents.
\<close>

unbundle bit_operations_syntax

section \<open>Hex and base64\<close>

definition in_range :: "nat \<Rightarrow> nat \<Rightarrow> char \<Rightarrow> bool" where
  "in_range a b c \<longleftrightarrow> a \<le> of_char c \<and> of_char c \<le> b"

definition otlp_is_hex :: "string \<Rightarrow> bool" where
  "otlp_is_hex s \<longleftrightarrow> list_all (\<lambda>c. in_range 48 57 c \<or> in_range 97 102 c \<or> in_range 65 70 c) s"

text \<open>The lambda \<^verbatim>\<open>decode\<close>; no value stands for its -1.\<close>

definition b64_value :: "char \<Rightarrow> nat option" where
  "b64_value c =
     (if in_range 65 90 c then Some (of_char c - 65)
      else if in_range 97 122 c then Some (of_char c - 97 + 26)
      else if in_range 48 57 c then Some (of_char c - 48 + 52)
      else if c = CHR ''+'' then Some 62
      else if c = CHR ''/'' then Some 63
      else None)"

text \<open>Character \<open>j\<close> of a group of four; \<open>at_end\<close> says whether it is the last group.\<close>

definition b64_char :: "nat \<Rightarrow> bool \<Rightarrow> nat \<Rightarrow> char \<Rightarrow> nat option" where
  "b64_char padding at_end j c =
     (if c = CHR ''='' then (if \<not> at_end \<or> j < 4 - padding then None else Some 0)
      else b64_value c)"

fun b64_groups :: "nat \<Rightarrow> string \<Rightarrow> string option" where
  "b64_groups padding (c0 # c1 # c2 # c3 # rest) =
     (let at_end = (rest = []) in
      case (b64_char padding at_end 0 c0, b64_char padding at_end 1 c1,
            b64_char padding at_end 2 c2, b64_char padding at_end 3 c3) of
        (Some v0, Some v1, Some v2, Some v3) \<Rightarrow>
          map_option (\<lambda>out.
            [char_of (push_bit 2 v0 OR drop_bit 4 v1)]
            @ (if \<not> at_end \<or> padding < 2 then [char_of (push_bit 4 v1 OR drop_bit 2 v2)] else [])
            @ (if \<not> at_end \<or> padding < 1 then [char_of (push_bit 6 v2 OR v3)] else [])
            @ out) (b64_groups padding rest)
      | _ \<Rightarrow> None)"
| "b64_groups padding [] = Some []"
| "b64_groups padding _ = None"

definition otlp_base64_decode :: "string \<Rightarrow> string option" where
  "otlp_base64_decode s =
     (let len = length s in
      if len = 0 \<or> len mod 4 \<noteq> 0 then None
      else
        let padding = (if s ! (len - 1) = CHR ''='' then (if s ! (len - 2) = CHR ''='' then 2 else 1)
                       else 0) in
        b64_groups padding s)"

definition hex_digits :: string where
  "hex_digits = ''0123456789abcdef''"

definition hex_of :: "string \<Rightarrow> string" where
  "hex_of bytes =
     concat (map (\<lambda>b. [hex_digits ! (drop_bit 4 (of_char b) AND 15), hex_digits ! (of_char b AND 15)])
       bytes)"

definition otlp_id_width :: "string \<Rightarrow> nat" where
  "otlp_id_width key =
     (if key = ''traceId'' then 16
      else if key = ''spanId'' \<or> key = ''parentSpanId'' then 8
      else 0)"

section \<open>Normalizing values\<close>

definition otlp_is_key_value_array :: "json \<Rightarrow> bool" where
  "otlp_is_key_value_array v \<longleftrightarrow>
     is_arr v \<and> elements v \<noteq> [] \<and>
     list_all (\<lambda>e. is_obj e \<and> obj_get e ''key'' \<noteq> None) (elements v)"

definition has_suffix :: "string \<Rightarrow> string \<Rightarrow> bool" where
  "has_suffix key suffix \<longleftrightarrow>
     length suffix \<le> length key \<and> drop (length key - length suffix) key = suffix"

text \<open>The part of \<^verbatim>\<open>OtlpNormalizeValue\<close> for a value that is no container.\<close>

definition otlp_normalize_scalar :: "lib \<Rightarrow> json \<Rightarrow> string \<Rightarrow> json" where
  "otlp_normalize_scalar L v key =
     (case v of
        JStr s \<Rightarrow>
          (let id_width = otlp_id_width key in
           if id_width \<noteq> 0 then
             (if length s = id_width * 2 \<and> otlp_is_hex s then v
              else case otlp_base64_decode s of
                Some decoded \<Rightarrow> if length decoded = id_width then JStr (hex_of decoded) else v
              | None \<Rightarrow> v)
           else if has_suffix key ''UnixNano'' then
             (case try_bigint L s of Some parsed \<Rightarrow> JSint parsed | None \<Rightarrow> v)
           else v)
      | _ \<Rightarrow> v)"

definition add_member :: "(string \<times> json) list \<Rightarrow> string \<Rightarrow> json \<Rightarrow> (string \<times> json) list" where
  "add_member object key v = (if map_of object key \<noteq> None then object else object @ [(key, v)])"

lemma obj_get_size: "obj_get v k = Some w \<Longrightarrow> size w < size v"
  by (cases v) (auto simp: obj_get_def dest!: map_of_SomeD size_member)

abbreviation values_size :: "json list \<Rightarrow> nat" where
  "values_size \<equiv> size_list size"

abbreviation members_size :: "(string \<times> json) list \<Rightarrow> nat" where
  "members_size \<equiv> size_list (size_prod (\<lambda>_. 0) size)"

lemma elements_size: "otlp_is_key_value_array v \<Longrightarrow> values_size (elements v) < size v"
  by (cases v) (simp_all add: otlp_is_key_value_array_def)

text \<open>
  \<open>otlp_unwrap\<close> returns None where \<^verbatim>\<open>OtlpUnwrapAnyValue\<close> returns a null pointer. Its call
  of \<^verbatim>\<open>OtlpNormalizeValue\<close> passes an empty key and nesting level 0. \<open>normalize_members\<close>
  is the loop over the collected members, \<open>spread_attributes\<close> the loop over the elements
  of an attribute list, \<open>convert_elements\<close> the same for a bare list.
\<close>

function (sequential) otlp_normalize_value :: "lib \<Rightarrow> json \<Rightarrow> string \<Rightarrow> nat \<Rightarrow> json"
  and otlp_unwrap :: "lib \<Rightarrow> json \<Rightarrow> json option"
  and normalize_members ::
    "lib \<Rightarrow> (string \<times> json) list \<Rightarrow> nat \<Rightarrow> (string \<times> json) list \<Rightarrow> (string \<times> json) list"
  and spread_attributes ::
    "lib \<Rightarrow> json list \<Rightarrow> nat \<Rightarrow> (string \<times> json) list \<Rightarrow> (string \<times> json) list"
  and convert_elements :: "lib \<Rightarrow> json list \<Rightarrow> nat \<Rightarrow> (string \<times> json) list"
  and normalize_elements :: "lib \<Rightarrow> json list \<Rightarrow> nat \<Rightarrow> json list" where
  "otlp_normalize_value L v key depth =
     (if depth > RAW_MAX_NESTING then v
      else case v of
        JObj ms \<Rightarrow>
          (case otlp_unwrap L (JObj ms) of
             Some unwrapped \<Rightarrow> unwrapped
           | None \<Rightarrow> JObj (normalize_members L ms (depth + 1) []))
      | JArr vs \<Rightarrow>
          if otlp_is_key_value_array v then JObj (convert_elements L vs depth)
          else JArr (normalize_elements L vs depth)
      | _ \<Rightarrow> otlp_normalize_scalar L v key)"
| "otlp_unwrap L (JObj [(name, inner)]) =
     (if name \<in> {''stringValue'', ''boolValue'', ''doubleValue'', ''bytesValue''} then Some inner
      else if name = ''intValue'' then
        (case inner of
           JStr s \<Rightarrow>
             (case try_bigint L s of Some parsed \<Rightarrow> Some (JSint parsed) | None \<Rightarrow> Some inner)
         | _ \<Rightarrow> Some inner)
      else if name \<in> {''arrayValue'', ''kvlistValue''} then
        (case obj_get inner ''values'' of
           None \<Rightarrow> None
         | Some values \<Rightarrow> Some (otlp_normalize_value L values [] 0))
      else None)"
| "otlp_unwrap L _ = None"
| "normalize_members L [] depth object = object"
| "normalize_members L ((key, v) # ms) depth object =
     (if key = ''attributes'' \<and> otlp_is_key_value_array v
      then normalize_members L ms depth (spread_attributes L (elements v) depth object)
      else normalize_members L ms depth
             (add_member object key (otlp_normalize_value L v key (depth + 1))))"
| "spread_attributes L [] depth object = object"
| "spread_attributes L (e # es) depth object =
     spread_attributes L es depth
       (case (obj_get e ''key'', obj_get e ''value'') of
          (Some (JStr name), Some v) \<Rightarrow>
            add_member object name (otlp_normalize_value L v [] (depth + 1))
        | _ \<Rightarrow> object)"
| "convert_elements L [] depth = []"
| "convert_elements L (e # es) depth =
     (case (obj_get e ''key'', obj_get e ''value'') of
        (Some (JStr name), Some inner) \<Rightarrow> [(name, otlp_normalize_value L inner [] (depth + 1))]
      | _ \<Rightarrow> []) @ convert_elements L es depth"
| "normalize_elements L [] depth = []"
| "normalize_elements L (e # es) depth =
     otlp_normalize_value L e [] (depth + 1) # normalize_elements L es depth"
  by pat_completeness auto

termination
proof (relation "measure (\<lambda>x. case x of
      Inl (Inl (_, v, _)) \<Rightarrow> 2 * size v + 1
    | Inl (Inr (Inl (_, v))) \<Rightarrow> 2 * size v
    | Inl (Inr (Inr (_, ms, _))) \<Rightarrow> 2 * members_size ms + 1
    | Inr (Inl (_, es, _)) \<Rightarrow> 2 * values_size es + 1
    | Inr (Inr (Inl (_, es, _))) \<Rightarrow> 2 * values_size es + 1
    | Inr (Inr (Inr (_, es, _))) \<Rightarrow> 2 * values_size es + 1)", simp_all del: One_nat_def, goal_cases)
  case (1 name inner w)
  from obj_get_size [OF this(4)] show ?case by simp
next
  case (2 v ms)
  from elements_size [OF 2] show ?case by simp
next
  case (3 e es x y x2 x6 v)
  then have "obj_get e ''value'' = Some v" by simp
  from obj_get_size [OF this] show ?case by simp
next
  case (4 e es x y x2 x6 v)
  then have "obj_get e ''value'' = Some v" by simp
  from obj_get_size [OF this] show ?case by simp
qed

declare otlp_normalize_value.simps(1) [simp del]

section \<open>The payload pipeline\<close>

text \<open>
  The loop of \<^verbatim>\<open>RawPayload::Explode\<close> calls \<^verbatim>\<open>OtlpNormalizeValue\<close> for its effect on the
  row and drops what it returns. The effect is the returned value unless the row itself is
  replaced by another value (an unwrapped \<^verbatim>\<open>AnyValue\<close> or a converted list): a wrapped
  scalar leaves the row as it is; None stands for the rows whose nodes are relinked into the
  dropped value, which the model does not describe.
\<close>

definition otlp_normalize_row :: "lib \<Rightarrow> json \<Rightarrow> json option" where
  "otlp_normalize_row L row =
     (if otlp_is_key_value_array row then None
      else case otlp_unwrap L row of
        None \<Rightarrow> Some (otlp_normalize_value L row [] 0)
      | Some _ \<Rightarrow>
          if obj_get row ''arrayValue'' = None \<and> obj_get row ''kvlistValue'' = None
          then Some row else None)"

definition normalized_rows :: "lib \<Rightarrow> json list \<Rightarrow> json list option" where
  "normalized_rows L rows =
     (let normal = map (otlp_normalize_row L) rows in
      if None \<in> set normal then None else Some (map the normal))"

text \<open>\<^verbatim>\<open>RawPayload::Explode\<close>; None as above.\<close>

definition raw_payload_explode :: "lib \<Rightarrow> string list \<Rightarrow> raw_payload \<Rightarrow> raw_payload result option" where
  "raw_payload_explode L path p =
     (let out_rows = explode_rows (prows p) path in
      map_option
        (\<lambda>out_rows.
           if \<not> imut_copy L out_rows
           then Inl (InternalError ''RawDuck: failed to materialize exploded payload'')
           else set_scalar_rows (p\<lparr>docs := [JArr out_rows], prows := collect_rows (JArr out_rows)\<rparr>))
        (if otlp_semantics p then normalized_rows L out_rows else Some out_rows))"

text \<open>What \<^verbatim>\<open>Parse\<close> and \<^verbatim>\<open>RawPayloadFinalize\<close> do when an explode path is set.\<close>

definition explode_if_asked :: "lib \<Rightarrow> parse_options \<Rightarrow> raw_payload \<Rightarrow> raw_payload result option" where
  "explode_if_asked L opts p =
     (if explode_path opts = [] then Some (Inr p)
      else raw_payload_explode L (explode_path opts) (p\<lparr>otlp_semantics := otlp opts\<rparr>))"

definition raw_payload_parse ::
    "lib \<Rightarrow> parse_options \<Rightarrow> string \<Rightarrow> raw_payload \<Rightarrow> raw_payload result option" where
  "raw_payload_parse L opts payload p =
     (case parse_rows L opts payload p of
        Inl e \<Rightarrow> Some (Inl e)
      | Inr p \<Rightarrow> explode_if_asked L opts p)"

section \<open>Facts about identifiers\<close>

text \<open>Standard base64 with padding, the encoding protobuf's JSON conversion produces.\<close>

definition b64_digit :: "nat \<Rightarrow> char" where
  "b64_digit n = ''ABCDEFGHIJKLMNOPQRSTUVWXYZabcdefghijklmnopqrstuvwxyz0123456789+/'' ! n"

fun b64_encode :: "string \<Rightarrow> string" where
  "b64_encode (a # b # c # rest) =
     [b64_digit (drop_bit 2 (of_char a)),
      b64_digit (push_bit 4 (take_bit 2 (of_char a)) OR drop_bit 4 (of_char b)),
      b64_digit (push_bit 2 (take_bit 4 (of_char b)) OR drop_bit 6 (of_char c)),
      b64_digit (take_bit 6 (of_char c))] @ b64_encode rest"
| "b64_encode [a, b] =
     [b64_digit (drop_bit 2 (of_char a)),
      b64_digit (push_bit 4 (take_bit 2 (of_char a)) OR drop_bit 4 (of_char b)),
      b64_digit (push_bit 2 (take_bit 4 (of_char b))), CHR ''='']"
| "b64_encode [a] =
     [b64_digit (drop_bit 2 (of_char a)), b64_digit (push_bit 4 (take_bit 2 (of_char a))),
      CHR ''='', CHR ''='']"
| "b64_encode [] = []"

lemma b64_digits:
  "\<forall>n \<in> set [0..<64]. b64_value (b64_digit n) = Some n \<and> b64_digit n \<noteq> CHR ''=''"
  by code_simp

lemma b64_digit_value [simp]: "n < 64 \<Longrightarrow> b64_value (b64_digit n) = Some n"
  "n < 64 \<Longrightarrow> b64_digit n \<noteq> CHR ''=''"
  using b64_digits by (simp_all del: upt_conv_Cons)

lemma char_of_byte: "take_bit 8 n = of_char c \<Longrightarrow> char_of n = c"
  by (metis char_of_char char_of_take_bit_eq order_refl)

lemma byte_bits: "bit (of_char c :: nat) n \<Longrightarrow> n < 8"
proof -
  assume b: "bit (of_char c :: nat) n"
  have "take_bit 8 (of_char c :: nat) = of_char c" by (simp add: take_bit_eq_mod)
  with b show "n < 8" by (metis bit_take_bit_iff)
qed

text \<open>The three bytes of a group come back from its four digits.\<close>

lemma group_bytes:
  fixes a b c :: char
  defines "v1 \<equiv> push_bit 4 (take_bit 2 (of_char a)) OR drop_bit 4 (of_char b :: nat)"
    and "v2 \<equiv> push_bit 2 (take_bit 4 (of_char b)) OR drop_bit 6 (of_char c :: nat)"
  shows "char_of (push_bit 2 (drop_bit 2 (of_char a)) OR drop_bit 4 v1) = a"
    and "char_of (push_bit 4 v1 OR drop_bit 2 v2) = b"
    and "char_of (push_bit 6 v2 OR take_bit 6 (of_char c)) = c"
proof -
  have suc2: "2 \<le> n \<Longrightarrow> Suc (Suc (n - 2)) = n" for n :: nat by simp
  show "char_of (push_bit 2 (drop_bit 2 (of_char a)) OR drop_bit 4 v1) = a"
    unfolding v1_def
    by (rule char_of_byte, rule bit_eqI) (auto simp: bit_simps suc2 dest: byte_bits, metis not_le suc2)
  show "char_of (push_bit 4 v1 OR drop_bit 2 v2) = b"
    unfolding v1_def v2_def
    by (rule char_of_byte, rule bit_eqI)
      (auto simp: bit_simps dest: byte_bits, metis le_add_diff_inverse not_le)
  show "char_of (push_bit 6 v2 OR take_bit 6 (of_char c)) = c"
    unfolding v2_def
    by (rule char_of_byte, rule bit_eqI) (auto simp: bit_simps dest: byte_bits)
qed

lemma or_less_64: "a < 64 \<Longrightarrow> b < 64 \<Longrightarrow> (a OR b :: nat) < 64"
  using take_bit_nat_eq_self_iff [of 6 a] take_bit_nat_eq_self_iff [of 6 b]
    take_bit_nat_eq_self_iff [of 6 "a OR b"] by simp

lemma digit_bounds [simp]:
  "drop_bit 2 (of_char a :: nat) < 64"
  "push_bit 4 (take_bit 2 (of_char a)) OR drop_bit 4 (of_char b :: nat) < 64"
  "push_bit 2 (take_bit 4 (of_char b)) OR drop_bit 6 (of_char c :: nat) < 64"
  "push_bit 4 (take_bit 2 (of_char a :: nat)) < 64"
  "push_bit 2 (take_bit 4 (of_char b :: nat)) < 64"
  "take_bit 6 (of_char c :: nat) < 64"
proof -
  have 1: "drop_bit k (of_char x :: nat) < 64" if "2 \<le> k" for x k
  proof -
    have "(2::nat) ^ 2 \<le> 2 ^ k" using that by (intro power_increasing) simp_all
    then have "of_char x div (2::nat) ^ k \<le> of_char x div 2 ^ 2" by (intro div_le_mono2) simp_all
    also have "\<dots> < 64"
      using nat_of_char_less_256 [of x] by (intro less_mult_imp_div_less) simp
    finally show ?thesis by (simp add: drop_bit_eq_div)
  qed
  have "take_bit 2 (of_char a :: nat) < 4" using take_bit_nat_less_exp [of 2 "of_char a"] by simp
  then have 2: "push_bit 4 (take_bit 2 (of_char a :: nat)) < 64" by (simp add: push_bit_eq_mult)
  have "take_bit 4 (of_char b :: nat) < 16" using take_bit_nat_less_exp [of 4 "of_char b"] by simp
  then have 3: "push_bit 2 (take_bit 4 (of_char b :: nat)) < 64" by (simp add: push_bit_eq_mult)
  show "drop_bit 2 (of_char a :: nat) < 64" by (rule 1) simp
  show "push_bit 4 (take_bit 2 (of_char a :: nat)) < 64" by (rule 2)
  show "push_bit 2 (take_bit 4 (of_char b :: nat)) < 64" by (rule 3)
  show "push_bit 4 (take_bit 2 (of_char a)) OR drop_bit 4 (of_char b :: nat) < 64"
    by (intro or_less_64 1 2) simp
  show "push_bit 2 (take_bit 4 (of_char b)) OR drop_bit 6 (of_char c :: nat) < 64"
    by (intro or_less_64 1 3) simp
  show "take_bit 6 (of_char c :: nat) < 64" using take_bit_nat_less_exp [of 6 "of_char c"] by simp
qed

definition padding_of :: "string \<Rightarrow> nat" where
  "padding_of bytes = (3 - length bytes mod 3) mod 3"

lemma b64_encode_shape:
  "length (b64_encode bytes) = 4 * ((length bytes + 2) div 3) \<and>
   (bytes \<noteq> [] \<longrightarrow>
     (let s = b64_encode bytes; len = length s in
      padding_of bytes =
        (if s ! (len - 1) = CHR ''='' then (if s ! (len - 2) = CHR ''='' then 2 else 1) else 0)))"
proof (induction bytes rule: b64_encode.induct)
  case (1 a b c rest)
  show ?case
  proof (cases "rest = []")
    case False
    have pad: "padding_of (a # b # c # rest) = padding_of rest" by (simp add: padding_of_def)
    have "length (b64_encode rest) \<ge> 4" using 1 False by (cases rest) auto
    then have "(p @ b64_encode rest) ! (length (p @ b64_encode rest) - k) =
        b64_encode rest ! (length (b64_encode rest) - k)" if "k \<le> 2" for k and p :: string
    proof -
      have "length (p @ b64_encode rest) - k = length p + (length (b64_encode rest) - k)"
        using that \<open>length (b64_encode rest) \<ge> 4\<close> by simp
      then show ?thesis by (simp only: nth_append_length_plus)
    qed
    note nth = this [of 1] this [of 2]
    have "(length (a # b # c # rest) + 2) div 3 = Suc ((length rest + 2) div 3)" by simp
    with nth show ?thesis
      using 1 False by (simp only: pad b64_encode.simps Let_def) simp
  qed (simp add: padding_of_def)
qed (simp_all add: padding_of_def)

lemma b64_groups_step:
  assumes "b64_value c0 = Some v0" "b64_value c1 = Some v1" "b64_value c2 = Some v2"
    "b64_value c3 = Some v3" "CHR ''='' \<notin> {c0, c1, c2, c3}" "rest = [] \<longrightarrow> padding = 0"
  shows "b64_groups padding (c0 # c1 # c2 # c3 # rest) =
    map_option (\<lambda>out. char_of (push_bit 2 v0 OR drop_bit 4 v1) #
      char_of (push_bit 4 v1 OR drop_bit 2 v2) # char_of (push_bit 6 v2 OR v3) # out)
      (b64_groups padding rest)"
  using assms by (auto simp: b64_char_def Let_def)

lemma zero_char: "of_char (char_of (0::nat)) = (0::nat)" by (simp add: of_char_of)

lemma b64_groups_encode: "b64_groups (padding_of bytes) (b64_encode bytes) = Some bytes"
proof (induction bytes rule: b64_encode.induct)
  case (1 a b c rest)
  have pad: "padding_of (a # b # c # rest) = padding_of rest" by (simp add: padding_of_def)
  have "b64_encode rest = [] \<longrightarrow> padding_of rest = 0"
    by (cases rest rule: b64_encode.cases) (simp_all add: padding_of_def)
  from b64_groups_step [OF b64_digit_value(1) b64_digit_value(1) b64_digit_value(1)
      b64_digit_value(1) _ this, OF digit_bounds(1) [of a] digit_bounds(2) [of a b]
      digit_bounds(3) [of b c] digit_bounds(6) [of c]]
  show ?case
    unfolding pad b64_encode.simps append_Cons append_Nil 1 group_bytes
    by (simp add: b64_digit_value(2) [symmetric] b64_digit_value(2) [THEN not_sym])
next
  case (2 a b)
  have "char_of (push_bit 2 (drop_bit 2 (of_char a)) OR
      drop_bit 4 (push_bit 4 (take_bit 2 (of_char a)) OR drop_bit 4 (of_char b :: nat))) = a"
    by (rule group_bytes(1))
  moreover have "char_of (push_bit 4 (push_bit 4 (take_bit 2 (of_char a)) OR drop_bit 4 (of_char b :: nat)) OR
      drop_bit 2 (push_bit 2 (take_bit 4 (of_char b)))) = b"
    using group_bytes(2) [of a b "char_of (0::nat)"] by (simp only: zero_char drop_bit_of_0 or.right_neutral)
  ultimately show ?case
    unfolding b64_encode.simps by (simp add: padding_of_def b64_char_def del: drop_bit_or push_bit_or)
next
  case (3 a)
  have "char_of (push_bit 2 (drop_bit 2 (of_char a)) OR
      drop_bit 4 (push_bit 4 (take_bit 2 (of_char a :: nat)))) = a"
    using group_bytes(1) [of a "char_of (0::nat)"] by (simp only: zero_char drop_bit_of_0 or.right_neutral)
  then show ?case by (simp add: padding_of_def b64_char_def)
qed (simp add: padding_of_def)

lemma b64_encode_Nil [simp]: "b64_encode bytes = [] \<longleftrightarrow> bytes = []"
  by (cases bytes rule: b64_encode.cases) simp_all

lemma base64_roundtrip: "bytes \<noteq> [] \<Longrightarrow> otlp_base64_decode (b64_encode bytes) = Some bytes"
proof -
  assume b: "bytes \<noteq> []"
  then have "length (b64_encode bytes) mod 4 = 0" "b64_encode bytes \<noteq> []"
    using b64_encode_shape [of bytes] by simp_all
  moreover have "padding_of bytes =
      (let s = b64_encode bytes; len = length s in
        (if s ! (len - 1) = CHR ''='' then (if s ! (len - 2) = CHR ''='' then 2 else 1) else 0))"
    using b64_encode_shape [of bytes] b by (simp add: Let_def)
  ultimately show ?thesis
    using b64_groups_encode [of bytes] by (simp only: otlp_base64_decode_def Let_def length_0_conv) simp
qed

lemma hex_digits_hex: "\<forall>n \<in> set [0..<16]. otlp_is_hex [hex_digits ! n]"
  by code_simp

lemma hex_of_hex: "otlp_is_hex (hex_of bytes) \<and> length (hex_of bytes) = 2 * length bytes"
proof -
  have nibble: "otlp_is_hex [hex_digits ! (n AND 15)]" for n
  proof -
    have "n AND 15 = take_bit 4 n" by (simp add: take_bit_eq_mask mask_eq_exp_minus_1)
    then have "n AND 15 < 16" using take_bit_nat_less_exp [of 4 n] by simp
    then have "n AND 15 \<in> set [0..<16]" by (simp del: upt_conv_Cons)
    with hex_digits_hex show ?thesis by blast
  qed
  then show ?thesis
    by (induction bytes) (simp_all add: hex_of_def otlp_is_hex_def)
qed

lemma otlp_id_width_cases: "otlp_id_width key \<in> {0, 8, 16}"
  by (simp add: otlp_id_width_def)

section \<open>Facts about attributes\<close>

text \<open>
  The specification of \<^verbatim>\<open>OtlpNormalizeObject\<close>: the fields in the order they are met, the
  attributes of a list in its place, and of each key the first field.
\<close>

definition attribute_field :: "lib \<Rightarrow> nat \<Rightarrow> json \<Rightarrow> (string \<times> json) list" where
  "attribute_field L depth e =
     (case obj_get e ''key'' of
        Some (JStr name) \<Rightarrow>
          (case obj_get e ''value'' of
             Some v \<Rightarrow> [(name, otlp_normalize_value L v [] (depth + 1))]
           | None \<Rightarrow> [])
      | _ \<Rightarrow> [])"

definition member_fields :: "lib \<Rightarrow> nat \<Rightarrow> string \<times> json \<Rightarrow> (string \<times> json) list" where
  "member_fields L depth m =
     (if fst m = ''attributes'' \<and> otlp_is_key_value_array (snd m)
      then concat (map (attribute_field L depth) (elements (snd m)))
      else [(fst m, otlp_normalize_value L (snd m) (fst m) (depth + 1))])"

definition object_fields :: "lib \<Rightarrow> nat \<Rightarrow> (string \<times> json) list \<Rightarrow> (string \<times> json) list" where
  "object_fields L depth ms = concat (map (member_fields L depth) ms)"

definition add_members :: "(string \<times> json) list \<Rightarrow> (string \<times> json) list \<Rightarrow> (string \<times> json) list" where
  "add_members object fs = fold (\<lambda>(k, v) o'. add_member o' k v) fs object"

lemma add_members_simps [simp]:
  "add_members object [] = object"
  "add_members object ((k, v) # fs) = add_members (add_member object k v) fs"
  "add_members object (fs @ gs) = add_members (add_members object fs) gs"
  by (simp_all add: add_members_def)

lemma spread_is_add:
  "spread_attributes L es depth object =
     add_members object (concat (map (attribute_field L depth) es))"
proof (induction es arbitrary: object)
  case (Cons e es)
  then show ?case
    by (simp add: attribute_field_def split: option.splits json.splits)
qed simp

lemma normalize_members_is_add:
  "normalize_members L ms depth object = add_members object (object_fields L depth ms)"
proof (induction ms arbitrary: object)
  case (Cons m ms)
  then show ?case
    by (cases m) (simp add: object_fields_def member_fields_def spread_is_add)
qed (simp add: object_fields_def)

lemma add_members_get:
  "map_of (add_members object fs) k =
     (case map_of object k of Some v \<Rightarrow> Some v | None \<Rightarrow> map_of fs k)"
proof (induction fs arbitrary: object)
  case (Cons f fs)
  then show ?case
    by (cases f) (auto simp: add_member_def map_add_def split: option.splits)
qed (simp split: option.splits)

lemma add_members_distinct:
  "distinct (map fst object) \<Longrightarrow> distinct (map fst (add_members object fs))"
proof (induction fs arbitrary: object)
  case (Cons f fs)
  then show ?case by (cases f) (auto simp: add_member_def map_of_eq_None_iff)
qed simp

lemma normalize_object:
  "depth \<le> RAW_MAX_NESTING \<Longrightarrow> otlp_unwrap L (JObj ms) = None \<Longrightarrow>
     otlp_normalize_value L (JObj ms) key depth = JObj (add_members [] (object_fields L (depth + 1) ms))"
  by (simp add: otlp_normalize_value.simps(1) [of L "JObj ms"] normalize_members_is_add)

section \<open>Properties\<close>

text \<open>
  An object that is no \<^verbatim>\<open>AnyValue\<close> wrapper normalizes to an object with each
  key once; a key has the value it has first among the normalized members and the spread
  attributes, in document order.
\<close>

theorem normalized_object_fields:
  assumes "depth \<le> RAW_MAX_NESTING" "otlp_unwrap L (JObj ms) = None"
  shows "\<exists>out. otlp_normalize_value L (JObj ms) key depth = JObj out \<and> distinct (map fst out) \<and>
    (\<forall>k. map_of out k = map_of (object_fields L (depth + 1) ms) k)"
  unfolding normalize_object [OF assms] by (simp add: add_members_get add_members_distinct)

theorem normalized_object_fields_witness:
  "\<exists>out. otlp_normalize_value sample_lib
       (JObj [(''name'', JStr ''a''),
              (''attributes'', JArr [JObj [(''key'', JStr ''n''),
                 (''value'', JObj [(''intValue'', JStr ''12'')])]])]) [] 0 = JObj out \<and>
     map_of out ''n'' = Some (JSint 12)"
proof -
  let ?ms = "[(''name'', JStr ''a''),
      (''attributes'', JArr [JObj [(''key'', JStr ''n''),
         (''value'', JObj [(''intValue'', JStr ''12'')])]])]"
  have "otlp_unwrap sample_lib (JObj ?ms) = None" by simp
  from normalized_object_fields [OF _ this, of 0 "[]"]
  obtain out where out: "otlp_normalize_value sample_lib (JObj ?ms) [] 0 = JObj out"
      "\<forall>k. map_of out k = map_of (object_fields sample_lib 1 ?ms) k"
    by auto
  moreover have "map_of (object_fields sample_lib 1 ?ms) ''n'' = Some (JSint 12)" by code_simp
  ultimately show ?thesis by auto
qed

text \<open>
  An attribute met before a field of the same name wins over it, so a real
  field after the attribute list is dropped (the comment in the code promises the opposite).
\<close>

theorem attribute_shadows_later_field:
  assumes "depth \<le> RAW_MAX_NESTING" "otlp_is_key_value_array attrs"
    and "map_of (concat (map (attribute_field L (depth + 1)) (elements attrs))) k = Some v"
  shows "\<exists>out. otlp_normalize_value L (JObj [(''attributes'', attrs), (k, real_field)]) key depth = JObj out \<and>
    map_of out k = Some v"
proof -
  have "otlp_unwrap L (JObj [(''attributes'', attrs), (k, real_field)]) = None" by simp
  then show ?thesis
    using assms normalize_object [OF assms(1)]
    by (simp add: add_members_get object_fields_def member_fields_def map_add_def)
qed

theorem attribute_shadows_later_field_witness:
  "\<exists>out. otlp_normalize_value sample_lib
     (JObj [(''attributes'', JArr [JObj [(''key'', JStr ''status''), (''value'', JBool True)]]),
            (''status'', JBool False)]) [] 0 = JObj out \<and> map_of out ''status'' = Some (JBool True)"
proof (rule attribute_shadows_later_field)
  let ?attrs = "JArr [JObj [(''key'', JStr ''status''), (''value'', JBool True)]]"
  show "map_of (concat (map (attribute_field sample_lib (0 + 1)) (elements ?attrs))) ''status'' =
      Some (JBool True)"
    by code_simp
  show "otlp_is_key_value_array ?attrs" by code_simp
qed simp

text \<open>
  Property C38: identifiers have one form. A trace or span id in base64, as protobuf writes
  it, becomes its lowercase hex digits, and an id in that form stays as it is.
\<close>

theorem otlp_ids_become_hex:
  assumes "length bytes = otlp_id_width key" "bytes \<noteq> []" "depth \<le> RAW_MAX_NESTING"
  shows "otlp_normalize_value L (JStr (b64_encode bytes)) key depth = JStr (hex_of bytes) \<and>
    otlp_normalize_value L (JStr (hex_of bytes)) key depth = JStr (hex_of bytes)"
proof -
  have w: "otlp_id_width key \<noteq> 0" using assms(1,2) by (metis length_0_conv)
  then have "length bytes \<in> {8, 16}" using assms(1) otlp_id_width_cases [of key] by auto
  then have "length (b64_encode bytes) \<noteq> otlp_id_width key * 2"
    using b64_encode_shape [of bytes] assms(1) by auto
  moreover have "otlp_is_hex (hex_of bytes)" "length (hex_of bytes) = otlp_id_width key * 2"
    using hex_of_hex [of bytes] assms(1) by simp_all
  ultimately show ?thesis
    using assms w base64_roundtrip [OF assms(2)]
    by (simp add: otlp_normalize_value.simps(1) otlp_normalize_scalar_def Let_def)
qed

theorem otlp_ids_become_hex_witness:
  "otlp_normalize_value sample_lib (JStr ''YWJjZGVmZ2g='') ''spanId'' 0 = JStr ''6162636465666768''"
proof -
  have "length ''abcdefgh'' = otlp_id_width ''spanId''" by (simp add: otlp_id_width_def)
  from otlp_ids_become_hex [OF this, of 0 sample_lib]
  have "otlp_normalize_value sample_lib (JStr (b64_encode ''abcdefgh'')) ''spanId'' 0 =
      JStr (hex_of ''abcdefgh'')" by simp
  then show ?thesis by code_simp
qed

end
