(* ===== verification/Process.thy ===== *)
theory Process
  imports Otlp Flatten
begin

text \<open>
  A processed payload (\<^verbatim>\<open>raw_json.cpp\<close>, lines 562 to 591): the two ways to build one, from
  one text (\<^verbatim>\<open>RawParsedPayload::Process\<close>) and document by document
  (\<^verbatim>\<open>RawPayloadAddDocument\<close>, \<^verbatim>\<open>RawPayloadFinalize\<close>). None is the undescribed case of
  \<open>otlp_normalize_row\<close>.
\<close>

record parsed_payload =
  payload :: raw_payload
  proot :: raw_node
  pcolumns :: "raw_column list"

definition infer_and_flatten :: "lib \<Rightarrow> raw_payload \<Rightarrow> parsed_payload result" where
  "infer_and_flatten L p =
     (let root = infer_schema L (prows p) in
      bind_result (flatten_schema root (scalar_rows p))
        (\<lambda>cols. Inr \<lparr>payload = p, proot = root, pcolumns = cols\<rparr>))"

definition process_payload :: "lib \<Rightarrow> parse_options \<Rightarrow> string \<Rightarrow> parsed_payload result option" where
  "process_payload L opts text =
     map_option (\<lambda>r. bind_result r (infer_and_flatten L)) (raw_payload_parse L opts text new_payload)"

definition raw_payload_finalize ::
    "lib \<Rightarrow> parse_options \<Rightarrow> raw_payload \<Rightarrow> parsed_payload result option" where
  "raw_payload_finalize L opts p =
     (case set_scalar_rows p of
        Inl e \<Rightarrow> Some (Inl e)
      | Inr p \<Rightarrow>
          map_option (\<lambda>r. bind_result r (infer_and_flatten L)) (explode_if_asked L opts p))"

text \<open>The sink's loop over the texts of a batch.\<close>

fun add_documents :: "lib \<Rightarrow> bool \<Rightarrow> string list \<Rightarrow> raw_payload \<Rightarrow> raw_payload result" where
  "add_documents L ignore [] p = Inr p"
| "add_documents L ignore (text # texts) p =
     bind_result (raw_payload_add_document L p text ignore) (add_documents L ignore texts)"

lemma add_documents_ignore:
  "add_documents L True texts p =
     Inr (p\<lparr>docs := docs p @ good_lines L texts,
            prows := prows p @ concat (map collect_rows (good_lines L texts)),
            parse_errors := parse_errors p + length (bad_lines L texts)\<rparr>)"
proof (induction texts arbitrary: p)
  case (Cons t texts)
  then show ?case
    by (cases "read_json L t") (simp_all add: raw_payload_add_document_def bad_lines_def)
qed (simp add: bad_lines_def)

lemma add_documents_strict:
  "add_documents L False texts p =
     (if bad_lines L texts = []
      then Inr (p\<lparr>docs := docs p @ good_lines L texts,
                  prows := prows p @ concat (map collect_rows (good_lines L texts))\<rparr>)
      else Inl (InvalidInput ''payload is not valid JSON''))"
proof (induction texts arbitrary: p)
  case (Cons t texts)
  then show ?case
    by (cases "read_json L t") (simp_all add: raw_payload_add_document_def bad_lines_def)
qed (simp add: bad_lines_def)

lemma collect_rows_no_array: "\<not> is_arr v \<Longrightarrow> collect_rows v = [v]"
  by (simp add: collect_rows_def)

lemma good_lines_set: "v \<in> set (good_lines L ls) \<Longrightarrow> \<exists>l \<in> set ls. read_json L l = Some v"
  by (induction ls) (auto split: option.splits)

lemma concat_collect_rows:
  "(\<And>v. v \<in> set vs \<Longrightarrow> \<not> is_arr v) \<Longrightarrow> concat (map collect_rows vs) = vs"
  by (induction vs) (simp_all add: collect_rows_no_array)

text \<open>The buffer of a read pool is kept with the payload and never looked at.\<close>

definition with_buffers :: "nat \<Rightarrow> raw_payload \<Rightarrow> raw_payload" where
  "with_buffers b p = p\<lparr>pool_buffers := b\<rparr>"

lemma with_buffers_fields [simp]:
  "prows (with_buffers b p) = prows p" "docs (with_buffers b p) = docs p"
  "scalar_rows (with_buffers b p) = scalar_rows p" "parse_errors (with_buffers b p) = parse_errors p"
  by (simp_all add: with_buffers_def)

lemma set_scalar_rows_buffers:
  "set_scalar_rows (with_buffers b p) = map_sum id (with_buffers b) (set_scalar_rows p)"
  by (cases "check_row_uniformity (prows p)") (simp_all add: set_scalar_rows_def with_buffers_def)

lemma explode_if_asked_buffers:
  "explode_if_asked L opts (with_buffers b p) = map_option (map_sum id (with_buffers b)) (explode_if_asked L opts p)"
proof (cases "explode_path opts = []")
  case False
  have one: "set_scalar_rows ((with_buffers b p)\<lparr>otlp_semantics := o', docs := d, prows := r\<rparr>) =
      map_sum id (with_buffers b) (set_scalar_rows (p\<lparr>otlp_semantics := o', docs := d, prows := r\<rparr>))" for o' d r
  proof -
    have "(with_buffers b p)\<lparr>otlp_semantics := o', docs := d, prows := r\<rparr> =
        with_buffers b (p\<lparr>otlp_semantics := o', docs := d, prows := r\<rparr>)"
      by (cases p) (simp add: with_buffers_def)
    then show ?thesis by (simp only: set_scalar_rows_buffers)
  qed
  show ?thesis
    using False
    by (simp add: explode_if_asked_def raw_payload_explode_def Let_def one option.map_comp comp_def
        if_distrib [of "map_sum id (with_buffers b)"] cong: if_cong)
qed (simp add: explode_if_asked_def)

section \<open>Properties\<close>

text \<open>
  Property C39: the two ingest paths agree. When a newline-delimited text is not one document and
  no line of it is an array, adding its non-blank lines one by one and finalizing gives what
  parsing the whole text gives: the same rows, schema and columns, the same count of skipped
  lines, and an error exactly when the other path has one. Whether the text gets a read pool makes
  no difference beyond the pool's buffer, kept with the payload, as long as a pool fails only for
  want of space.
\<close>

theorem document_path_agrees:
  assumes "pool_faithful L" "read_json L text = None"
    and "\<forall>l \<in> set (data_lines text). \<forall>v. read_json L l = Some v \<longrightarrow> \<not> is_arr v"
  shows "case add_documents L (ignore_errors opts) (data_lines text) new_payload of
      Inr p \<Rightarrow> process_payload L opts text =
        map_option (map_sum id (\<lambda>q. q\<lparr>payload := with_buffers (if raw_init_read_pool L text then 1 else 0) (payload q)\<rparr>))
          (raw_payload_finalize L opts p)
    | Inl e \<Rightarrow> \<exists>e'. process_payload L opts text = Some (Inl e')"
proof -
  let ?g = "good_lines L (data_lines text)" and ?b = "if raw_init_read_pool L text then 1 else (0 :: nat)"
  have "concat (map collect_rows ?g) = ?g"
    using assms(3) good_lines_set by (intro concat_collect_rows) blast
  moreover have start: "(if raw_init_read_pool L text then new_payload\<lparr>pool_buffers := pool_buffers new_payload + 1\<rparr>
      else new_payload) = with_buffers ?b new_payload"
    by (simp add: new_payload_def with_buffers_def)
  have "parse_rows L opts text new_payload =
      bind_result (parse_lines L opts (raw_init_read_pool L text) 1 0 (text_lines text) (with_buffers ?b new_payload))
        set_scalar_rows"
    unfolding parse_rows_def Let_def start using assms(2) by (simp add: raw_pool_read_plain [OF assms(1)])
  moreover have "(with_buffers ?b new_payload)\<lparr>docs := d, prows := r, parse_errors := e\<rparr> =
      with_buffers ?b (new_payload\<lparr>docs := d, prows := r, parse_errors := e\<rparr>)"
    "(with_buffers ?b new_payload)\<lparr>docs := d, prows := r\<rparr> = with_buffers ?b (new_payload\<lparr>docs := d, prows := r\<rparr>)" for d r e
    by (simp_all add: with_buffers_def)
  moreover have infer: "infer_and_flatten L (with_buffers b q) =
      map_sum id (\<lambda>q. q\<lparr>payload := with_buffers b (payload q)\<rparr>) (infer_and_flatten L q)" for b q
    by (cases "flatten_schema (infer_schema L (prows q)) (scalar_rows q)") (simp_all add: infer_and_flatten_def Let_def)
  moreover have finish: "map_option (\<lambda>r. bind_result r (infer_and_flatten L)) (explode_if_asked L opts (with_buffers b q)) =
      map_option (map_sum id (\<lambda>q. q\<lparr>payload := with_buffers b (payload q)\<rparr>))
        (map_option (\<lambda>r. bind_result r (infer_and_flatten L)) (explode_if_asked L opts q))" for b q
    unfolding explode_if_asked_buffers option.map_comp comp_def
  proof (cases "explode_if_asked L opts q")
    case (Some r)
    then show "map_option (\<lambda>x. bind_result (map_sum id (with_buffers b) x) (infer_and_flatten L)) (explode_if_asked L opts q) =
        map_option (\<lambda>x. map_sum id (\<lambda>q. q\<lparr>payload := with_buffers b (payload q)\<rparr>) (bind_result x (infer_and_flatten L)))
          (explode_if_asked L opts q)"
      by (cases r) (simp_all add: infer)
  qed simp
  ultimately show ?thesis
    using parse_lines_ignore [OF assms(1), where opts = opts and alc = "raw_init_read_pool L text" and reads = 1 and k = 0
        and ls = "text_lines text" and p = "with_buffers ?b new_payload"]
      parse_lines_strict [OF assms(1), where opts = opts and alc = "raw_init_read_pool L text" and reads = 1 and k = 0
        and ls = "text_lines text" and p = "with_buffers ?b new_payload"]
    by (cases "ignore_errors opts")
      (auto simp: add_documents_ignore add_documents_strict raw_payload_finalize_def set_scalar_rows_buffers
        process_payload_def raw_payload_parse_def data_lines_def [symmetric] Let_def
        split: sum.splits)
qed

definition line_lib :: lib where
  "line_lib = sample_lib\<lparr>read_json := (\<lambda>s. if length s = 1 then Some (JStr s) else None),
     pool_read := (\<lambda>_ _. None)\<rparr>"

theorem document_path_agrees_witness:
  "process_payload line_lib default_options (''a'' @ [newline] @ ''b'') =
     map_option (map_sum id (\<lambda>q. q\<lparr>payload := with_buffers 1 (payload q)\<rparr>))
       (raw_payload_finalize line_lib default_options
          (new_payload\<lparr>docs := [JStr ''a'', JStr ''b''], prows := [JStr ''a'', JStr ''b'']\<rparr>))"
proof -
  let ?t = "''a'' @ [newline] @ ''b''"
  have faithful: "pool_faithful line_lib" by (simp add: pool_faithful_def line_lib_def)
  have pool: "raw_init_read_pool line_lib ?t" by (simp add: raw_init_read_pool_def line_lib_def sample_lib_def)
  have no_doc: "read_json line_lib ?t = None" by (simp add: line_lib_def)
  have no_arr: "\<forall>l \<in> set (data_lines ?t). \<forall>v. read_json line_lib l = Some v \<longrightarrow> \<not> is_arr v"
    by (auto simp: line_lib_def)
  have lines: "data_lines ?t = [''a'', ''b'']" by code_simp
  have "ignore_errors default_options = False" by (simp add: default_options_def)
  then have "add_documents line_lib (ignore_errors default_options) (data_lines ?t) new_payload =
      Inr (new_payload\<lparr>docs := [JStr ''a'', JStr ''b''], prows := [JStr ''a'', JStr ''b'']\<rparr>)"
    by (simp only: lines) (simp add: line_lib_def raw_payload_add_document_def new_payload_def collect_rows_def)
  with document_path_agrees [OF faithful no_doc no_arr, of default_options] pool
  show ?thesis by simp
qed

end
