(* ===== verification/Widen.thy ===== *)
theory Widen
  imports Lossless Process
begin

text \<open>
  Type widening between a table column and incoming data, the shape hash and the merging of
  payloads (\<^verbatim>\<open>raw_ingest.cpp\<close>, lines 212 to 318). The main fact: a column keeps the
  accepted values after any widening \<^verbatim>\<open>JoinColumnTypes\<close> makes.
\<close>

unbundle bit_operations_syntax

section \<open>JoinColumnTypes\<close>

fun is_integer_type :: "logical_type \<Rightarrow> bool" where
  "is_integer_type t \<longleftrightarrow>
     ltype_id t \<in> {ID_TINYINT, ID_SMALLINT, ID_INTEGER, ID_BIGINT, ID_HUGEINT, ID_UTINYINT,
                   ID_USMALLINT, ID_UINTEGER}"

fun is_plain_scalar :: "logical_type \<Rightarrow> bool" where
  "is_plain_scalar t \<longleftrightarrow>
     (if is_raw_json_type t then False
      else ltype_id t \<in> {ID_BOOLEAN, ID_FLOAT, ID_DOUBLE, ID_DATE, ID_TIMESTAMP, ID_VARCHAR}
           \<or> is_integer_type t)"

definition is_numeric_type :: "logical_type \<Rightarrow> bool" where
  "is_numeric_type t \<longleftrightarrow> is_integer_type t \<or> ltype_id t = ID_FLOAT \<or> ltype_id t = ID_DOUBLE"

definition is_temporal_type :: "logical_type \<Rightarrow> bool" where
  "is_temporal_type t \<longleftrightarrow> ltype_id t = ID_DATE \<or> ltype_id t = ID_TIMESTAMP"

fun is_list_type :: "logical_type \<Rightarrow> bool" where
  "is_list_type (TList _) \<longleftrightarrow> True"
| "is_list_type _ \<longleftrightarrow> False"

text \<open>The tail of \<^verbatim>\<open>JoinColumnTypes\<close>, for two types of which not both are lists.\<close>

definition join_flat_types :: "logical_type \<Rightarrow> logical_type \<Rightarrow> logical_type" where
  "join_flat_types existing incoming =
     (if is_list_type existing \<or> is_list_type incoming then
        (if \<not> is_plain_scalar existing \<and> \<not> is_plain_scalar incoming then existing else TJson)
      else if \<not> is_plain_scalar existing then existing
      else if is_integer_type existing \<and> is_integer_type incoming
      then (if ltype_id existing = ID_HUGEINT then existing else incoming)
      else if is_numeric_type existing \<and> is_numeric_type incoming then TDouble
      else if is_temporal_type existing \<and> is_temporal_type incoming then TTimestamp
      else TVarchar)"

fun join_column_types :: "logical_type \<Rightarrow> logical_type \<Rightarrow> logical_type" where
  "join_column_types (TList a) (TList b) =
     (if TList a = TList b then TList a else TList (join_column_types a b))"
| "join_column_types existing incoming =
     (if existing = incoming then existing
      else if is_raw_json_type existing \<or> is_raw_json_type incoming then TJson
      else join_flat_types existing incoming)"

lemma join_column_types_idem [simp]: "join_column_types t t = t"
  by (induction t) simp_all

text \<open>A second join with the same incoming type changes nothing: widening settles.\<close>

lemma join_flat_absorbs:
  "(\<forall>a b. \<not> (s = TList a \<and> t = TList b)) \<Longrightarrow>
     join_column_types (join_column_types s t) t = join_column_types s t"
  by (cases s; cases t)
    (simp_all add: join_flat_types_def is_numeric_type_def is_temporal_type_def)

lemma join_column_types_absorbs:
  "join_column_types (join_column_types s t) t = join_column_types s t"
proof (induction s t rule: join_column_types.induct)
  case (1 a b)
  then show ?case by (cases "a = b") simp_all
qed (rule join_flat_absorbs, simp)+

section \<open>Values survive widening\<close>

text \<open>The widenings that keep every value of a type the payload inferred.\<close>

inductive fits :: "logical_type \<Rightarrow> logical_type \<Rightarrow> bool" where
  same: "fits t t"
| json: "fits t TJson"
| varchar: "fits t TVarchar"
| double: "fits TBigint TDouble"
| timestamp: "fits TDate TTimestamp"
| list: "fits a b \<Longrightarrow> fits (TList a) (TList b)"

lemma fits_keeps: "fits t T \<Longrightarrow> keeps L t v \<Longrightarrow> keeps L T v"
proof (induction arbitrary: v rule: fits.induct)
  case double
  then show ?case by (cases v) auto
next
  case timestamp
  then show ?case by (cases v) (auto simp: date_only_def split: option.splits)
next
  case (list a b)
  then show ?case by (auto simp: list_all_iff)
qed (simp_all only: keeps_text)

text \<open>The types the payload infers.\<close>

fun inferred_type :: "logical_type \<Rightarrow> bool" where
  "inferred_type (TList t) \<longleftrightarrow> inferred_type t"
| "inferred_type t \<longleftrightarrow> t \<in> {TBoolean, TBigint, TDouble, TDate, TTimestamp, TVarchar, TJson}"

lemma inferred_supported: "inferred_type t \<longleftrightarrow> raw_fill_supported t"
  by (induction t) simp_all

lemma join_fits_flat:
  "\<forall>a b. \<not> (e = TList a \<and> t = TList b) \<Longrightarrow> raw_fill_supported t \<Longrightarrow>
     raw_fill_supported (join_column_types e t) \<Longrightarrow> fits t (join_column_types e t)"
  by (cases t; cases e)
    (simp_all add: join_flat_types_def is_numeric_type_def is_temporal_type_def fits.intros)

lemma join_fits:
  "raw_fill_supported t \<Longrightarrow> raw_fill_supported (join_column_types e t) \<Longrightarrow> fits t (join_column_types e t)"
proof (induction t arbitrary: e)
  case (TList b)
  then show ?case
  proof (cases "\<exists>a. e = TList a")
    case True
    then obtain a where e: "e = TList a" by blast
    with TList show ?thesis by (cases "a = b") (auto intro: fits.intros)
  next
    case False
    with TList.prems show ?thesis by (intro join_fits_flat) auto
  qed
qed (rule join_fits_flat; simp)+

lemma widened_keeps:
  assumes "accepts L s d v" "raw_fill_supported (join_column_types existing (schema_type s))"
  shows "keeps L (join_column_types existing (schema_type s)) v"
  by (rule fits_keeps [OF join_fits [OF schema_type_supported assms(2)] accepts_keeps [OF assms(1)]])

section \<open>Shape hash\<close>

text \<open>The FNV-1a loops; None when the checked cast of a character fails.\<close>

fun hash_chars :: "lib \<Rightarrow> 64 word \<Rightarrow> string \<Rightarrow> 64 word option" where
  "hash_chars L shape [] = Some shape"
| "hash_chars L shape (c # cs) =
     (case char_u64 L (lower_char c) of
        None \<Rightarrow> None
      | Some n \<Rightarrow> hash_chars L ((shape XOR n) * 0x100000001b3) cs)"

fun hash_columns :: "lib \<Rightarrow> 64 word \<Rightarrow> raw_column list \<Rightarrow> 64 word option" where
  "hash_columns L shape [] = Some shape"
| "hash_columns L shape (column # columns) =
     (case hash_chars L shape (cname column) of
        None \<Rightarrow> None
      | Some shape \<Rightarrow>
          hash_columns L ((shape XOR id_u64 L (ltype_id (ctype column))) * 0x100000001b3) columns)"

definition hash_payload_shape :: "lib \<Rightarrow> raw_column list \<Rightarrow> 64 word result" where
  "hash_payload_shape L columns =
     (case hash_columns L 0xcbf29ce484222325 columns of
        None \<Rightarrow> Inl (InvalidInput ''Type INT8 cannot be cast to UINT64'')
      | Some shape \<Rightarrow> Inr shape)"

text \<open>The hash sees names up to case and type ids only.\<close>

lemma hash_chars_lower: "lower a = lower b \<Longrightarrow> hash_chars L shape a = hash_chars L shape b"
proof (induction a arbitrary: shape b)
  case Nil
  then show ?case by (cases b) simp_all
next
  case (Cons c a)
  then obtain d b' where "b = d # b'" "lower_char c = lower_char d" "lower a = lower b'"
    by (cases b) auto
  with Cons.IH show ?case by (auto split: option.splits)
qed

lemma hash_columns_ids:
  "map (\<lambda>c. (lower (cname c), ltype_id (ctype c))) cs = map (\<lambda>c. (lower (cname c), ltype_id (ctype c))) ds \<Longrightarrow>
     hash_columns L shape cs = hash_columns L shape ds"
proof (induction cs arbitrary: shape ds)
  case (Cons c cs)
  then obtain d ds' where ds: "ds = d # ds'" "lower (cname c) = lower (cname d)"
      "ltype_id (ctype c) = ltype_id (ctype d)"
      "map (\<lambda>c. (lower (cname c), ltype_id (ctype c))) cs = map (\<lambda>c. (lower (cname c), ltype_id (ctype c))) ds'"
    by (cases ds) auto
  then show ?case
    using Cons.IH [OF ds(4)] hash_chars_lower [OF ds(2)] by (auto split: option.splits)
qed simp

section \<open>Merging payloads\<close>

text \<open>\<^verbatim>\<open>MergeParsedPayloads\<close>: the new \<open>into\<close> and what is left of \<open>from\<close>.\<close>

definition merge_parsed_payloads ::
    "parsed_payload \<Rightarrow> parsed_payload \<Rightarrow> parsed_payload \<times> parsed_payload" where
  "merge_parsed_payloads into frm =
     (into\<lparr>payload := (payload into)
        \<lparr>prows := prows (payload into) @ prows (payload frm),
         docs := docs (payload into) @ docs (payload frm),
         pool_buffers := pool_buffers (payload into) + pool_buffers (payload frm)\<rparr>\<rparr>,
      frm\<lparr>payload := (payload frm)
        \<lparr>docs := [], prows := [], parse_errors := 0, pool_buffers := 0\<rparr>\<rparr>)"

section \<open>Properties\<close>

text \<open>
  No value is lost to widening. A value the payload's schema accepts has the cell the type
  \<^verbatim>\<open>JoinColumnTypes\<close> gives the column makes of it, whatever type the column had, as long as
  that type can be filled directly; only a value that cannot be written has none.
\<close>

theorem widened_column_keeps:
  assumes "accepts L s d v" "raw_fill_supported (join_column_types existing (schema_type s))"
  defines "T \<equiv> join_column_types existing (schema_type s)"
  shows "case fill_value L T (Some v) of
      Inl e \<Rightarrow> unwritable L T v \<and> e = serialize_error
    | Inr c \<Rightarrow> \<not> unwritable L T v \<and> holds L T v c"
  using fill_value_result [of L T v] keeps_holds [OF widened_keeps [OF assms(1,2)]]
  by (auto simp: T_def split: sum.splits if_splits)

theorem widened_column_keeps_witness:
  "\<exists>c. fill_value sample_lib (TList TDouble) (Some (JArr [JUint 1])) = Inr c \<and>
       holds sample_lib (TList TDouble) (JArr [JUint 1]) c"
proof -
  have "accepts sample_lib (SArray (SScalar SK_BIGINT)) 0 (JArr [JUint 1])"
    by (simp add: accepts_def schemas.below_def val_schema.simps(1) RAW_MAX_NESTING_def int64_max_def)
  from widened_column_keeps [OF this, of "TList TDouble"]
  show ?thesis
    by (simp add: join_flat_types_def is_numeric_type_def is_temporal_type_def
        del: fill_value.simps holds.simps split: sum.splits)
qed

definition null_tree :: "string \<Rightarrow> raw_node" where
  "null_tree k = RawNode NC_OBJECT SK_UNSET [(k, new_node)] [(k, 0)] None"

lemma merge_null_row:
  "merge_value L new_node (JObj [(k, JNull)]) = null_tree k"
  "merge_value L (null_tree k) (JObj [(k, JNull)]) = null_tree k"
  by (simp_all add: merge_value_def merge_value_internal.simps(1) null_tree_def new_node_def
      RAW_MAX_NESTING_def get_or_create_child_def find_child_def append_child_def
      RAW_CHILD_LINEAR_SCAN_LIMIT_def)

lemma infer_null_rows: "infer_schema L (replicate (Suc n) (JObj [(k, JNull)])) = null_tree k"
proof -
  have "fold (\<lambda>row root. merge_value L root row) (replicate n (JObj [(k, JNull)])) (null_tree k) =
      null_tree k"
    by (induction n) (simp_all add: merge_null_row)
  then show ?thesis by (simp add: infer_schema_def merge_null_row)
qed

text \<open>
  A column that is null in every row of a payload still widens the table: its
  inferred type is VARCHAR, so a scalar column becomes VARCHAR and a list column JSON, though
  the payload has no value to hold.
\<close>

theorem null_only_column_widens:
  "flatten_schema (infer_schema L (replicate (Suc n) (JObj [(k, JNull)]))) False =
     Inr [\<lparr>cname = k, cpath = [k], ctype = TVarchar, cnode = [0]\<rparr>] \<and>
   join_column_types TBigint TVarchar = TVarchar \<and>
   join_column_types (TList TBigint) TVarchar = TJson"
  unfolding infer_null_rows
  by (simp add: null_tree_def new_node_def flatten_schema_def join_name_def flattens_def
      node_to_type.simps RAW_MAX_COLUMNS_def fresh_name_same join_flat_types_def is_numeric_type_def
      is_temporal_type_def)

end
