(* ===== verification/Table.thy ===== *)
theory Table
  imports Widen
begin

text \<open>
  The target table of an ingest (\<^verbatim>\<open>raw_ingest.cpp\<close>: \<^verbatim>\<open>ResolveAppendLayout\<close>,
  \<^verbatim>\<open>ComputeDelta\<close>, \<^verbatim>\<open>CreateNative\<close>, \<^verbatim>\<open>EvolveNative\<close>, \<^verbatim>\<open>AppendNative\<close>). A table is
  its columns and its rows of cells; every DDL statement gives it a new storage token, as
  DuckDB gives it a new storage object. The specification of an append is the row of cells
  each payload row becomes, independent of batches and of layout.
\<close>

section \<open>Tables\<close>

type_synonym tcolumn = "string \<times> logical_type"

record table =
  tcols :: "tcolumn list"
  trows :: "cell list list"
  ttoken :: nat
  tgenerated :: bool
  tindexes :: bool
  tconstraints :: bool

text \<open>Lookups by name ignore case, in the catalog and in \<^verbatim>\<open>case_insensitive_map_t\<close>.\<close>

fun column_index :: "tcolumn list \<Rightarrow> string \<Rightarrow> nat option" where
  "column_index [] name = None"
| "column_index ((n, t) # cols) name =
     (if lower n = lower name then Some 0 else map_option Suc (column_index cols name))"

definition column_exists :: "tcolumn list \<Rightarrow> string \<Rightarrow> bool" where
  "column_exists cols name \<longleftrightarrow> column_index cols name \<noteq> None"

definition column_type :: "tcolumn list \<Rightarrow> string \<Rightarrow> logical_type" where
  "column_type cols name = snd (cols ! the (column_index cols name))"

lemma column_index_Some:
  "column_index cols name = Some i \<Longrightarrow> i < length cols \<and> lower (fst (cols ! i)) = lower name"
proof (induction cols name arbitrary: i rule: column_index.induct)
  case (2 n t cols name)
  then show ?case by (cases "lower n = lower name") auto
qed simp

lemma column_index_None:
  "column_index cols name = None \<longleftrightarrow> lower name \<notin> (lower \<circ> fst) ` set cols"
  by (induction cols name rule: column_index.induct) auto

lemma column_index_nth:
  "distinct (map (lower \<circ> fst) cols) \<Longrightarrow> i < length cols \<Longrightarrow> lower (fst (cols ! i)) = lower name \<Longrightarrow>
     column_index cols name = Some i"
proof (induction cols name arbitrary: i rule: column_index.induct)
  case (2 n t cols name)
  show ?case
  proof (cases i)
    case 0
    with 2(4) show ?thesis by simp
  next
    case (Suc j)
    then have j: "j < length cols" "lower (fst (cols ! j)) = lower name" using 2(3,4) by simp_all
    then have "lower name \<in> (lower \<circ> fst) ` set cols" by (metis comp_apply image_eqI nth_mem)
    with 2(2) have "lower n \<noteq> lower name" by (auto simp: rev_image_eqI)
    with 2(1) [OF this _ j] 2(2) Suc show ?thesis by simp
  qed
qed simp

lemma column_index_append:
  "column_index (cols @ cols2) name =
     (case column_index cols name of
        Some i \<Rightarrow> Some i
      | None \<Rightarrow> map_option (\<lambda>i. length cols + i) (column_index cols2 name))"
proof (induction cols)
  case Nil
  then show ?case by (cases "column_index cols2 name") simp_all
next
  case (Cons c cols)
  then show ?case
    by (cases c; cases "column_index cols2 name") (auto split: option.splits)
qed

section \<open>DDL\<close>

text \<open>\<^verbatim>\<open>Catalog::Alter\<close> with \<^verbatim>\<open>AddColumnInfo\<close>: old rows read NULL. \<open>fresh\<close> is the new token.\<close>

definition alter_add_column :: "tcolumn \<Rightarrow> nat \<Rightarrow> table \<Rightarrow> table" where
  "alter_add_column c fresh t =
     t\<lparr>tcols := tcols t @ [c], trows := map (\<lambda>row. row @ [CNull]) (trows t), ttoken := fresh\<rparr>"

text \<open>
  \<^verbatim>\<open>Catalog::Alter\<close> with \<^verbatim>\<open>ChangeColumnTypeInfo\<close>: every cell of the column through the
  expression, which is \<^verbatim>\<open>to_json\<close> for a widening to JSON and a cast otherwise.
\<close>

definition convert_cell :: "lib \<Rightarrow> logical_type \<Rightarrow> logical_type \<Rightarrow> cell \<Rightarrow> cell result" where
  "convert_cell L old new c =
     (if is_raw_json_type new \<and> \<not> is_raw_json_type old then Inr (to_json_cell L c)
      else case cast_cell L old new c of
        None \<Rightarrow> Inl (CastError ''conversion failed'')
      | Some c' \<Rightarrow> Inr c')"

definition alter_change_type :: "lib \<Rightarrow> nat \<Rightarrow> logical_type \<Rightarrow> nat \<Rightarrow> table \<Rightarrow> table result" where
  "alter_change_type L i new fresh t =
     bind_result
       (map_result (\<lambda>row. bind_result (convert_cell L (snd (tcols t ! i)) new (row ! i))
                            (\<lambda>c. Inr (row[i := c]))) (trows t))
       (\<lambda>rows. Inr (t\<lparr>tcols := (tcols t)[i := (fst (tcols t ! i), new)], trows := rows,
                       ttoken := fresh\<rparr>))"

definition create_native :: "raw_column list \<Rightarrow> nat \<Rightarrow> table" where
  "create_native columns fresh =
     \<lparr>tcols = map (\<lambda>c. (cname c, ctype c)) columns, trows = [], ttoken = fresh,
      tgenerated = False, tindexes = False, tconstraints = False\<rparr>"

section \<open>Evolution\<close>

text \<open>The columns to add and whether a type must widen.\<close>

definition compute_delta :: "tcolumn list \<Rightarrow> raw_column list \<Rightarrow> tcolumn list \<times> bool" where
  "compute_delta existing columns =
     (map (\<lambda>c. (cname c, ctype c)) (filter (\<lambda>c. \<not> column_exists existing (cname c)) columns),
      list_ex (\<lambda>c. column_exists existing (cname c) \<and>
        join_column_types (column_type existing (cname c)) (ctype c) \<noteq> column_type existing (cname c))
        columns)"

text \<open>
  The loop of \<^verbatim>\<open>EvolveNative\<close>. \<open>existing\<close> is the list it looks names up in, that of the
  catalog entry from before the loop; the result has the table, the fresh token after it, and
  the columns added and widened.
\<close>

fun evolve_native ::
    "lib \<Rightarrow> tcolumn list \<Rightarrow> raw_column list \<Rightarrow> nat \<Rightarrow> table \<Rightarrow> (table \<times> nat \<times> nat \<times> nat) result" where
  "evolve_native L existing [] fresh t = Inr (t, fresh, 0, 0)"
| "evolve_native L existing (c # cs) fresh t =
     (if \<not> column_exists existing (cname c) then
        map_sum id (\<lambda>(t, fresh, added, widened). (t, fresh, added + 1, widened))
          (evolve_native L existing cs (fresh + 1) (alter_add_column (cname c, ctype c) fresh t))
      else
        let target = join_column_types (column_type existing (cname c)) (ctype c) in
        if target = column_type existing (cname c) then evolve_native L existing cs fresh t
        else
          bind_result (alter_change_type L (the (column_index existing (cname c))) target fresh t)
            (\<lambda>t. map_sum id (\<lambda>(t, fresh, added, widened). (t, fresh, added, widened + 1))
                   (evolve_native L existing cs (fresh + 1) t)))"

section \<open>Append\<close>

definition STANDARD_VECTOR_SIZE :: nat where
  "STANDARD_VECTOR_SIZE = 2048"

function chunks_of :: "nat \<Rightarrow> 'a list \<Rightarrow> 'a list list" where
  "chunks_of n xs = (if xs = [] \<or> n = 0 then [] else take n xs # chunks_of n (drop n xs))"
  by pat_completeness auto
termination by (relation "measure (\<lambda>(n, xs). length xs)") auto

declare chunks_of.simps [simp del]

text \<open>The slot of every payload column; \<^verbatim>\<open>covered\<close> holds of the slots in the list.\<close>

definition resolve_append_layout :: "tcolumn list \<Rightarrow> raw_column list \<Rightarrow> nat list result" where
  "resolve_append_layout cols columns =
     map_result (\<lambda>c. case column_index cols (cname c) of
         None \<Rightarrow> Inl (InternalError ''column missing after evolution'')
       | Some i \<Rightarrow> Inr i) columns"

text \<open>One column of a chunk: filled in the slot's type, or in the inferred one and cast.\<close>

definition cast_result :: "lib \<Rightarrow> logical_type \<Rightarrow> logical_type \<Rightarrow> cell \<Rightarrow> cell result" where
  "cast_result L old new c =
     (case cast_cell L old new c of None \<Rightarrow> Inl (CastError ''conversion failed'') | Some c' \<Rightarrow> Inr c')"

definition fill_slot :: "lib \<Rightarrow> logical_type \<Rightarrow> logical_type \<Rightarrow> json option list \<Rightarrow> cell list result" where
  "fill_slot L slot_type col_type vals =
     (if raw_fill_supported slot_type
      then map_sum id cells (fill_vector L vals slot_type (new_vec slot_type) 0)
      else bind_result (fill_vector L vals col_type (new_vec col_type) 0)
             (\<lambda>v. map_result (cast_result L col_type slot_type) (cells v)))"

text \<open>The loop over the payload's columns; \<open>chunk\<close> has one list of cells per slot.\<close>

fun fill_columns ::
    "lib \<Rightarrow> tcolumn list \<Rightarrow> (nat \<times> raw_column \<times> json option list) list \<Rightarrow> cell list list \<Rightarrow>
     cell list list result" where
  "fill_columns L cols [] chunk = Inr chunk"
| "fill_columns L cols ((slot, c, vals) # rest) chunk =
     bind_result (fill_slot L (snd (cols ! slot)) (ctype c) vals)
       (\<lambda>cs. fill_columns L cols rest (chunk[slot := cs]))"

definition append_chunk ::
    "lib \<Rightarrow> tcolumn list \<Rightarrow> raw_node \<Rightarrow> raw_column list \<Rightarrow> nat list \<Rightarrow> json list \<Rightarrow> cell list list result" where
  "append_chunk L cols root columns slot_of rows =
     bind_result (extract_batch root columns rows) (\<lambda>e.
       map_sum id (\<lambda>chunk. map (\<lambda>i. map (\<lambda>col. col ! i) chunk) [0..<length rows])
         (fill_columns L cols (zip slot_of (zip columns (slots e)))
            (replicate (length cols) (replicate (length rows) CNull))))"

text \<open>\<open>name\<close> is the table's for the constraint check of \<^verbatim>\<open>LocalAppend\<close>.\<close>

definition append_native :: "lib \<Rightarrow> string \<Rightarrow> nat list \<Rightarrow> parsed_payload \<Rightarrow> table \<Rightarrow> table result" where
  "append_native L name slot_of parsed t =
     (if tgenerated t
      then Inl (NotImplemented ''cannot ingest into tables with generated columns'')
      else bind_result
        (map_result (\<lambda>rows. bind_result
             (append_chunk L (tcols t) (proot parsed) (pcolumns parsed) slot_of rows)
             (\<lambda>out. if append_ok L name out then Inr out
                     else Inl (InvalidInput ''constraint violated'')))
           (chunks_of STANDARD_VECTOR_SIZE (prows (payload parsed))))
        (\<lambda>chunks. Inr (t\<lparr>trows := trows t @ concat chunks\<rparr>)))"

section \<open>Specification of an append\<close>

text \<open>The cell a payload row has in a table column.\<close>

definition cell_in :: "lib \<Rightarrow> logical_type \<Rightarrow> raw_column \<Rightarrow> json \<Rightarrow> cell result" where
  "cell_in L slot_type c row =
     (let v = last_opt (vals_at row (cpath c)) in
      if raw_fill_supported slot_type then fill_value L slot_type v
      else bind_result (fill_value L (ctype c) v) (cast_result L (ctype c) slot_type))"

definition column_named :: "raw_column list \<Rightarrow> string \<Rightarrow> raw_column option" where
  "column_named columns name = find (\<lambda>c. lower (cname c) = lower name) columns"

definition row_cells :: "lib \<Rightarrow> tcolumn list \<Rightarrow> raw_column list \<Rightarrow> json \<Rightarrow> cell list result" where
  "row_cells L cols columns row =
     map_result (\<lambda>(name, slot_type). case column_named columns name of
         None \<Rightarrow> Inr CNull
       | Some c \<Rightarrow> cell_in L slot_type c row) cols"

section \<open>The code meets the specification\<close>

lemma concat_chunks: "n > 0 \<Longrightarrow> concat (chunks_of n xs) = xs"
  by (induction n xs rule: chunks_of.induct) (simp add: chunks_of.simps)

lemma chunks_set: "n > 0 \<Longrightarrow> c \<in> set (chunks_of n xs) \<Longrightarrow> set c \<subseteq> set xs"
  using concat_chunks [of n xs] by (metis Union_upper list.set_map set_concat image_eqI)

text \<open>
  What the append relies on from a payload: routing gives the last value at every column's
  path, and no two columns share a folded name.
\<close>

definition payload_ok :: "parsed_payload \<Rightarrow> bool" where
  "payload_ok p \<longleftrightarrow>
     distinct (map (lower \<circ> cname) (pcolumns p)) \<and>
     (\<forall>rows. \<exists>e. extract_batch (proot p) (pcolumns p) rows = Inr e \<and>
        slots e = map (\<lambda>c. map (\<lambda>row. last_opt (vals_at row (cpath c))) rows) (pcolumns p))"

lemma length_slots_batch: "extract_batch root cols rows = Inr e \<Longrightarrow> length (slots e) = length cols"
  using assign_rows_fields [of root 0 rows "reset_extractor (length rows) (raw_extractor cols)" e]
  by (simp add: extract_batch_def) (metis length_map length_slots_raw_extractor)

lemma slots_from_lookup:
  assumes "extract_batch root cols rows = Inr e"
    and "\<forall>c < length cols. \<forall>r < length rows. slots e ! c ! r = last_opt (vals_at (rows ! r) (cpath (cols ! c)))"
  shows "slots e = map (\<lambda>c. map (\<lambda>row. last_opt (vals_at row (cpath c))) rows) cols"
proof (rule nth_equalityI)
  show "length (slots e) = length (map (\<lambda>c. map (\<lambda>row. last_opt (vals_at row (cpath c))) rows) cols)"
    using length_slots_batch [OF assms(1)] by simp
  fix c assume "c < length (slots e)"
  then have c: "c < length cols" using length_slots_batch [OF assms(1)] by simp
  then show "slots e ! c = map (\<lambda>c. map (\<lambda>row. last_opt (vals_at row (cpath c))) rows) cols ! c"
    using assms(2) slots_shape [OF assms(1) c] by (intro nth_equalityI) simp_all
qed

text \<open>Every payload the pipeline infers and flattens is one.\<close>

lemma infer_and_flatten_ok: "infer_and_flatten L p = Inr parsed \<Longrightarrow> payload_ok parsed"
proof -
  assume "infer_and_flatten L p = Inr parsed"
  then obtain cols where fl: "flatten_schema (infer_schema L (prows p)) (scalar_rows p) = Inr cols"
    and parsed: "proot parsed = infer_schema L (prows p)" "pcolumns parsed = cols"
    by (auto simp: infer_and_flatten_def Let_def)
  let ?root = "infer_schema L (prows p)"
  have names: "distinct (map (lower \<circ> cname) cols)"
    using fl disambiguate_distinct [of "[]"]
    by (auto simp: flatten_schema_def Let_def split: if_splits)
  have "\<exists>e. extract_batch ?root cols rows = Inr e \<and>
      slots e = map (\<lambda>c. map (\<lambda>row. last_opt (vals_at row (cpath c))) rows) cols" for rows
  proof (cases "scalar_rows p \<or> nclass ?root \<noteq> NC_OBJECT")
    case False
    then have obj: "nclass ?root = NC_OBJECT" and fl': "flatten_schema ?root False = Inr cols"
      using fl by simp_all
    obtain e where e: "extract_batch ?root cols rows = Inr e"
      using extract_batch_ok [OF infer_schema_ok obj fl'] by blast
    then have "slots e = map (\<lambda>c. map (\<lambda>row. last_opt (vals_at row (cpath c))) rows) cols"
      using extract_batch_lookup [OF infer_schema_ok obj fl' e] by (intro slots_from_lookup) simp_all
    with e show ?thesis by blast
  next
    case True
    show ?thesis
    proof (cases "nclass ?root = NC_UNSET")
      case True
      with fl have "cols = []" by (auto simp: flatten_schema_def split: if_splits)
      moreover have "\<exists>e'. assign_rows ?root i rows e = Inr e'" if "\<not> root_is_column e" for i e
        using that by (induction rows arbitrary: i e) (auto simp: assign_row_def)
      ultimately obtain e where e: "extract_batch ?root cols rows = Inr e"
        by (fastforce simp: extract_batch_def raw_extractor_def)
      then have "slots e = []" using length_slots_batch [OF e] \<open>cols = []\<close> by simp
      with e \<open>cols = []\<close> show ?thesis by auto
    next
      case False
      define col where "col = \<lparr>cname = ''value'', cpath = [], ctype = node_to_type ?root, cnode = []\<rparr>"
      have cols: "cols = [col]" using True False fl by (auto simp: flatten_schema_def col_def)
      have "extract_batch ?root [col] [] = Inr e \<Longrightarrow> slots e = [[]]" for e
        by (auto simp: extract_batch_def raw_extractor_def reset_extractor_def)
      then show ?thesis
        using extract_batch_root [of ?root "scalar_rows p" col 0 rows] fl cols
        by (cases rows) (auto simp: col_def extract_batch_def last_opt_def)
    qed
  qed
  with names parsed show ?thesis by (simp add: payload_ok_def)
qed

subsection \<open>Appending\<close>

lemma fill_slot_cells:
  assumes "map_result (cell_in L T c) rows = Inr cs"
  shows "fill_slot L T (ctype c) (map (\<lambda>row. last_opt (vals_at row (cpath c))) rows) = Inr cs"
proof (cases "raw_fill_supported T")
  case True
  let ?vals = "map (\<lambda>row. last_opt (vals_at row (cpath c))) rows"
  have "cell_in L T c = (\<lambda>row. fill_value L T (last_opt (vals_at row (cpath c))))"
    using True by (simp add: fun_eq_iff cell_in_def del: raw_fill_supported.simps)
  then have "map_result (fill_value L T) ?vals = Inr cs"
    using assms by (simp add: map_result_map)
  then obtain v where "fill_vector L ?vals T (new_vec T) 0 = Inr v" "cells v = cs"
    using fillsD [OF fill_vector_refines [of L T] new_vec_ok(1) [of T], of 0 ?vals] by auto
  with True show ?thesis by (simp add: fill_slot_def del: raw_fill_supported.simps)
next
  case False
  let ?vals = "map (\<lambda>row. last_opt (vals_at row (cpath c))) rows"
  have "cell_in L T c = (\<lambda>row. bind_result (fill_value L (ctype c) (last_opt (vals_at row (cpath c))))
      (cast_result L (ctype c) T))"
    using False by (simp add: fun_eq_iff cell_in_def del: raw_fill_supported.simps)
  with assms have "map_result (\<lambda>row. bind_result
      (fill_value L (ctype c) (last_opt (vals_at row (cpath c)))) (cast_result L (ctype c) T)) rows = Inr cs"
    by simp
  from map_result_bind [OF this] obtain ms where
    ms: "map_result (fill_value L (ctype c)) ?vals = Inr ms"
      "map_result (cast_result L (ctype c) T) ms = Inr cs"
    by (auto simp: map_result_map)
  obtain v where "fill_vector L ?vals (ctype c) (new_vec (ctype c)) 0 = Inr v" "cells v = ms"
    using ms(1) fillsD [OF fill_vector_refines [of L "ctype c"] new_vec_ok(1) [of "ctype c"], of 0 ?vals]
    by auto
  with False ms(2) show ?thesis by (simp add: fill_slot_def del: raw_fill_supported.simps)
qed

lemma fill_columns_target:
  assumes "\<forall>(slot, c, vals) \<in> set xs. slot < length K \<and>
      fill_slot L (snd (cols ! slot)) (ctype c) vals = Inr (K ! slot)"
    and "length chunk = length K" "\<forall>s < length K. s \<notin> fst ` set xs \<longrightarrow> chunk ! s = K ! s"
  shows "fill_columns L cols xs chunk = Inr K"
  using assms
proof (induction xs arbitrary: chunk)
  case Nil
  then show ?case by (auto intro: nth_equalityI)
next
  case (Cons x xs)
  obtain slot c vals where x: "x = (slot, c, vals)" by (cases x)
  have "fill_columns L cols xs (chunk[slot := K ! slot]) = Inr K"
    using Cons.prems by (intro Cons.IH) (auto simp: x nth_list_update)
  then show ?case using Cons.prems(1) by (simp add: x)
qed

text \<open>A payload's columns against a table that has them all.\<close>

definition layout_of :: "tcolumn list \<Rightarrow> raw_column list \<Rightarrow> nat list \<Rightarrow> bool" where
  "layout_of cols columns slot_of \<longleftrightarrow>
     distinct (map (lower \<circ> fst) cols) \<and>
     list_all2 (\<lambda>c slot. column_index cols (cname c) = Some slot) columns slot_of"

lemma resolve_layout:
  "distinct (map (lower \<circ> fst) cols) \<Longrightarrow> resolve_append_layout cols columns = Inr slot_of \<Longrightarrow>
     layout_of cols columns slot_of"
  by (auto simp: resolve_append_layout_def layout_of_def map_result_iff elim!: list_all2_mono
      split: option.splits)

lemma column_named_slot:
  assumes d: "distinct (map (lower \<circ> cname) columns)" and c: "c \<in> set columns"
    and n: "lower (cname c) = lower name"
  shows "column_named columns name = Some c"
proof -
  have "column_named columns name \<noteq> None"
    using c n by (auto simp: column_named_def find_None_iff)
  then obtain c' where c': "column_named columns name = Some c'" by blast
  then have "c' \<in> set columns" "lower (cname c') = lower name"
    by (auto simp: column_named_def find_Some_iff)
  with d c n have "c' = c" by (metis comp_apply distinct_map inj_onD)
  with c' show ?thesis by simp
qed

lemma append_chunk_rows:
  assumes ok: "payload_ok p" and lay: "layout_of cols (pcolumns p) slot_of"
    and cells: "map_result (row_cells L cols (pcolumns p)) rows = Inr out"
  shows "append_chunk L cols (proot p) (pcolumns p) slot_of rows = Inr out"
proof -
  define K where "K = map (\<lambda>s. map (\<lambda>r. r ! s) out) [0..<length cols]"
  obtain e where e: "extract_batch (proot p) (pcolumns p) rows = Inr e"
    and slots: "slots e = map (\<lambda>c. map (\<lambda>row. last_opt (vals_at row (cpath c))) rows) (pcolumns p)"
    using ok unfolding payload_ok_def by blast
  have names: "distinct (map (lower \<circ> cname) (pcolumns p))" using ok unfolding payload_ok_def by blast
  have all: "list_all2 (\<lambda>row r. row_cells L cols (pcolumns p) row = Inr r) rows out"
    using cells by (simp add: map_result_iff)
  have cell: "list_all2 (\<lambda>row r. (case column_named (pcolumns p) (fst (cols ! s)) of
       None \<Rightarrow> Inr CNull | Some c \<Rightarrow> cell_in L (snd (cols ! s)) c row) = Inr (r ! s)) rows out"
    if "s < length cols" for s
    using all by (rule list_all2_mono)
      (use that in \<open>auto simp: row_cells_def map_result_iff list_all2_conv_all_nth case_prod_beta\<close>)
  have rowlen: "\<forall>r \<in> set out. length r = length cols"
    using all by (fastforce simp: row_cells_def list_all2_conv_all_nth in_set_conv_nth
        dest: map_result_length)
  have lens: "length out = length rows" using all by (simp add: list_all2_lengthD)
  have filled: "\<forall>(slot, c, vals) \<in> set (zip slot_of (zip (pcolumns p) (slots e))). slot < length K \<and>
      fill_slot L (snd (cols ! slot)) (ctype c) vals = Inr (K ! slot)"
  proof safe
    fix slot c vals
    assume mem: "(slot, c, vals) \<in> set (zip slot_of (zip (pcolumns p) (slots e)))"
    then have c: "c \<in> set (pcolumns p)" and vals: "vals = map (\<lambda>row. last_opt (vals_at row (cpath c))) rows"
      and ix: "column_index cols (cname c) = Some slot"
      using lay by (auto simp: slots in_set_zip layout_of_def list_all2_conv_all_nth)
    note slot = column_index_Some [OF ix]
    then show "slot < length K" by (simp add: K_def)
    have "column_named (pcolumns p) (fst (cols ! slot)) = Some c"
      using slot c by (intro column_named_slot [OF names]) simp_all
    then have "map_result (cell_in L (snd (cols ! slot)) c) rows = Inr (K ! slot)"
      using cell [of slot] slot by (simp add: K_def map_result_iff list_all2_map2)
    then show "fill_slot L (snd (cols ! slot)) (ctype c) vals = Inr (K ! slot)"
      unfolding vals by (rule fill_slot_cells)
  qed
  have rest: "replicate (length cols) (replicate (length rows) CNull) ! s = K ! s"
    if s: "s < length K" and no: "s \<notin> fst ` set (zip slot_of (zip (pcolumns p) (slots e)))" for s
  proof -
    have s': "s < length cols" using s by (simp add: K_def)
    have "column_named (pcolumns p) (fst (cols ! s)) = None"
    proof (rule ccontr)
      assume "column_named (pcolumns p) (fst (cols ! s)) \<noteq> None"
      then obtain i where i: "i < length (pcolumns p)" "lower (cname (pcolumns p ! i)) = lower (fst (cols ! s))"
        by (auto simp: column_named_def find_None_iff in_set_conv_nth)
      then have "column_index cols (cname (pcolumns p ! i)) = Some s"
        using lay s' by (intro column_index_nth) (auto simp: layout_of_def)
      then have "slot_of ! i = s" using lay i by (auto simp: layout_of_def list_all2_conv_all_nth)
      moreover have "length slot_of = length (pcolumns p)" "length (slots e) = length (pcolumns p)"
        using lay by (auto simp: layout_of_def list_all2_lengthD slots)
      ultimately have "(s, pcolumns p ! i, slots e ! i) \<in> set (zip slot_of (zip (pcolumns p) (slots e)))"
        using i by (auto simp: in_set_zip)
      with no show False by force
    qed
    then have "map (\<lambda>r. r ! s) out = replicate (length rows) CNull"
      using cell [OF s'] lens by (intro nth_equalityI) (auto simp: list_all2_conv_all_nth)
    with s s' show ?thesis by (simp add: K_def)
  qed
  have "fill_columns L cols (zip slot_of (zip (pcolumns p) (slots e)))
      (replicate (length cols) (replicate (length rows) CNull)) = Inr K"
    using filled rest by (intro fill_columns_target) (simp_all add: K_def)
  moreover have "map (\<lambda>i. map (\<lambda>col. col ! i) K) [0..<length rows] = out"
    using lens rowlen by (intro nth_equalityI) (auto simp: K_def comp_def intro!: nth_equalityI)
  ultimately show ?thesis by (simp add: append_chunk_def e)
qed

lemma append_native_rows:
  assumes "payload_ok p" "layout_of (tcols t) (pcolumns p) slot_of" "\<not> tgenerated t"
    and "\<And>out. append_ok L name out"
    and "map_result (row_cells L (tcols t) (pcolumns p)) (prows (payload p)) = Inr out"
  shows "append_native L name slot_of p t = Inr (t\<lparr>trows := trows t @ out\<rparr>)"
proof -
  let ?chunks = "chunks_of STANDARD_VECTOR_SIZE (prows (payload p))"
  have "concat ?chunks = prows (payload p)"
    by (rule concat_chunks) (simp add: STANDARD_VECTOR_SIZE_def)
  then obtain outs where outs: "map_result (map_result (row_cells L (tcols t) (pcolumns p))) ?chunks = Inr outs"
      "concat outs = out"
    using map_result_concat assms(5) by metis
  have "map_result (\<lambda>rows. bind_result (append_chunk L (tcols t) (proot p) (pcolumns p) slot_of rows)
      (\<lambda>out. if append_ok L name out then Inr out else Inl (InvalidInput ''constraint violated'')))
      ?chunks = Inr outs"
    using outs(1) unfolding map_result_iff
    by (rule list_all2_mono) (simp add: append_chunk_rows [OF assms(1,2)] assms(4) map_result_iff)
  with outs(2) assms(3) show ?thesis by (simp add: append_native_def)
qed

subsection \<open>Evolving\<close>

definition table_ok :: "table \<Rightarrow> bool" where
  "table_ok t \<longleftrightarrow>
     distinct (map (lower \<circ> fst) (tcols t)) \<and> (\<forall>row \<in> set (trows t). length row = length (tcols t))"

text \<open>The specification of \<^verbatim>\<open>EvolveNative\<close>: columns, and the cells of an old row.\<close>

definition evolved_column :: "raw_column list \<Rightarrow> tcolumn \<Rightarrow> tcolumn" where
  "evolved_column columns c =
     (fst c, case column_named columns (fst c) of
        None \<Rightarrow> snd c | Some p \<Rightarrow> join_column_types (snd c) (ctype p))"

definition evolved_columns :: "tcolumn list \<Rightarrow> raw_column list \<Rightarrow> tcolumn list" where
  "evolved_columns existing columns =
     map (evolved_column columns) existing @ fst (compute_delta existing columns)"

definition cell_evolves :: "lib \<Rightarrow> raw_column list \<Rightarrow> tcolumn \<Rightarrow> cell \<Rightarrow> cell \<Rightarrow> bool" where
  "cell_evolves L columns c old new \<longleftrightarrow>
     (if snd (evolved_column columns c) = snd c then new = old
      else convert_cell L (snd c) (snd (evolved_column columns c)) old = Inr new)"

definition row_evolves :: "lib \<Rightarrow> raw_column list \<Rightarrow> tcolumn list \<Rightarrow> nat \<Rightarrow> cell list \<Rightarrow> cell list \<Rightarrow> bool" where
  "row_evolves L columns base added row row' \<longleftrightarrow>
     length row' = length row + added \<and>
     (\<forall>i < length base. cell_evolves L columns (base ! i) (row ! i) (row' ! i)) \<and>
     (\<forall>i. length base \<le> i \<longrightarrow> i < length row \<longrightarrow> row' ! i = row ! i) \<and>
     (\<forall>i. length row \<le> i \<longrightarrow> i < length row' \<longrightarrow> row' ! i = CNull)"

lemma column_named_Cons:
  "column_named (c # cs) name = (if lower (cname c) = lower name then Some c else column_named cs name)"
  by (simp add: column_named_def)

lemma column_named_lower: "lower a = lower b \<Longrightarrow> column_named cs a = column_named cs b"
  by (simp add: column_named_def)

lemma column_named_None:
  "lower name \<notin> (lower \<circ> cname) ` set cs \<Longrightarrow> column_named cs name = None"
  by (force simp: column_named_def find_None_iff)

lemma column_index_names:
  "map fst a = map fst b \<Longrightarrow> column_index a name = column_index b name"
proof (induction a arbitrary: b)
  case (Cons x a)
  then obtain y b' where "b = y # b'" "fst x = fst y" "map fst a = map fst b'" by (cases b) auto
  with Cons.IH [of b'] show ?case by (cases x; cases y) auto
qed simp

lemma change_type_rows:
  assumes "alter_change_type L i new fresh t = Inr t'" "i < length (tcols t)"
    and "\<forall>row \<in> set (trows t). length row = length (tcols t)"
  shows "tcols t' = (tcols t)[i := (fst (tcols t ! i), new)]"
    and "list_all2 (\<lambda>row row'. length row' = length row \<and>
      convert_cell L (snd (tcols t ! i)) new (row ! i) = Inr (row' ! i) \<and>
      (\<forall>j. j \<noteq> i \<longrightarrow> row' ! j = row ! j)) (trows t) (trows t')"
proof -
  from assms(1) obtain rows where
    rows: "map_result (\<lambda>row. bind_result (convert_cell L (snd (tcols t ! i)) new (row ! i))
        (\<lambda>c. Inr (row[i := c]))) (trows t) = Inr rows"
    and t': "t' = t\<lparr>tcols := (tcols t)[i := (fst (tcols t ! i), new)], trows := rows, ttoken := fresh\<rparr>"
    by (auto simp: alter_change_type_def)
  then show "tcols t' = (tcols t)[i := (fst (tcols t ! i), new)]" by simp
  show "list_all2 (\<lambda>row row'. length row' = length row \<and>
      convert_cell L (snd (tcols t ! i)) new (row ! i) = Inr (row' ! i) \<and>
      (\<forall>j. j \<noteq> i \<longrightarrow> row' ! j = row ! j)) (trows t) (trows t')"
    using rows [unfolded map_result_iff] assms(2,3)
    by (auto simp: t' elim!: list.rel_mono_strong)
qed

lemma evolved_column_other:
  "lower (cname c) \<noteq> lower (fst x) \<Longrightarrow> evolved_column (c # cs) x = evolved_column cs x"
  by (simp add: evolved_column_def column_named_Cons)

lemma cell_evolves_other:
  "lower (cname c) \<noteq> lower (fst x) \<Longrightarrow> cell_evolves L (c # cs) x = cell_evolves L cs x"
  by (simp add: cell_evolves_def evolved_column_other fun_eq_iff)

lemma evolved_column_here:
  "lower (cname c) = lower (fst x) \<Longrightarrow>
     evolved_column (c # cs) x = (fst x, join_column_types (snd x) (ctype c))"
  by (simp add: evolved_column_def column_named_Cons)

lemma evolved_column_done:
  "distinct (map (lower \<circ> cname) (c # cs)) \<Longrightarrow> lower (cname c) = lower (fst x) \<Longrightarrow>
     evolved_column cs x = x"
  using column_named_None [of "fst x" cs] by (simp add: evolved_column_def image_comp)

text \<open>A column no row has yet: the table grows by one.\<close>

lemma row_evolves_add:
  assumes "lower (cname c) \<notin> (lower \<circ> fst) ` set base" "length base \<le> length row"
    and "row_evolves L cs base k (row @ [CNull]) row'"
  shows "row_evolves L (c # cs) base (Suc k) row row'"
  unfolding row_evolves_def
proof (intro conjI allI impI)
  note r = assms(3) [unfolded row_evolves_def]
  show "length row' = length row + Suc k" using r by simp
  fix i
  show "cell_evolves L (c # cs) (base ! i) (row ! i) (row' ! i)" if "i < length base"
  proof -
    have "lower (cname c) \<noteq> lower (fst (base ! i))" using assms(1) that by auto
    moreover have "cell_evolves L cs (base ! i) ((row @ [CNull]) ! i) (row' ! i)" using r that by blast
    ultimately show ?thesis using that assms(2) by (simp add: cell_evolves_other nth_append)
  qed
  show "row' ! i = row ! i" if "length base \<le> i" "i < length row"
    using r that by (auto simp: nth_append)
  show "row' ! i = CNull" if "length row \<le> i" "i < length row'"
    using r that assms(2) by (cases "i = length row") (auto simp: nth_append dest: spec [of _ "length row"])
qed

text \<open>A column the table has, at position \<open>i\<close>.\<close>

lemma row_evolves_at:
  assumes "distinct (map (lower \<circ> cname) (c # cs))" "distinct (map (lower \<circ> fst) base)"
    and "i < length base" "lower (cname c) = lower (fst (base ! i))"
    and "length row1 = length row" "\<forall>j. j \<noteq> i \<longrightarrow> row1 ! j = row ! j" "length base \<le> length row"
    and "cell_evolves L (c # cs) (base ! i) (row ! i) (row1 ! i)"
    and "base1 = base[i := evolved_column (c # cs) (base ! i)]"
    and "row_evolves L cs base1 k row1 row'"
  shows "row_evolves L (c # cs) base k row row'"
  unfolding row_evolves_def
proof (intro conjI allI impI)
  note r = assms(10) [unfolded row_evolves_def]
  have len: "length base1 = length base" by (simp add: assms(9))
  show "length row' = length row + k" using r assms(5) by simp
  fix j
  show "cell_evolves L (c # cs) (base ! j) (row ! j) (row' ! j)" if j: "j < length base"
  proof (cases "j = i")
    case True
    have "evolved_column cs (base1 ! i) = base1 ! i"
      using assms(3,4,9) by (intro evolved_column_done [OF assms(1)]) (simp add: evolved_column_here)
    moreover have "cell_evolves L cs (base1 ! i) (row1 ! i) (row' ! i)" using r len assms(3) by simp
    ultimately have "row' ! i = row1 ! i" by (simp add: cell_evolves_def)
    with True assms(8) show ?thesis by simp
  next
    case False
    then have "lower (cname c) \<noteq> lower (fst (base ! j))"
      using assms(2,3,4) j nth_eq_iff_index_eq [OF assms(2)] by auto
    moreover have "cell_evolves L cs (base1 ! j) (row1 ! j) (row' ! j)" using r len j by simp
    ultimately show ?thesis using False assms(6,9) by (simp add: cell_evolves_other)
  qed
  show "row' ! j = row ! j" if "length base \<le> j" "j < length row"
    using r that len assms(3,5,6) by auto
  show "row' ! j = CNull" if "length row \<le> j" "j < length row'"
    using r that assms(5) by auto
qed

lemma map_evolved_at:
  assumes "distinct (map (lower \<circ> cname) (c # cs))" "distinct (map (lower \<circ> fst) base)"
    and "i < length base" "lower (cname c) = lower (fst (base ! i))"
  shows "map (evolved_column cs) (base[i := evolved_column (c # cs) (base ! i)]) =
    map (evolved_column (c # cs)) base"
proof (rule nth_equalityI)
  fix j assume "j < length (map (evolved_column cs) (base[i := evolved_column (c # cs) (base ! i)]))"
  then have j: "j < length base" by simp
  show "map (evolved_column cs) (base[i := evolved_column (c # cs) (base ! i)]) ! j =
      map (evolved_column (c # cs)) base ! j"
  proof (cases "j = i")
    case True
    have "evolved_column cs (evolved_column (c # cs) (base ! i)) = evolved_column (c # cs) (base ! i)"
      using assms(4) by (intro evolved_column_done [OF assms(1)]) (simp add: evolved_column_here)
    with True j show ?thesis by simp
  next
    case False
    then have "lower (cname c) \<noteq> lower (fst (base ! j))"
      using assms(2-4) j nth_eq_iff_index_eq [OF assms(2)] by auto
    with False j show ?thesis by (simp add: evolved_column_other)
  qed
qed simp

lemma evolve_native_flags:
  "evolve_native L existing cs fresh t = Inr (t', fresh', added, widened) \<Longrightarrow>
     tgenerated t' = tgenerated t \<and> tindexes t' = tindexes t \<and> tconstraints t' = tconstraints t"
  by (induction L existing cs fresh t arbitrary: t' fresh' added widened rule: evolve_native.induct)
    (fastforce simp: Let_def alter_add_column_def alter_change_type_def map_sum_Inr_iff split: if_splits)+

text \<open>
  One induction for the loop. The table starts with \<open>base\<close>, which agrees with
  \<open>existing\<close> in the names and, where a payload column is still to come, in the types.
\<close>

lemma evolve_native_spec:
  assumes "evolve_native L existing cs fresh t = Inr (t', fresh', added, widened)"
    and "distinct (map (lower \<circ> cname) cs)" "distinct (map (lower \<circ> fst) existing)"
    and "tcols t = base @ extra" "map fst base = map fst existing"
    and "\<forall>i < length base. column_named cs (fst (base ! i)) \<noteq> None \<longrightarrow> base ! i = existing ! i"
    and "\<forall>row \<in> set (trows t). length row = length (tcols t)"
  shows "tcols t' = map (evolved_column cs) base @ extra @ fst (compute_delta existing cs) \<and>
    list_all2 (row_evolves L cs base (length (fst (compute_delta existing cs)))) (trows t) (trows t')"
  using assms
proof (induction L existing cs fresh t arbitrary: t' fresh' added widened base extra
    rule: evolve_native.induct)
  case (1 L existing fresh t)
  have "map (evolved_column []) base = base"
    by (intro nth_equalityI) (auto simp: evolved_column_def column_named_def)
  moreover have "list_all2 (row_evolves L [] base 0) (trows t) (trows t)"
    by (intro list_all2_refl) (simp add: row_evolves_def cell_evolves_def evolved_column_def column_named_def)
  ultimately show ?case using 1 by (simp add: compute_delta_def)
next
  case (2 L existing c cs fresh t)
  note ev = 2(4) and dc = 2(5) and de = 2(6) and tc = 2(7) and nm = 2(8) and ag = 2(9) and rl = 2(10)
  have dc': "distinct (map (lower \<circ> cname) cs)" using dc by (simp add: comp_def)
  have db: "distinct (map (lower \<circ> fst) base)" using de nm by (metis list.map_comp)
  have lb: "length base = length existing" using nm by (metis length_map)
  have ag': "\<forall>i < length base. column_named cs (fst (base ! i)) \<noteq> None \<longrightarrow> base ! i = existing ! i"
    using ag by (auto simp: column_named_Cons split: if_splits)
  show ?case
  proof (cases "column_exists existing (cname c)")
    case False
    have new: "lower (cname c) \<notin> (lower \<circ> fst) ` set base"
      using False nm unfolding column_exists_def column_index_None by (metis image_comp image_set)
    have delta: "fst (compute_delta existing (c # cs)) = (cname c, ctype c) # fst (compute_delta existing cs)"
      using False by (simp add: compute_delta_def)
    let ?t = "alter_add_column (cname c, ctype c) fresh t"
    obtain a where "evolve_native L existing cs (fresh + 1) ?t = Inr (t', fresh', a, widened)"
      using ev False by (auto simp: map_sum_Inr_iff)
    then have IH: "tcols t' = map (evolved_column cs) base @ (extra @ [(cname c, ctype c)]) @
        fst (compute_delta existing cs)"
      "list_all2 (row_evolves L cs base (length (fst (compute_delta existing cs)))) (trows ?t) (trows t')"
      using 2(1) [OF False _ dc' de, of t' fresh' a widened base "extra @ [(cname c, ctype c)]"] tc nm ag' rl
      by (simp_all add: alter_add_column_def)
    have "map (evolved_column (c # cs)) base = map (evolved_column cs) base"
      using new by (intro map_cong refl evolved_column_other) (metis comp_apply image_eqI)
    moreover have "list_all2 (row_evolves L (c # cs) base (Suc (length (fst (compute_delta existing cs)))))
        (trows t) (trows t')"
    proof -
      have "list_all2 (\<lambda>row. row_evolves L cs base (length (fst (compute_delta existing cs))) (row @ [CNull]))
          (trows t) (trows t')"
        using IH(2) by (simp add: alter_add_column_def list_all2_map1)
      then show ?thesis
        by (rule list.rel_mono_strong) (use rl tc row_evolves_add [OF new] in auto)
    qed
    ultimately show ?thesis using IH(1) delta by simp
  next
    case True
    then obtain i where i: "column_index existing (cname c) = Some i" by (auto simp: column_exists_def)
    have delta: "fst (compute_delta existing (c # cs)) = fst (compute_delta existing cs)"
      using True by (simp add: compute_delta_def)
    have ix: "i < length base" "lower (cname c) = lower (fst (existing ! i))"
      using column_index_Some [OF i] lb by simp_all
    have "fst (base ! i) = fst (existing ! i)" using nm ix(1) lb by (metis nth_map)
    then have here: "lower (cname c) = lower (fst (base ! i))" using ix(2) by simp
    then have "column_named (c # cs) (fst (base ! i)) \<noteq> None" by (simp add: column_named_Cons)
    then have bi: "base ! i = existing ! i" using ag ix(1) by blast
    have ty: "column_type existing (cname c) = snd (base ! i)" by (simp add: column_type_def i bi)
    define target where "target = join_column_types (snd (base ! i)) (ctype c)"
    have ec: "evolved_column (c # cs) (base ! i) = (fst (base ! i), target)"
      by (simp add: evolved_column_here here target_def)
    let ?base = "base[i := evolved_column (c # cs) (base ! i)]"
    have bnm: "map fst ?base = map fst existing" 
    proof -
      have "map fst ?base = (map fst base)[i := map fst base ! i]" using ix(1) by (simp add: ec map_update)
      with nm show ?thesis by (simp only: list_update_id)
    qed
    have bag: "\<forall>j < length ?base. column_named cs (fst (?base ! j)) \<noteq> None \<longrightarrow> ?base ! j = existing ! j"
    proof (intro allI impI)
      fix j assume j: "j < length ?base" and named: "column_named cs (fst (?base ! j)) \<noteq> None"
      have "column_named cs (fst (base ! i)) = None"
        using dc here by (intro column_named_None) (auto simp: image_comp)
      then have "j \<noteq> i" using named ix(1) ec by auto
      with j named ag' show "?base ! j = existing ! j" by simp
    qed
    have finish: ?thesis
      if IH: "tcols t' = map (evolved_column cs) ?base @ extra @ fst (compute_delta existing cs)"
        "list_all2 (row_evolves L cs ?base (length (fst (compute_delta existing cs)))) rows1 (trows t')"
      and rows: "list_all2 (\<lambda>row row1. length row1 = length row \<and> (\<forall>j. j \<noteq> i \<longrightarrow> row1 ! j = row ! j) \<and>
        length base \<le> length row \<and>
        cell_evolves L (c # cs) (base ! i) (row ! i) (row1 ! i)) (trows t) rows1" for rows1
    proof -
      have "list_all2 (row_evolves L (c # cs) base (length (fst (compute_delta existing cs))))
          (trows t) (trows t')"
        using rows IH(2)
        by (rule list_all2_trans [rotated])
          (use row_evolves_at [OF dc db ix(1) here _ _ _ _ refl] in blast)
      with IH(1) map_evolved_at [OF dc db ix(1) here] delta show ?thesis by simp
    qed
    show ?thesis
    proof (cases "target = snd (base ! i)")
      case True
      then have base: "?base = base" using ec by (metis list_update_id prod.collapse)
      have "evolve_native L existing cs fresh t = Inr (t', fresh', added, widened)"
        using ev \<open>column_exists existing (cname c)\<close> True by (simp add: Let_def ty target_def)
      from 2(2) [OF _ refl _ this dc' de _ bnm bag rl, of extra]
      have IH: "tcols t' = map (evolved_column cs) ?base @ extra @ fst (compute_delta existing cs)"
        "list_all2 (row_evolves L cs ?base (length (fst (compute_delta existing cs)))) (trows t) (trows t')"
        using \<open>column_exists existing (cname c)\<close> True tc base by (simp_all add: ty target_def)
      show ?thesis
        using True ec rl tc by (intro finish [OF IH]) (simp add: cell_evolves_def list_all2_same)
    next
      case False
      then obtain t1 w where t1: "alter_change_type L i target fresh t = Inr t1"
        and ev1: "evolve_native L existing cs (fresh + 1) t1 = Inr (t', fresh', added, w)"
        using ev \<open>column_exists existing (cname c)\<close> i by (auto simp: Let_def ty target_def map_sum_Inr_iff)
      have it: "i < length (tcols t)" "tcols t ! i = base ! i" using ix(1) tc by (simp_all add: nth_append)
      note ch = change_type_rows [OF t1 it(1) rl]
      have tc1: "tcols t1 = ?base @ extra" using ch(1) it tc ix(1) ec by (simp add: list_update_append)
      have rl1: "\<forall>row \<in> set (trows t1). length row = length (tcols t1)"
        using ch(2) rl tc tc1 by (fastforce simp: list_all2_conv_all_nth in_set_conv_nth)
      from 2(3) [OF _ refl _ ev1 dc' de tc1 bnm bag rl1]
      have IH: "tcols t' = map (evolved_column cs) ?base @ extra @ fst (compute_delta existing cs)"
        "list_all2 (row_evolves L cs ?base (length (fst (compute_delta existing cs)))) (trows t1) (trows t')"
        using \<open>column_exists existing (cname c)\<close> False i t1 by (simp_all add: ty target_def)
      show ?thesis
        using False ec it rl tc
        by (intro finish [OF IH] list.rel_mono_strong [OF ch(2)]) (auto simp: cell_evolves_def)
    qed
  qed
qed

text \<open>
  The conversions a payload asks of an old row, and that the loop succeeds exactly when all rows
  convert.
\<close>

definition row_converts :: "lib \<Rightarrow> raw_column list \<Rightarrow> tcolumn list \<Rightarrow> cell list \<Rightarrow> bool" where
  "row_converts L columns cols row \<longleftrightarrow>
     list_all (\<lambda>i. let c = cols ! i; new = snd (evolved_column columns c) in
        new = snd c \<or> \<not> isl (convert_cell L (snd c) new (row ! i))) [0..<length cols]"

lemma row_evolves_converts: "row_evolves L columns cols added row row' \<Longrightarrow> row_converts L columns cols row"
  by (fastforce simp: row_evolves_def row_converts_def cell_evolves_def list_all_iff Let_def)

lemma row_convertsD:
  "row_converts L columns cols row \<Longrightarrow> i < length cols \<Longrightarrow> snd (evolved_column columns (cols ! i)) \<noteq> snd (cols ! i) \<Longrightarrow>
     \<exists>c'. convert_cell L (snd (cols ! i)) (snd (evolved_column columns (cols ! i))) (row ! i) = Inr c'"
  by (cases "convert_cell L (snd (cols ! i)) (snd (evolved_column columns (cols ! i))) (row ! i)")
    (auto simp: row_converts_def list_all_iff Let_def)

text \<open>What the loop relies on at a payload column the table has.\<close>

definition widens_at :: "lib \<Rightarrow> tcolumn list \<Rightarrow> table \<Rightarrow> raw_column \<Rightarrow> bool" where
  "widens_at L existing t c \<longleftrightarrow>
     (\<forall>i. column_index existing (cname c) = Some i \<longrightarrow>
        i < length (tcols t) \<and> snd (tcols t ! i) = snd (existing ! i) \<and>
        (\<forall>row \<in> set (trows t). i < length row \<and>
           (join_column_types (snd (existing ! i)) (ctype c) \<noteq> snd (existing ! i) \<longrightarrow>
              (\<exists>c'. convert_cell L (snd (existing ! i)) (join_column_types (snd (existing ! i)) (ctype c)) (row ! i) = Inr c'))))"

lemma widens_at_add: "widens_at L existing t c \<Longrightarrow> widens_at L existing (alter_add_column col fresh t) c"
  by (fastforce simp: widens_at_def alter_add_column_def nth_append less_Suc_eq)

lemma widens_at_change:
  assumes "widens_at L existing t d" "alter_change_type L i T fresh t = Inr t1" "i < length (tcols t)"
    and "\<forall>j. column_index existing (cname d) = Some j \<longrightarrow> j \<noteq> i"
  shows "widens_at L existing t1 d"
proof -
  obtain rows where rows: "list_all2 (\<lambda>row row'. \<exists>c. row' = row[i := c]) (trows t) rows"
    and t1: "t1 = t\<lparr>tcols := (tcols t)[i := (fst (tcols t ! i), T)], trows := rows, ttoken := fresh\<rparr>"
  proof -
    from assms(2) obtain rows where
      "map_result (\<lambda>row. bind_result (convert_cell L (snd (tcols t ! i)) T (row ! i)) (\<lambda>c. Inr (row[i := c]))) (trows t) = Inr rows"
      "t1 = t\<lparr>tcols := (tcols t)[i := (fst (tcols t ! i), T)], trows := rows, ttoken := fresh\<rparr>"
      by (auto simp: alter_change_type_def)
    moreover from this(1) have "list_all2 (\<lambda>row row'. \<exists>c. row' = row[i := c]) (trows t) rows"
      unfolding map_result_iff by (rule list.rel_mono_strong) auto
    ultimately show thesis by (intro that)
  qed
  have "\<exists>row \<in> set (trows t). \<exists>c. row' = row[i := c]" if "row' \<in> set rows" for row'
    using list_all2_set_right [OF rows that] by blast
  with assms(1,4) show ?thesis by (fastforce simp: widens_at_def t1)
qed

lemma evolve_native_total:
  assumes "distinct (map (lower \<circ> cname) cs)" "\<forall>c \<in> set cs. widens_at L existing t c"
  shows "\<exists>r. evolve_native L existing cs fresh t = Inr r"
  using assms
proof (induction cs arbitrary: fresh t)
  case (Cons c cs)
  have dc: "distinct (map (lower \<circ> cname) cs)" using Cons.prems(1) by (simp add: comp_def)
  show ?case
  proof (cases "column_index existing (cname c)")
    case None
    have "\<exists>r. evolve_native L existing cs (Suc fresh) (alter_add_column (cname c, ctype c) fresh t) = Inr r"
      using Cons.prems(2) by (intro Cons.IH [OF dc]) (simp add: widens_at_add)
    with None show ?thesis by (auto simp: column_exists_def map_sum_Inr_iff)
  next
    case (Some i)
    let ?T = "join_column_types (column_type existing (cname c)) (ctype c)"
    have c: "i < length (tcols t)" "snd (tcols t ! i) = column_type existing (cname c)"
      "\<forall>row \<in> set (trows t). ?T \<noteq> column_type existing (cname c) \<longrightarrow>
         (\<exists>c'. convert_cell L (column_type existing (cname c)) ?T (row ! i) = Inr c')"
      using Cons.prems(2) Some by (auto simp: widens_at_def column_type_def)
    show ?thesis
    proof (cases "?T = column_type existing (cname c)")
      case True
      have "\<exists>r. evolve_native L existing cs fresh t = Inr r"
        using Cons.prems(2) by (intro Cons.IH [OF dc]) simp
      with True Some show ?thesis by (auto simp: column_exists_def Let_def)
    next
      case False
      have "\<exists>rows. map_result (\<lambda>row. bind_result (convert_cell L (snd (tcols t ! i)) ?T (row ! i))
          (\<lambda>c. Inr (row[i := c]))) (trows t) = Inr rows"
        using c(2,3) False by (intro map_result_ex) fastforce
      then obtain t1 where t1: "alter_change_type L i ?T fresh t = Inr t1"
        by (auto simp: alter_change_type_def)
      have "widens_at L existing t1 d" if d: "d \<in> set cs" for d
      proof (rule widens_at_change [OF _ t1 c(1)])
        show "widens_at L existing t d" using Cons.prems(2) d by simp
        show "\<forall>j. column_index existing (cname d) = Some j \<longrightarrow> j \<noteq> i"
        proof (intro allI impI notI)
          fix j assume "column_index existing (cname d) = Some j" "j = i"
          then have "lower (cname d) = lower (cname c)"
            using column_index_Some [OF Some] column_index_Some [of existing "cname d" j] by simp
          with Cons.prems(1) d show False by (auto simp: image_iff)
        qed
      qed
      then have "\<exists>r. evolve_native L existing cs (Suc fresh) t1 = Inr r"
        by (intro Cons.IH [OF dc]) blast
      with False Some t1 show ?thesis by (auto simp: column_exists_def Let_def map_sum_Inr_iff)
    qed
  qed
qed simp

lemma evolve_native_defined:
  assumes "table_ok t" "distinct (map (lower \<circ> cname) cs)" "\<forall>row \<in> set (trows t). row_converts L cs (tcols t) row"
  shows "\<exists>t' fresh' added widened. evolve_native L (tcols t) cs fresh t = Inr (t', fresh', added, widened)"
proof -
  have "widens_at L (tcols t) t c" if c: "c \<in> set cs" for c
    unfolding widens_at_def
  proof (intro allI impI conjI ballI refl)
    fix i assume i: "column_index (tcols t) (cname c) = Some i"
    note ix = column_index_Some [OF i]
    then show "i < length (tcols t)" by simp
    fix row assume row: "row \<in> set (trows t)"
    then show "i < length row" using assms(1) ix by (simp add: table_ok_def)
    assume ne: "join_column_types (snd (tcols t ! i)) (ctype c) \<noteq> snd (tcols t ! i)"
    have "column_named cs (fst (tcols t ! i)) = Some c"
      using ix by (intro column_named_slot [OF assms(2) c]) simp
    then have "snd (evolved_column cs (tcols t ! i)) = join_column_types (snd (tcols t ! i)) (ctype c)"
      by (simp add: evolved_column_def)
    then show "\<exists>c'. convert_cell L (snd (tcols t ! i)) (join_column_types (snd (tcols t ! i)) (ctype c)) (row ! i) = Inr c'"
      using row_convertsD [of L cs "tcols t" row i] assms(3) row ix ne by simp
  qed
  then have "\<exists>r. evolve_native L (tcols t) cs fresh t = Inr r" by (intro evolve_native_total [OF assms(2)]) blast
  then show ?thesis by (metis prod_cases4)
qed

subsection \<open>Evolving, then appending\<close>

lemma evolved_names: "map fst (map (evolved_column cs) base) = map fst base"
  by (simp add: evolved_column_def)

lemma evolved_columns_distinct:
  assumes "distinct (map (lower \<circ> fst) existing)" "distinct (map (lower \<circ> cname) cs)"
  shows "distinct (map (lower \<circ> fst) (evolved_columns existing cs))"
proof -
  have "map (lower \<circ> fst) (map (evolved_column cs) existing) = map (lower \<circ> fst) existing"
    by (simp add: evolved_column_def)
  moreover have "distinct (map (lower \<circ> fst) (fst (compute_delta existing cs)))"
    using assms(2) by (simp add: compute_delta_def comp_def distinct_map_filter)
  moreover have "(lower \<circ> fst) ` set existing \<inter> (lower \<circ> fst) ` set (fst (compute_delta existing cs)) = {}"
    by (force simp: compute_delta_def column_exists_def column_index_None)
  ultimately show ?thesis
    using assms(1) by (simp add: evolved_columns_def image_set [symmetric] del: map_map)
qed

text \<open>Every payload column has a slot, with the joined type.\<close>

lemma evolved_columns_find:
  assumes "distinct (map (lower \<circ> cname) cs)" "c \<in> set cs"
  shows "\<exists>i. column_index (evolved_columns existing cs) (cname c) = Some i \<and>
    snd (evolved_columns existing cs ! i) =
      (if column_exists existing (cname c)
       then join_column_types (column_type existing (cname c)) (ctype c) else ctype c)"
proof (cases "column_index existing (cname c)")
  case (Some i)
  have ix: "i < length existing" "lower (fst (existing ! i)) = lower (cname c)"
    using column_index_Some [OF Some] by simp_all
  have "column_index (map (evolved_column cs) existing) (cname c) = Some i"
    using Some column_index_names [OF evolved_names] by simp
  then have "column_index (evolved_columns existing cs) (cname c) = Some i"
    by (simp add: evolved_columns_def column_index_append)
  moreover have "column_named cs (fst (existing ! i)) = Some c"
    using ix(2) by (intro column_named_slot [OF assms]) simp
  ultimately show ?thesis
    using ix(1) Some
    by (simp add: evolved_columns_def nth_append evolved_column_def column_exists_def column_type_def)
next
  case None
  let ?new = "filter (\<lambda>c. \<not> column_exists existing (cname c)) cs"
  have "c \<in> set ?new" using assms(2) None by (simp add: column_exists_def)
  then obtain k where k: "k < length ?new" "?new ! k = c" by (metis in_set_conv_nth)
  have "distinct (map (lower \<circ> fst) (map (\<lambda>c. (cname c, ctype c)) ?new))"
    using assms(1) by (simp add: comp_def distinct_map_filter)
  then have "column_index (map (\<lambda>c. (cname c, ctype c)) ?new) (cname c) = Some k"
    using k by (intro column_index_nth) simp_all
  moreover have "column_index (map (evolved_column cs) existing) (cname c) = None"
    using None column_index_names [OF evolved_names] by simp
  ultimately have "column_index (evolved_columns existing cs) (cname c) = Some (length existing + k)"
    by (simp add: evolved_columns_def compute_delta_def column_index_append)
  then show ?thesis
    using k None by (simp add: evolved_columns_def compute_delta_def column_exists_def nth_append)
qed

lemma evolved_layout:
  assumes "distinct (map (lower \<circ> fst) existing)" "distinct (map (lower \<circ> cname) cs)"
  shows "\<exists>slot_of. resolve_append_layout (evolved_columns existing cs) cs = Inr slot_of \<and>
    layout_of (evolved_columns existing cs) cs slot_of"
proof -
  have "\<exists>slot_of. resolve_append_layout (evolved_columns existing cs) cs = Inr slot_of"
    unfolding resolve_append_layout_def
    using evolved_columns_find [OF assms(2)] by (intro map_result_ex) (fastforce split: option.splits)
  with resolve_layout [OF evolved_columns_distinct [OF assms]] show ?thesis by blast
qed

text \<open>The value of a row at a column's path is accepted by a schema of the column's type.\<close>

lemma column_accepts:
  assumes "infer_and_flatten L p = Inr parsed" "c \<in> set (pcolumns parsed)" "row \<in> set (prows p)"
    and "last_opt (vals_at row (cpath c)) = Some w"
  shows "\<exists>s d. ctype c = schema_type s \<and> accepts L s d w"
proof -
  let ?root = "infer_schema L (prows p)"
  have fl: "flatten_schema ?root (scalar_rows p) = Inr (pcolumns parsed)"
    using assms(1) by (auto simp: infer_and_flatten_def Let_def)
  have w: "w \<in> set (vals_at row (cpath c))"
    using assms(4) by (auto simp: last_opt_def split: if_splits)
  show ?thesis
  proof (cases "scalar_rows p \<or> nclass ?root \<noteq> NC_OBJECT")
    case True
    then have "pcolumns parsed \<noteq> [] \<Longrightarrow>
        pcolumns parsed = [\<lparr>cname = ''value'', cpath = [], ctype = node_to_type ?root, cnode = []\<rparr>]"
      using fl by (simp add: flatten_schema_def split: if_splits)
    then have "cpath c = []" "ctype c = node_to_type ?root" using assms(2) by fastforce+
    with w infer_schema_accepts [OF assms(3), of L] show ?thesis by (auto simp: node_to_type_abs)
  next
    case False
    then have obj: "nclass ?root = NC_OBJECT" and fl': "flatten_schema ?root False = Inr (pcolumns parsed)"
      using fl by simp_all
    obtain k where "k < length (pcolumns parsed)" "pcolumns parsed ! k = c"
      using assms(2) by (auto simp: in_set_conv_nth)
    with flatten_schema_leaf [OF fl' obj, of k] obtain m where
      m: "leaf_at ?root 0 (cnode c) = Some (cpath c, m)" "ctype c = node_to_type m" by auto
    from accepts_leaf [OF m(1) infer_schema_ok obj infer_schema_accepts [OF assms(3)] w] m(2)
    show ?thesis by (auto simp: node_to_type_abs)
  qed
qed

text \<open>
  What the new row has in a column: what the column's type makes of the value at the path, or
  NULL without one; and when a row cannot be written.
\<close>

definition row_holds :: "lib \<Rightarrow> tcolumn list \<Rightarrow> raw_column list \<Rightarrow> json \<Rightarrow> cell list \<Rightarrow> bool" where
  "row_holds L cols columns row out \<longleftrightarrow>
     length out = length cols \<and>
     (\<forall>i < length cols. case column_named columns (fst (cols ! i)) of
        None \<Rightarrow> out ! i = CNull
      | Some c \<Rightarrow> (case value_at c row of
          None \<Rightarrow> out ! i = CNull | Some w \<Rightarrow> holds L (snd (cols ! i)) w (out ! i)))"

definition row_unwritable :: "lib \<Rightarrow> tcolumn list \<Rightarrow> raw_column list \<Rightarrow> json \<Rightarrow> bool" where
  "row_unwritable L cols columns row \<longleftrightarrow>
     list_ex (\<lambda>(name, t). case column_named columns name of
        None \<Rightarrow> False
      | Some c \<Rightarrow> (case value_at c row of None \<Rightarrow> False | Some w \<Rightarrow> unwritable L t w)) cols"

definition types_filled :: "tcolumn list \<Rightarrow> bool" where
  "types_filled cols \<longleftrightarrow> (\<forall>c \<in> set cols. raw_fill_supported (snd c))"

lemma cell_in_filled: "raw_fill_supported t \<Longrightarrow> cell_in L t c row = fill_value L t (value_at c row)"
  by (simp add: cell_in_def value_at_def del: raw_fill_supported.simps)

lemma row_cells_result:
  assumes "types_filled cols"
  shows "if row_unwritable L cols columns row then row_cells L cols columns row = Inl serialize_error
    else \<exists>out. row_cells L cols columns row = Inr out"
proof -
  let ?f = "\<lambda>(name, t). case column_named columns name of None \<Rightarrow> Inr CNull | Some c \<Rightarrow> cell_in L t c row"
  let ?u = "\<lambda>(name, t). case column_named columns name of
        None \<Rightarrow> False
      | Some c \<Rightarrow> (case value_at c row of None \<Rightarrow> False | Some w \<Rightarrow> unwritable L t w)"
  have cell: "if ?u x then ?f x = Inl serialize_error else \<exists>c. ?f x = Inr c" if "x \<in> set cols" for x
  proof -
    obtain name t where x: "x = (name, t)" by (cases x)
    have t: "raw_fill_supported t" using assms that x by (auto simp: types_filled_def)
    show ?thesis
    proof (cases "column_named columns name")
      case (Some c)
      show ?thesis
      proof (cases "value_at c row")
        case w: (Some w)
        with fill_value_result [of L t w] Some show ?thesis by (simp add: x cell_in_filled [OF t])
      qed (use Some in \<open>simp add: x cell_in_filled [OF t] fill_value_None\<close>)
    qed (simp add: x)
  qed
  then have "\<forall>x \<in> set cols. ?f x = Inl serialize_error \<or> (\<exists>y. ?f x = Inr y)"
    by (metis (no_types, lifting))
  note map_result_uniform [OF this]
  moreover have "list_ex ?u cols \<longleftrightarrow> (\<exists>x \<in> set cols. ?f x = Inl serialize_error)"
    unfolding list_ex_iff using cell by (metis (no_types, lifting) Inl_Inr_False)
  ultimately show ?thesis by (simp add: row_cells_def row_unwritable_def)
qed

lemma row_cells_holds:
  assumes inf: "infer_and_flatten L p = Inr parsed" and row: "row \<in> set (prows p)"
    and d: "distinct (map (lower \<circ> fst) existing)"
    and sup: "types_filled (evolved_columns existing (pcolumns parsed))"
    and out: "row_cells L (evolved_columns existing (pcolumns parsed)) (pcolumns parsed) row = Inr out"
  shows "row_holds L (evolved_columns existing (pcolumns parsed)) (pcolumns parsed) row out"
proof -
  let ?cs = "pcolumns parsed" and ?cols = "evolved_columns existing (pcolumns parsed)"
  have dc: "distinct (map (lower \<circ> cname) ?cs)"
    using infer_and_flatten_ok [OF inf] unfolding payload_ok_def by blast
  have len: "length out = length ?cols" using out by (simp add: row_cells_def map_result_length)
  have "case column_named ?cs (fst (?cols ! i)) of None \<Rightarrow> out ! i = CNull
      | Some c \<Rightarrow> (case value_at c row of
          None \<Rightarrow> out ! i = CNull | Some w \<Rightarrow> holds L (snd (?cols ! i)) w (out ! i))"
    if i: "i < length ?cols" for i
  proof -
    have T: "raw_fill_supported (snd (?cols ! i))" using sup i by (simp add: types_filled_def)
    have nth: "(case column_named ?cs (fst (?cols ! i)) of None \<Rightarrow> Inr CNull
        | Some c \<Rightarrow> cell_in L (snd (?cols ! i)) c row) = Inr (out ! i)"
      using map_result_nth [OF out [unfolded row_cells_def] i] by (simp add: case_prod_beta)
    show ?thesis
    proof (cases "column_named ?cs (fst (?cols ! i))")
      case (Some c)
      then have c: "c \<in> set ?cs" "lower (cname c) = lower (fst (?cols ! i))"
        by (auto simp: column_named_def find_Some_iff)
      have ix: "column_index ?cols (cname c) = Some i"
        using c(2) i by (intro column_index_nth evolved_columns_distinct [OF d dc]) simp_all
      have Tj: "snd (?cols ! i) = (if column_exists existing (cname c)
          then join_column_types (column_type existing (cname c)) (ctype c) else ctype c)"
        using evolved_columns_find [OF dc c(1), of existing] ix by auto
      have fill: "fill_value L (snd (?cols ! i)) (value_at c row) = Inr (out ! i)"
        using nth Some by (simp add: cell_in_filled [OF T])
      show ?thesis
      proof (cases "value_at c row")
        case None
        then show ?thesis using fill Some by (simp add: fill_value_None)
      next
        case w: (Some w)
        obtain s d where s: "ctype c = schema_type s" "accepts L s d w"
          using column_accepts [OF inf c(1) row w [unfolded value_at_def]] by blast
        have "keeps L (snd (?cols ! i)) w"
          using widened_keeps [OF s(2)] accepts_keeps [OF s(2)] T
          by (auto simp: Tj s(1) simp del: raw_fill_supported.simps split: if_splits)
        from keeps_holds [OF this] fill w Some show ?thesis by simp
      qed
    qed (use nth in simp)
  qed
  with len show ?thesis by (simp add: row_holds_def)
qed

subsection \<open>An append that fails\<close>

lemma fill_slot_result:
  assumes "raw_fill_supported T"
  shows "if \<exists>w. Some w \<in> set vals \<and> unwritable L T w then fill_slot L T ct vals = Inl serialize_error
    else \<exists>cs. fill_slot L T ct vals = Inr cs"
proof -
  have cell: "if \<exists>w. x = Some w \<and> unwritable L T w then fill_value L T x = Inl serialize_error
      else \<exists>c. fill_value L T x = Inr c" for x
    using fill_value_result [of L T] by (cases x) (simp_all add: fill_value_None)
  then have "\<forall>x \<in> set vals. fill_value L T x = Inl serialize_error \<or> (\<exists>y. fill_value L T x = Inr y)" by metis
  note uniform = map_result_uniform [OF this]
  have ex: "(\<exists>x \<in> set vals. fill_value L T x = Inl serialize_error) \<longleftrightarrow> (\<exists>w. Some w \<in> set vals \<and> unwritable L T w)"
    using cell by (metis Inl_Inr_False)
  have "case map_result (fill_value L T) vals of
      Inl e \<Rightarrow> fill_vector L vals T (new_vec T) 0 = Inl e
    | Inr cs \<Rightarrow> \<exists>v'. fill_vector L vals T (new_vec T) 0 = Inr v' \<and> vec_ok T v' \<and>
        cells v' = take 0 (cells (new_vec T)) @ cs"
    by (rule fillsD [OF fill_vector_refines new_vec_ok(1)]) simp
  with uniform ex assms show ?thesis
    by (auto simp: fill_slot_def simp del: raw_fill_supported.simps split: sum.splits)
qed

lemma fill_columns_fail:
  assumes "\<forall>(slot, c, vals) \<in> set xs.
      fill_slot L (snd (cols ! slot)) (ctype c) vals = Inl e \<or> (\<exists>cs. fill_slot L (snd (cols ! slot)) (ctype c) vals = Inr cs)"
    and "\<exists>(slot, c, vals) \<in> set xs. fill_slot L (snd (cols ! slot)) (ctype c) vals = Inl e"
  shows "fill_columns L cols xs chunk = Inl e"
  using assms
proof (induction xs arbitrary: chunk)
  case (Cons x xs)
  obtain slot c vals where x: "x = (slot, c, vals)" by (cases x)
  show ?case
  proof (cases "fill_slot L (snd (cols ! slot)) (ctype c) vals")
    case (Inl e')
    with Cons.prems(1) x show ?thesis by auto
  next
    case (Inr cs)
    with Cons.prems x have "fill_columns L cols xs (chunk[slot := cs]) = Inl e" by (intro Cons.IH) auto
    with Inr x show ?thesis by simp
  qed
qed simp

lemma append_chunk_fails:
  assumes ok: "payload_ok p" and lay: "layout_of cols (pcolumns p) slot_of" and sup: "types_filled cols"
    and bad: "row \<in> set rows" "row_unwritable L cols (pcolumns p) row"
  shows "append_chunk L cols (proot p) (pcolumns p) slot_of rows = Inl serialize_error"
proof -
  obtain e where e: "extract_batch (proot p) (pcolumns p) rows = Inr e"
    and slots: "slots e = map (\<lambda>c. map (value_at c) rows) (pcolumns p)"
    using ok unfolding payload_ok_def value_at_def by blast
  let ?xs = "zip slot_of (zip (pcolumns p) (slots e))"
  have len: "length slot_of = length (pcolumns p)" using lay by (auto simp: layout_of_def dest: list_all2_lengthD)
  have slot: "slot < length cols" if "(slot, c, vals) \<in> set ?xs" for slot c vals
    using that lay column_index_Some by (fastforce simp: in_set_zip layout_of_def list_all2_conv_all_nth)
  have each: "if \<exists>w. Some w \<in> set vals \<and> unwritable L (snd (cols ! slot)) w
      then fill_slot L (snd (cols ! slot)) (ctype c) vals = Inl serialize_error
      else \<exists>cs. fill_slot L (snd (cols ! slot)) (ctype c) vals = Inr cs" if "(slot, c, vals) \<in> set ?xs" for slot c vals
    using fill_slot_result sup slot [OF that] by (simp add: types_filled_def)
  obtain s c w where s: "s < length cols" "column_named (pcolumns p) (fst (cols ! s)) = Some c"
      "value_at c row = Some w" "unwritable L (snd (cols ! s)) w"
    using bad(2) by (fastforce simp: row_unwritable_def list_ex_iff in_set_conv_nth split: option.splits)
  obtain i where i: "i < length (pcolumns p)" "pcolumns p ! i = c" "lower (cname c) = lower (fst (cols ! s))"
    using s(2) by (auto simp: column_named_def find_Some_iff)
  have "column_index cols (cname c) = Some s"
    using lay i(3) s(1) by (intro column_index_nth) (auto simp: layout_of_def)
  then have "slot_of ! i = s" using lay i by (auto simp: layout_of_def list_all2_conv_all_nth)
  then have "(s, c, map (value_at c) rows) \<in> set ?xs" using i len by (auto simp: in_set_zip slots)
  moreover have "\<exists>w. Some w \<in> set (map (value_at c) rows) \<and> unwritable L (snd (cols ! s)) w"
    using s(3,4) bad(1) by (force simp: image_iff)
  ultimately have "fill_columns L cols ?xs chunk = Inl serialize_error" for chunk
    using each by (intro fill_columns_fail) (fastforce split: if_splits)+
  then show ?thesis by (simp add: append_chunk_def e)
qed

lemma append_native_fails:
  assumes "payload_ok p" "layout_of (tcols t) (pcolumns p) slot_of" "\<not> tgenerated t"
    and "\<And>out. append_ok L name out" "types_filled (tcols t)"
    and "row \<in> set (prows (payload p))" "row_unwritable L (tcols t) (pcolumns p) row"
  shows "append_native L name slot_of p t = Inl serialize_error"
proof -
  let ?chunks = "chunks_of STANDARD_VECTOR_SIZE (prows (payload p))"
  let ?f = "\<lambda>rows. bind_result (append_chunk L (tcols t) (proot p) (pcolumns p) slot_of rows)
      (\<lambda>out. if append_ok L name out then Inr out else Inl (InvalidInput ''constraint violated''))"
  have "?f rows = Inl serialize_error \<or> (\<exists>out. ?f rows = Inr out)" for rows
  proof (cases "\<exists>row \<in> set rows. row_unwritable L (tcols t) (pcolumns p) row")
    case True
    with append_chunk_fails [OF assms(1,2,5)] show ?thesis by fastforce
  next
    case False
    then have "\<exists>out. map_result (row_cells L (tcols t) (pcolumns p)) rows = Inr out"
      using row_cells_result [OF assms(5)] by (intro map_result_ex) (meson)
    with append_chunk_rows [OF assms(1,2)] assms(4) show ?thesis by fastforce
  qed
  note uniform = map_result_uniform [of ?chunks ?f serialize_error]
  have "concat ?chunks = prows (payload p)"
    by (rule concat_chunks) (simp add: STANDARD_VECTOR_SIZE_def)
  then obtain rows where "rows \<in> set ?chunks" "row \<in> set rows" using assms(6) by (metis UN_E set_concat)
  moreover from this have "?f rows = Inl serialize_error"
    using append_chunk_fails [OF assms(1,2,5) _ assms(7)] by simp
  ultimately have "map_result ?f ?chunks = Inl serialize_error"
    using uniform \<open>\<And>rows. ?f rows = Inl serialize_error \<or> (\<exists>out. ?f rows = Inr out)\<close> by blast
  with assms(3) show ?thesis by (simp add: append_native_def)
qed

section \<open>Properties\<close>

text \<open>
  Property C5: evolving a table for a payload and appending the payload loses nothing. Evolving
  fails exactly when some cell of an old row does not convert to its column's joined type.
  Otherwise the table keeps its columns in place with the joined types and gets the missing ones
  at the end, and every old row keeps its cells, converted where the type changed and padded with
  NULL. The append fails exactly when a payload row has a value that cannot be written as text
  into its column. Otherwise every payload row becomes one new row, in order, whose cells hold
  the row's values.
\<close>

theorem evolve_append_lossless:
  assumes "table_ok t" "\<not> tgenerated t" "\<And>out. append_ok L name out"
    and "infer_and_flatten L p = Inr parsed"
    and "types_filled (evolved_columns (tcols t) (pcolumns parsed))"
  shows "case evolve_native L (tcols t) (pcolumns parsed) fresh t of
      Inl e \<Rightarrow> \<exists>row \<in> set (trows t). \<not> row_converts L (pcolumns parsed) (tcols t) row
    | Inr (t1, fresh', added, widened) \<Rightarrow>
        (\<forall>row \<in> set (trows t). row_converts L (pcolumns parsed) (tcols t) row) \<and>
        tcols t1 = evolved_columns (tcols t) (pcolumns parsed) \<and>
        list_all2 (row_evolves L (pcolumns parsed) (tcols t)
          (length (fst (compute_delta (tcols t) (pcolumns parsed))))) (trows t) (trows t1) \<and>
        (\<exists>slot_of. resolve_append_layout (tcols t1) (pcolumns parsed) = Inr slot_of \<and>
          (if \<exists>row \<in> set (prows p). row_unwritable L (tcols t1) (pcolumns parsed) row
           then append_native L name slot_of parsed t1 = Inl serialize_error
           else \<exists>news. append_native L name slot_of parsed t1 = Inr (t1\<lparr>trows := trows t1 @ news\<rparr>) \<and>
             table_ok (t1\<lparr>trows := trows t1 @ news\<rparr>) \<and>
             list_all2 (row_holds L (tcols t1) (pcolumns parsed)) (prows p) news))"
proof (cases "evolve_native L (tcols t) (pcolumns parsed) fresh t")
  case (Inl e)
  have "distinct (map (lower \<circ> cname) (pcolumns parsed))"
    using infer_and_flatten_ok [OF assms(4)] unfolding payload_ok_def by blast
  from evolve_native_defined [OF assms(1) this, of L fresh] Inl show ?thesis by auto
next
  case (Inr r)
  then obtain t1 fresh' added widened where
    ev: "evolve_native L (tcols t) (pcolumns parsed) fresh t = Inr (t1, fresh', added, widened)"
    by (metis prod_cases4)
  let ?cs = "pcolumns parsed"
  have ok: "payload_ok parsed" and prows: "prows (payload parsed) = prows p"
    using infer_and_flatten_ok [OF assms(4)] assms(4) by (auto simp: infer_and_flatten_def Let_def)
  have dc: "distinct (map (lower \<circ> cname) ?cs)" using ok unfolding payload_ok_def by blast
  have dt: "distinct (map (lower \<circ> fst) (tcols t))" and rl: "\<forall>row \<in> set (trows t). length row = length (tcols t)"
    using assms(1) unfolding table_ok_def by blast+
  from evolve_native_spec [OF ev dc dt, of "tcols t" "[]"] rl
  have cols: "tcols t1 = evolved_columns (tcols t) ?cs"
    and olds: "list_all2 (row_evolves L ?cs (tcols t) (length (fst (compute_delta (tcols t) ?cs))))
      (trows t) (trows t1)"
    by (simp_all add: evolved_columns_def)
  have conv: "\<forall>row \<in> set (trows t). row_converts L ?cs (tcols t) row"
    using olds row_evolves_converts by (fastforce simp: list_all2_conv_all_nth in_set_conv_nth)
  obtain slot_of where lay: "resolve_append_layout (tcols t1) ?cs = Inr slot_of"
      "layout_of (tcols t1) ?cs slot_of"
    using evolved_layout [OF dt dc] cols by auto
  have gen: "\<not> tgenerated t1" using assms(2) ev evolve_native_flags by blast
  have sup: "types_filled (tcols t1)" using assms(5) cols by simp
  have "if \<exists>row \<in> set (prows p). row_unwritable L (tcols t1) ?cs row
      then append_native L name slot_of parsed t1 = Inl serialize_error
      else \<exists>news. append_native L name slot_of parsed t1 = Inr (t1\<lparr>trows := trows t1 @ news\<rparr>) \<and>
        table_ok (t1\<lparr>trows := trows t1 @ news\<rparr>) \<and> list_all2 (row_holds L (tcols t1) ?cs) (prows p) news"
  proof (cases "\<exists>row \<in> set (prows p). row_unwritable L (tcols t1) ?cs row")
    case True
    then show ?thesis using append_native_fails [OF ok lay(2) gen assms(3) sup] prows by auto
  next
    case False
    then have "\<exists>news. map_result (row_cells L (tcols t1) ?cs) (prows p) = Inr news"
      using row_cells_result [OF sup] by (intro map_result_ex) meson
    then obtain news where news: "map_result (row_cells L (tcols t1) ?cs) (prows p) = Inr news" by blast
    then have holds: "list_all2 (row_holds L (tcols t1) ?cs) (prows p) news"
      unfolding map_result_iff
      by (rule list.rel_mono_strong) (use row_cells_holds [OF assms(4) _ dt assms(5)] cols in simp)
    have "length row = length (tcols t1)" if "row \<in> set (trows t1)" for row
      using list_all2_set_right [OF olds that] rl by (auto simp: row_evolves_def cols evolved_columns_def)
    moreover have "length row = length (tcols t1)" if "row \<in> set news" for row
      using list_all2_set_right [OF holds that] by (auto simp: row_holds_def)
    ultimately have "table_ok (t1\<lparr>trows := trows t1 @ news\<rparr>)"
      using evolved_columns_distinct [OF dt dc] cols by (auto simp: table_ok_def)
    moreover have "append_native L name slot_of parsed t1 = Inr (t1\<lparr>trows := trows t1 @ news\<rparr>)"
      using append_native_rows [OF ok lay(2) gen assms(3)] news prows by simp
    ultimately show ?thesis using False holds by auto
  qed
  with ev conv cols olds lay(1) show ?thesis by auto
qed

definition sample_payload :: raw_payload where
  "sample_payload = new_payload\<lparr>prows := sample_rows\<rparr>"

definition sample_parsed :: parsed_payload where
  "sample_parsed = \<lparr>payload = sample_payload, proot = infer_schema sample_lib sample_rows,
     pcolumns = sample_cols\<rparr>"

definition sample_table :: table where
  "sample_table = \<lparr>tcols = [(''ID'', TBigint)], trows = [[CBigint 5]], ttoken = 0,
     tgenerated = False, tindexes = False, tconstraints = False\<rparr>"

definition evolved_sample :: table where
  "evolved_sample = sample_table\<lparr>tcols := [(''ID'', TDouble), (''at'', TDate), (''u.n'', TVarchar),
     (''tags'', TList TVarchar)], trows := [[CBigint 5, CNull, CNull, CNull]], ttoken := 4\<rparr>"

lemma sample_parsed_inferred: "infer_and_flatten sample_lib sample_payload = Inr sample_parsed"
  using sample_flattens
  by (simp add: infer_and_flatten_def sample_parsed_def sample_payload_def new_payload_def)

lemma sample_evolves:
  "evolve_native sample_lib (tcols sample_table) sample_cols 1 sample_table =
     Inr (evolved_sample, 5, 3, 1)"
  by code_simp

theorem evolve_append_lossless_witness:
  "\<exists>slot_of t2 olds news. append_native sample_lib ''t'' slot_of sample_parsed evolved_sample = Inr t2 \<and>
     trows t2 = olds @ news \<and> length olds = 1 \<and> length news = 2 \<and>
     map snd (tcols t2) = [TDouble, TDate, TVarchar, TList TVarchar]"
proof -
  have ok: "table_ok sample_table" by (simp add: table_ok_def sample_table_def)
  have gen: "\<not> tgenerated sample_table" by (simp add: sample_table_def)
  have app: "append_ok sample_lib ''t'' out" for out by (simp add: sample_lib_def)
  have ev: "evolve_native sample_lib (tcols sample_table) (pcolumns sample_parsed) 1 sample_table =
      Inr (evolved_sample, 5, 3, 1)"
    using sample_evolves by (simp add: sample_parsed_def)
  have cols: "tcols evolved_sample = evolved_columns (tcols sample_table) (pcolumns sample_parsed)" by code_simp
  have sup: "types_filled (evolved_columns (tcols sample_table) (pcolumns sample_parsed))"
    unfolding cols [symmetric] by (simp add: types_filled_def evolved_sample_def)
  have writes: "\<not> (\<exists>row \<in> set (prows sample_payload). row_unwritable sample_lib (tcols evolved_sample) (pcolumns sample_parsed) row)"
    by code_simp
  from evolve_append_lossless [OF ok gen app sample_parsed_inferred sup, of 1] ev writes
  obtain slot_of news where r: "append_native sample_lib ''t'' slot_of sample_parsed evolved_sample =
      Inr (evolved_sample\<lparr>trows := trows evolved_sample @ news\<rparr>)"
    "list_all2 (row_holds sample_lib (tcols evolved_sample) (pcolumns sample_parsed)) (prows sample_payload) news"
    by auto
  have "length news = 2"
    using list_all2_lengthD [OF r(2)] by (simp add: sample_payload_def sample_rows_def)
  with r(1) show ?thesis
    by (intro exI [of _ slot_of] exI [of _ "evolved_sample\<lparr>trows := trows evolved_sample @ news\<rparr>"]
        exI [of _ "trows evolved_sample"] exI [of _ news]) (simp add: evolved_sample_def)
qed

end
