(* ===== verification/AppendPool.thy ===== *)
theory AppendPool
  imports Table
begin

text \<open>
  The append pool (\<^verbatim>\<open>RawAppendPool\<close>, \<^verbatim>\<open>raw_ingest.cpp\<close> lines 366 to 713): a queue of
  batches, workers with private collections whose layouts are prefixes of the published
  schema, publication of new columns without a barrier, and the draining merge. The pool is
  a step relation: submitting, publishing and a worker's turn happen in any order the lock
  allows. The theorem says the merged rows are those a serial append would have made, up to
  order.
\<close>

section \<open>State\<close>

text \<open>
  A worker: its layout, the rows of its collection and its layout cache. A worker's
  \<^verbatim>\<open>local_types\<close> and \<^verbatim>\<open>local_slots\<close> are one list of named columns here.
\<close>

record worker =
  wcols :: "tcolumn list"
  wrows :: "cell list list"
  wshape :: "64 word"
  wslots :: "nat list"

record append_pool =
  published :: "tcolumn list"
  workers :: "worker list"
  queue :: "parsed_payload list"
  stopped :: bool
  perror :: "raw_error option"
  max_queue_depth :: nat

definition new_pool :: "table \<Rightarrow> nat \<Rightarrow> nat \<Rightarrow> append_pool" where
  "new_pool t worker_count depth =
     \<lparr>published = tcols t,
      workers = replicate worker_count \<lparr>wcols = tcols t, wrows = [], wshape = 0, wslots = []\<rparr>,
      queue = [], stopped = False, perror = None, max_queue_depth = depth\<rparr>"

section \<open>Operations\<close>

text \<open>\<^verbatim>\<open>Submit\<close> after its wait: a stopped pool drops the batch.\<close>

definition pool_submit :: "parsed_payload \<Rightarrow> append_pool \<Rightarrow> append_pool" where
  "pool_submit parsed P = (if stopped P then P else P\<lparr>queue := queue P @ [parsed]\<rparr>)"

definition publish_columns :: "tcolumn list \<Rightarrow> append_pool \<Rightarrow> append_pool" where
  "publish_columns new_columns P =
     P\<lparr>published := published P @ new_columns,
       workers := map (\<lambda>w. w\<lparr>wshape := 0\<rparr>) (workers P)\<rparr>"

text \<open>The published columns the worker has not added yet.\<close>

definition pending_columns :: "tcolumn list \<Rightarrow> worker \<Rightarrow> tcolumn list" where
  "pending_columns pub w = drop (length (wcols w)) pub"

definition extend_worker :: "tcolumn list \<Rightarrow> worker \<Rightarrow> worker" where
  "extend_worker new_columns w =
     w\<lparr>wcols := wcols w @ new_columns,
       wrows := map (\<lambda>row. row @ replicate (length new_columns) CNull) (wrows w),
       wshape := 0\<rparr>"

definition extend_if_pending :: "tcolumn list \<Rightarrow> worker \<Rightarrow> worker" where
  "extend_if_pending pub w =
     (if pending_columns pub w = [] then w else extend_worker (pending_columns pub w) w)"

text \<open>The layout of a batch, from the cache when the shape is the cached one.\<close>

definition batch_layout :: "worker \<Rightarrow> raw_column list \<Rightarrow> 64 word \<Rightarrow> nat list result" where
  "batch_layout w columns shape =
     (if wshape w = shape \<and> length (wslots w) = length columns then Inr (wslots w)
      else map_result (\<lambda>c. case column_index (wcols w) (cname c) of
             None \<Rightarrow> Inl (InternalError ''column missing from append pool schema'')
           | Some i \<Rightarrow> Inr i) columns)"

definition batch_rows ::
    "lib \<Rightarrow> tcolumn list \<Rightarrow> nat list \<Rightarrow> parsed_payload \<Rightarrow> cell list list result" where
  "batch_rows L cols slot_of parsed =
     map_sum id concat (map_result (append_chunk L cols (proot parsed) (pcolumns parsed) slot_of)
       (chunks_of STANDARD_VECTOR_SIZE (prows (payload parsed))))"

definition append_batch :: "lib \<Rightarrow> parsed_payload \<Rightarrow> worker \<Rightarrow> worker result" where
  "append_batch L parsed w =
     bind_result (hash_payload_shape L (pcolumns parsed)) (\<lambda>shape.
     bind_result (batch_layout w (pcolumns parsed) shape) (\<lambda>slot_of.
       map_sum id (\<lambda>rows. w\<lparr>wrows := wrows w @ rows, wshape := shape, wslots := slot_of\<rparr>)
         (batch_rows L (wcols w) slot_of parsed)))"

text \<open>
  One turn of \<^verbatim>\<open>WorkerLoop\<close> of worker \<open>i\<close>: the batch at the head of the queue. An exception
  is stored (the first one stays) and stops the pool.
\<close>

definition worker_turn :: "lib \<Rightarrow> nat \<Rightarrow> append_pool \<Rightarrow> append_pool" where
  "worker_turn L i P =
     (let w = extend_if_pending (published P) (workers P ! i) in
      case append_batch L (hd (queue P)) w of
        Inr w' \<Rightarrow> P\<lparr>queue := tl (queue P), workers := (workers P)[i := w']\<rparr>
      | Inl e \<Rightarrow> P\<lparr>queue := tl (queue P), workers := (workers P)[i := w],
                   perror := (case perror P of None \<Rightarrow> Some e | Some e0 \<Rightarrow> Some e0), stopped := True\<rparr>)"

datatype pool_event = Submit parsed_payload | Publish "tcolumn list" | Turn nat

inductive pool_step :: "lib \<Rightarrow> append_pool \<Rightarrow> pool_event \<Rightarrow> append_pool \<Rightarrow> bool" for L where
  submit: "length (queue P) < max_queue_depth P \<or> stopped P \<Longrightarrow>
    pool_step L P (Submit parsed) (pool_submit parsed P)"
| publish: "pool_step L P (Publish new) (publish_columns new P)"
| turn: "i < length (workers P) \<Longrightarrow> queue P \<noteq> [] \<Longrightarrow> pool_step L P (Turn i) (worker_turn L i P)"

inductive_cases pool_stepE: "pool_step L P e Q"

text \<open>
  \<^verbatim>\<open>Drain\<close>: \<^verbatim>\<open>Stop\<close> lets the workers empty the queue (\<open>sched\<close> says which worker takes each
  remaining batch), then every worker is padded to the published schema and merged.
\<close>

fun run_queue :: "lib \<Rightarrow> nat list \<Rightarrow> append_pool \<Rightarrow> append_pool" where
  "run_queue L [] P = P"
| "run_queue L (i # sched) P = (if queue P = [] then P else run_queue L sched (worker_turn L i P))"

definition pool_drain :: "lib \<Rightarrow> nat list \<Rightarrow> append_pool \<Rightarrow> table \<Rightarrow> (table \<times> nat) result" where
  "pool_drain L sched P t =
     (let P = run_queue L sched (P\<lparr>stopped := True\<rparr>) in
      case perror P of
        Some e \<Rightarrow> Inl e
      | None \<Rightarrow>
          (let rows = concat (map (\<lambda>w. wrows (extend_if_pending (published P) w)) (workers P)) in
           Inr (t\<lparr>trows := trows t @ rows\<rparr>, length rows)))"

section \<open>The rows of a batch in a layout\<close>

definition rows_in :: "lib \<Rightarrow> tcolumn list \<Rightarrow> parsed_payload \<Rightarrow> cell list list result" where
  "rows_in L cols p = map_result (row_cells L cols (pcolumns p)) (prows (payload p))"

definition fits_layout :: "tcolumn list \<Rightarrow> parsed_payload \<Rightarrow> bool" where
  "fits_layout cols p \<longleftrightarrow> (\<forall>c \<in> set (pcolumns p). column_index cols (cname c) \<noteq> None)"

lemma row_cells_extend:
  assumes "fits_layout cols p" "distinct (map (lower \<circ> fst) (cols @ new))"
  shows "row_cells L (cols @ new) (pcolumns p) row =
    map_sum id (\<lambda>r. r @ replicate (length new) CNull) (row_cells L cols (pcolumns p) row)"
proof -
  have none: "column_named (pcolumns p) (fst c) = None" if c: "c \<in> set new" for c
  proof (rule column_named_None)
    show "lower (fst c) \<notin> (lower \<circ> cname) ` set (pcolumns p)"
    proof
      assume "lower (fst c) \<in> (lower \<circ> cname) ` set (pcolumns p)"
      then obtain d where d: "d \<in> set (pcolumns p)" "lower (cname d) = lower (fst c)" by auto
      with assms(1) have "column_index cols (cname d) \<noteq> None" by (simp add: fits_layout_def)
      then have "lower (fst c) \<in> (lower \<circ> fst) ` set cols"
        using d(2) column_index_None by metis
      moreover have "lower (fst c) \<in> (lower \<circ> fst) ` set new" using c by force
      ultimately show False using assms(2) by auto
    qed
  qed
  have "map_result (\<lambda>(name, ty). case column_named (pcolumns p) name of
      None \<Rightarrow> Inr CNull | Some c \<Rightarrow> cell_in L ty c row) new = Inr (map (\<lambda>_. CNull) new)"
    using none by (intro map_result_Inr) (force split: prod.splits)
  moreover have "map (\<lambda>_. CNull) new = replicate (length new) CNull" by (simp add: map_replicate_const)
  ultimately show ?thesis
    by (cases "row_cells L cols (pcolumns p) row") (simp_all add: row_cells_def map_result_append)
qed

lemma map_result_map_sum:
  "map_result (\<lambda>x. map_sum id g (f x)) xs = map_sum id (map g) (map_result f xs)"
proof (induction xs)
  case (Cons x xs)
  then show ?case by (cases "f x"; cases "map_result f xs") simp_all
qed simp

lemma rows_in_extend:
  assumes "fits_layout cols p" "distinct (map (lower \<circ> fst) (cols @ new))"
  shows "rows_in L (cols @ new) p =
    map_sum id (map (\<lambda>r. r @ replicate (length new) CNull)) (rows_in L cols p)"
  unfolding rows_in_def row_cells_extend [OF assms] map_result_map_sum ..

lemma batch_rows_in:
  assumes "payload_ok p" "layout_of cols (pcolumns p) slot_of" "rows_in L cols p = Inr out"
  shows "batch_rows L cols slot_of p = Inr out"
proof -
  let ?chunks = "chunks_of STANDARD_VECTOR_SIZE (prows (payload p))"
  have "concat ?chunks = prows (payload p)"
    by (rule concat_chunks) (simp add: STANDARD_VECTOR_SIZE_def)
  then obtain outs where outs: "map_result (map_result (row_cells L cols (pcolumns p))) ?chunks = Inr outs"
      "concat outs = out"
    using map_result_concat assms(3) unfolding rows_in_def by metis
  have "map_result (append_chunk L cols (proot p) (pcolumns p) slot_of) ?chunks = Inr outs"
    using outs(1) unfolding map_result_iff
    by (rule list_all2_mono) (simp add: append_chunk_rows [OF assms(1,2)] map_result_iff)
  with outs(2) show ?thesis by (simp add: batch_rows_def)
qed

section \<open>The invariant\<close>

definition rows_of :: "lib \<Rightarrow> tcolumn list \<Rightarrow> parsed_payload \<Rightarrow> cell list list" where
  "rows_of L cols p = projr (rows_in L cols p)"

text \<open>Equal shape hashes mean equal folded column names; the code relies on it.\<close>

definition shapes_separate :: "lib \<Rightarrow> parsed_payload set \<Rightarrow> bool" where
  "shapes_separate L S \<longleftrightarrow>
     (\<forall>p \<in> S. \<exists>h. hash_payload_shape L (pcolumns p) = Inr h \<and> h \<noteq> 0) \<and>
     (\<forall>p \<in> S. \<forall>q \<in> S. hash_payload_shape L (pcolumns p) = hash_payload_shape L (pcolumns q) \<longrightarrow>
        map (lower \<circ> cname) (pcolumns p) = map (lower \<circ> cname) (pcolumns q))"

definition batch_ready :: "lib \<Rightarrow> parsed_payload set \<Rightarrow> tcolumn list \<Rightarrow> parsed_payload \<Rightarrow> bool" where
  "batch_ready L S cols p \<longleftrightarrow>
     p \<in> S \<and> payload_ok p \<and> fits_layout cols p \<and> (\<exists>out. rows_in L cols p = Inr out)"

definition cache_ok :: "lib \<Rightarrow> parsed_payload set \<Rightarrow> worker \<Rightarrow> bool" where
  "cache_ok L S w \<longleftrightarrow>
     (\<forall>p \<in> S. wshape w \<noteq> 0 \<longrightarrow> hash_payload_shape L (pcolumns p) = Inr (wshape w) \<longrightarrow>
        layout_of (wcols w) (pcolumns p) (wslots w))"

definition worker_inv ::
    "lib \<Rightarrow> parsed_payload set \<Rightarrow> tcolumn list \<Rightarrow> worker \<Rightarrow> parsed_payload list \<Rightarrow> bool" where
  "worker_inv L S pub w ds \<longleftrightarrow>
     (\<exists>new. pub = wcols w @ new) \<and> (\<forall>p \<in> set ds. batch_ready L S (wcols w) p) \<and>
     wrows w = concat (map (rows_of L (wcols w)) ds) \<and> cache_ok L S w"

text \<open>\<open>dss\<close>: the batches each worker has appended; \<open>subs\<close>: the batches submitted.\<close>

definition pool_inv :: "lib \<Rightarrow> parsed_payload set \<Rightarrow> parsed_payload list \<Rightarrow> append_pool \<Rightarrow> bool" where
  "pool_inv L S subs P \<longleftrightarrow>
     perror P = None \<and> distinct (map (lower \<circ> fst) (published P)) \<and>
     (\<forall>p \<in> set subs. batch_ready L S (published P) p) \<and>
     (\<exists>dss. list_all2 (worker_inv L S (published P)) (workers P) dss \<and>
        mset subs = mset (queue P) + mset (concat dss))"

lemma batch_ready_extend:
  assumes "batch_ready L S cols p" "distinct (map (lower \<circ> fst) (cols @ new))"
  shows "batch_ready L S (cols @ new) p"
    and "rows_of L (cols @ new) p = map (\<lambda>r. r @ replicate (length new) CNull) (rows_of L cols p)"
proof -
  have fit: "fits_layout cols p" using assms(1) by (simp add: batch_ready_def)
  obtain out where out: "rows_in L cols p = Inr out" using assms(1) by (auto simp: batch_ready_def)
  have "fits_layout (cols @ new) p"
    using fit by (auto simp: fits_layout_def column_index_append split: option.splits)
  then show "batch_ready L S (cols @ new) p"
    using assms(1) rows_in_extend [OF fit assms(2)] out by (simp add: batch_ready_def)
  show "rows_of L (cols @ new) p = map (\<lambda>r. r @ replicate (length new) CNull) (rows_of L cols p)"
    using rows_in_extend [OF fit assms(2)] out by (simp add: rows_of_def)
qed

lemma extend_worker_inv:
  assumes "worker_inv L S pub w ds" "distinct (map (lower \<circ> fst) pub)"
  shows "worker_inv L S pub (extend_if_pending pub w) ds \<and> wcols (extend_if_pending pub w) = pub"
proof -
  obtain new where new: "pub = wcols w @ new" using assms(1) by (auto simp: worker_inv_def)
  show ?thesis
  proof (cases "new = []")
    case True
    with new assms(1) show ?thesis by (simp add: extend_if_pending_def pending_columns_def)
  next
    case False
    have ready: "\<forall>p \<in> set ds. batch_ready L S pub p \<and>
        rows_of L pub p = map (\<lambda>r. r @ replicate (length new) CNull) (rows_of L (wcols w) p)"
      using assms new batch_ready_extend unfolding worker_inv_def by blast
    have "map (\<lambda>r. r @ replicate (length new) CNull) (concat (map (rows_of L (wcols w)) ds)) =
        concat (map (rows_of L pub) ds)"
      using ready by (simp add: map_concat comp_def cong: map_cong)
    with False new assms(1) ready show ?thesis
      by (simp add: extend_if_pending_def pending_columns_def extend_worker_def worker_inv_def
          cache_ok_def)
  qed
qed

lemma column_index_lower: "lower a = lower b \<Longrightarrow> column_index cols a = column_index cols b"
  by (induction cols a rule: column_index.induct) simp_all

lemma layout_of_names:
  assumes "layout_of cols ps slot_of" "map (lower \<circ> cname) ps = map (lower \<circ> cname) qs"
  shows "layout_of cols qs slot_of"
proof -
  have len: "length ps = length qs" using assms(2) by (metis length_map)
  have "column_index cols (cname (qs ! i)) = column_index cols (cname (ps ! i))" if "i < length qs" for i
  proof (rule column_index_lower)
    have "map (lower \<circ> cname) ps ! i = map (lower \<circ> cname) qs ! i" using assms(2) by simp
    with that len have "lower (cname (ps ! i)) = lower (cname (qs ! i))"
      by (simp only: nth_map comp_apply)
    then show "lower (cname (qs ! i)) = lower (cname (ps ! i))" by (rule sym)
  qed
  then show ?thesis
    using assms(1) unfolding layout_of_def list_all2_conv_all_nth len by (simp only:) blast
qed

lemma append_batch_inv:
  assumes w: "worker_inv L S pub w ds" "wcols w = pub" "distinct (map (lower \<circ> fst) pub)"
    and p: "batch_ready L S pub p" and S: "shapes_separate L S"
  shows "\<exists>w'. append_batch L p w = Inr w' \<and> worker_inv L S pub w' (ds @ [p])"
proof -
  have pS: "p \<in> S" and ok: "payload_ok p" using p by (auto simp: batch_ready_def)
  obtain h where h: "hash_payload_shape L (pcolumns p) = Inr h" "h \<noteq> 0"
    using S pS unfolding shapes_separate_def by blast
  obtain out where out: "rows_in L pub p = Inr out" using p by (auto simp: batch_ready_def)
  have "\<exists>slot_of. batch_layout w (pcolumns p) h = Inr slot_of \<and> layout_of pub (pcolumns p) slot_of"
  proof (cases "wshape w = h \<and> length (wslots w) = length (pcolumns p)")
    case True
    then show ?thesis
      using w(1,2) pS h by (auto simp: batch_layout_def worker_inv_def cache_ok_def)
  next
    case False
    have "\<exists>slot_of. map_result (\<lambda>c. case column_index pub (cname c) of
             None \<Rightarrow> Inl (InternalError ''column missing from append pool schema'')
           | Some i \<Rightarrow> Inr i) (pcolumns p) = Inr slot_of"
      using p by (intro map_result_ex) (auto simp: batch_ready_def fits_layout_def)
    then show ?thesis
      using False w(2,3)
      by (auto simp: batch_layout_def layout_of_def map_result_iff elim!: list_all2_mono split: option.splits)
  qed
  then obtain slot_of where lay: "batch_layout w (pcolumns p) h = Inr slot_of"
      "layout_of pub (pcolumns p) slot_of" by blast
  have rows: "batch_rows L pub slot_of p = Inr (rows_of L pub p)"
    using batch_rows_in [OF ok lay(2) out] out by (simp add: rows_of_def)
  let ?w = "w\<lparr>wrows := wrows w @ rows_of L pub p, wshape := h, wslots := slot_of\<rparr>"
  have "cache_ok L S ?w"
    unfolding cache_ok_def
  proof (intro ballI impI)
    fix q assume q: "q \<in> S" "hash_payload_shape L (pcolumns q) = Inr (wshape ?w)"
    have "hash_payload_shape L (pcolumns p) = hash_payload_shape L (pcolumns q)"
      unfolding q(2) h(1) by simp
    then have "map (lower \<circ> cname) (pcolumns p) = map (lower \<circ> cname) (pcolumns q)"
      by (rule S [unfolded shapes_separate_def, THEN conjunct2, rule_format, OF pS q(1)])
    from layout_of_names [OF lay(2) this] w(2)
    show "layout_of (wcols ?w) (pcolumns q) (wslots ?w)" by simp
  qed
  moreover have "wcols ?w = pub" "wrows ?w = wrows w @ rows_of L pub p" using w(2) by simp_all
  moreover have "wrows w = concat (map (rows_of L pub) ds)" "\<forall>q \<in> set ds. batch_ready L S pub q"
    using w(1) unfolding worker_inv_def w(2) by simp_all
  ultimately have "worker_inv L S pub ?w (ds @ [p])" using p by (simp add: worker_inv_def)
  moreover have "append_batch L p w = Inr ?w"
    unfolding append_batch_def h(1) bind_result_simps lay(1) w(2) rows by simp
  ultimately show ?thesis by blast
qed

lemma worker_turn_inv:
  assumes P: "pool_inv L S subs P" and i: "i < length (workers P)" and q: "queue P \<noteq> []"
    and S: "shapes_separate L S"
  shows "pool_inv L S subs (worker_turn L i P) \<and> queue (worker_turn L i P) = tl (queue P) \<and>
    length (workers (worker_turn L i P)) = length (workers P) \<and>
    published (worker_turn L i P) = published P"
proof -
  obtain dss where d: "list_all2 (worker_inv L S (published P)) (workers P) dss"
      "mset subs = mset (queue P) + mset (concat dss)"
    and dist: "distinct (map (lower \<circ> fst) (published P))"
    using P by (auto simp: pool_inv_def)
  obtain p qs where queue: "queue P = p # qs" using q by (cases "queue P") auto
  then have "p \<in># mset subs" using d(2) by simp
  then have ready: "batch_ready L S (published P) p" using P by (simp add: pool_inv_def)
  have wi: "worker_inv L S (published P) (workers P ! i) (dss ! i)"
    using d(1) i by (simp add: list_all2_conv_all_nth)
  from append_batch_inv [OF extend_worker_inv [OF wi dist, THEN conjunct1]
      extend_worker_inv [OF wi dist, THEN conjunct2] dist ready S]
  obtain w' where w': "append_batch L p (extend_if_pending (published P) (workers P ! i)) = Inr w'"
      "worker_inv L S (published P) w' (dss ! i @ [p])" by blast
  have turn: "worker_turn L i P = P\<lparr>queue := qs, workers := (workers P)[i := w']\<rparr>"
    using queue w' by (simp add: worker_turn_def)
  have len: "i < length dss" using d(1) i by (simp add: list_all2_lengthD)
  have all: "list_all2 (worker_inv L S (published P)) ((workers P)[i := w']) (dss[i := dss ! i @ [p]])"
    using d(1) w'(2) by (rule list_all2_update_cong)
  have "mset (concat (dss[i := dss ! i @ [p]])) = add_mset p (mset (concat dss))"
  proof -
    have "dss = take i dss @ dss ! i # drop (Suc i) dss" using len by (simp add: id_take_nth_drop)
    then have "mset (concat dss) = mset (concat (take i dss)) + mset (dss ! i) + mset (concat (drop (Suc i) dss))"
      by (metis concat.simps(2) concat_append mset_append union_assoc)
    moreover have "dss[i := dss ! i @ [p]] = take i dss @ (dss ! i @ [p]) # drop (Suc i) dss"
      using len by (simp add: upd_conv_take_nth_drop)
    ultimately show ?thesis by simp
  qed
  then have "mset subs = mset qs + mset (concat (dss[i := dss ! i @ [p]]))"
    using d(2) queue by simp
  with all P show ?thesis unfolding turn by (auto simp: pool_inv_def queue)
qed

lemma publish_inv:
  assumes "pool_inv L S subs P" "distinct (map (lower \<circ> fst) (published P @ new))"
  shows "pool_inv L S subs (publish_columns new P)"
proof -
  obtain dss where d: "list_all2 (worker_inv L S (published P)) (workers P) dss"
      "mset subs = mset (queue P) + mset (concat dss)"
    using assms(1) by (auto simp: pool_inv_def)
  have "list_all2 (worker_inv L S (published P @ new)) (map (\<lambda>w. w\<lparr>wshape := 0\<rparr>) (workers P)) dss"
    using d(1) by (auto simp: list_all2_map1 worker_inv_def cache_ok_def elim!: list_all2_mono)
  moreover have "\<forall>p \<in> set subs. batch_ready L S (published P @ new) p"
    using assms batch_ready_extend(1) by (auto simp: pool_inv_def)
  ultimately show ?thesis
    using assms d(2) by (auto simp: pool_inv_def publish_columns_def)
qed

lemma submit_inv:
  assumes "pool_inv L S subs P" "batch_ready L S (published P) p" "\<not> stopped P"
  shows "pool_inv L S (subs @ [p]) (pool_submit p P)"
proof -
  obtain dss where "list_all2 (worker_inv L S (published P)) (workers P) dss"
      "mset subs = mset (queue P) + mset (concat dss)"
    using assms(1) by (auto simp: pool_inv_def)
  then show ?thesis
    using assms by (auto simp: pool_inv_def pool_submit_def intro!: exI [of _ dss])
qed

section \<open>Runs\<close>

text \<open>
  The client's side: a batch is submitted after its columns were published, and published
  columns are new to the table. The state carries the batches submitted so far.
\<close>

fun event_ok :: "lib \<Rightarrow> parsed_payload set \<Rightarrow> append_pool \<Rightarrow> pool_event \<Rightarrow> bool" where
  "event_ok L S P (Submit p) \<longleftrightarrow> batch_ready L S (published P) p"
| "event_ok L S P (Publish new) \<longleftrightarrow> distinct (map (lower \<circ> fst) (published P @ new))"
| "event_ok L S P (Turn i) \<longleftrightarrow> True"

fun submitted_by :: "pool_event \<Rightarrow> parsed_payload list" where
  "submitted_by (Submit p) = [p]"
| "submitted_by (Publish new) = []"
| "submitted_by (Turn i) = []"

type_synonym pool_state = "parsed_payload list \<times> append_pool"

definition pool_move :: "lib \<Rightarrow> parsed_payload set \<Rightarrow> pool_state \<Rightarrow> pool_state \<Rightarrow> bool" where
  "pool_move L S s s' \<longleftrightarrow>
     (\<exists>e. event_ok L S (snd s) e \<and> pool_step L (snd s) e (snd s') \<and> fst s' = fst s @ submitted_by e)"

definition pool_start :: "lib \<Rightarrow> parsed_payload set \<Rightarrow> pool_state \<Rightarrow> bool" where
  "pool_start L S s \<longleftrightarrow> shapes_separate L S \<and>
     (\<exists>t n depth. distinct (map (lower \<circ> fst) (tcols t)) \<and> s = ([], new_pool t n depth))"

definition pool_running :: "lib \<Rightarrow> parsed_payload set \<Rightarrow> pool_state \<Rightarrow> bool" where
  "pool_running L S s \<longleftrightarrow>
     shapes_separate L S \<and> pool_inv L S (fst s) (snd s) \<and> \<not> stopped (snd s)"

lemma worker_turn_stopped:
  assumes "pool_inv L S subs P" "i < length (workers P)" "queue P \<noteq> []" "shapes_separate L S"
  shows "stopped (worker_turn L i P) = stopped P"
proof -
  have "perror (worker_turn L i P) = None"
    using worker_turn_inv [OF assms] by (auto simp: pool_inv_def)
  then show ?thesis by (auto simp: worker_turn_def Let_def split: sum.splits option.splits)
qed

lemma new_pool_inv:
  "distinct (map (lower \<circ> fst) (tcols t)) \<Longrightarrow> pool_inv L S [] (new_pool t n depth)"
proof -
  assume "distinct (map (lower \<circ> fst) (tcols t))"
  moreover have "list_all2 (worker_inv L S (tcols t)) (workers (new_pool t n depth)) (replicate n [])"
    by (simp add: new_pool_def list_all2_conv_all_nth worker_inv_def cache_ok_def)
  moreover have "mset [] = mset (queue (new_pool t n depth)) + mset (concat (replicate n []))"
    by (simp add: new_pool_def)
  ultimately show ?thesis
    unfolding pool_inv_def by (intro conjI exI [of _ "replicate n []"]) (simp_all add: new_pool_def)
qed

interpretation pool: inductive_invariant "pool_start L S" "pool_move L S" "pool_running L S" for L S
proof
  fix s assume "pool_start L S s"
  then show "pool_running L S s"
    using new_pool_inv by (auto simp: pool_start_def pool_running_def) (simp add: new_pool_def)
next
  fix s s' assume inv: "pool_running L S s" and "pool_move L S s s'"
  then obtain e where e: "event_ok L S (snd s) e" "pool_step L (snd s) e (snd s')"
      "fst s' = fst s @ submitted_by e"
    unfolding pool_move_def by blast
  from inv have I: "shapes_separate L S" "pool_inv L S (fst s) (snd s)" "\<not> stopped (snd s)"
    by (simp_all add: pool_running_def)
  consider (submit) p where "e = Submit p" "snd s' = pool_submit p (snd s)"
    | (publish) new where "e = Publish new" "snd s' = publish_columns new (snd s)"
    | (turn) i where "e = Turn i" "snd s' = worker_turn L i (snd s)" "i < length (workers (snd s))"
        "queue (snd s) \<noteq> []"
    using e(2) by (auto elim: pool_stepE)
  then show "pool_running L S s'"
  proof cases
    case (submit p)
    then show ?thesis
      using submit_inv [OF I(2) _ I(3)] I e by (simp add: pool_running_def pool_submit_def)
  next
    case (publish new)
    then show ?thesis
      using publish_inv [OF I(2)] I e by (simp add: pool_running_def) (simp add: publish_columns_def)
  next
    case (turn i)
    then show ?thesis
      using worker_turn_inv [OF I(2) _ _ I(1)] worker_turn_stopped [OF I(2) _ _ I(1)] I e
      by (simp add: pool_running_def)
  qed
qed

section \<open>Draining\<close>

lemma run_queue_inv:
  assumes "shapes_separate L S"
  shows "pool_inv L S subs P \<Longrightarrow> \<forall>i \<in> set sched. i < length (workers P) \<Longrightarrow>
    length (queue P) \<le> length sched \<Longrightarrow>
    pool_inv L S subs (run_queue L sched P) \<and> queue (run_queue L sched P) = [] \<and>
    published (run_queue L sched P) = published P"
proof (induction sched arbitrary: P)
  case (Cons i sched)
  show ?case
  proof (cases "queue P = []")
    case False
    have turn: "pool_inv L S subs (worker_turn L i P) \<and> queue (worker_turn L i P) = tl (queue P) \<and>
        length (workers (worker_turn L i P)) = length (workers P) \<and>
        published (worker_turn L i P) = published P"
      using worker_turn_inv [OF Cons.prems(1) _ False assms, of i] Cons.prems(2) by simp
    have "length (queue (worker_turn L i P)) \<le> length sched" using turn Cons.prems(3) by simp
    with Cons.IH [of "worker_turn L i P"] turn False Cons.prems(2) show ?thesis by simp
  qed (use Cons in simp)
qed simp

lemma pool_inv_merged:
  assumes "pool_inv L S subs P" "queue P = []"
  shows "mset (concat (map (\<lambda>w. wrows (extend_if_pending (published P) w)) (workers P))) =
    mset (concat (map (rows_of L (published P)) subs))"
proof -
  obtain dss where d: "list_all2 (worker_inv L S (published P)) (workers P) dss"
      "mset subs = mset (concat dss)"
    using assms by (auto simp: pool_inv_def)
  have dist: "distinct (map (lower \<circ> fst) (published P))" using assms(1) by (simp add: pool_inv_def)
  have "wrows (extend_if_pending (published P) w) = concat (map (rows_of L (published P)) ds)"
    if "worker_inv L S (published P) w ds" for w ds
    using extend_worker_inv [OF that dist] by (simp add: worker_inv_def)
  with d(1) have "map (\<lambda>w. wrows (extend_if_pending (published P) w)) (workers P) =
      map (\<lambda>ds. concat (map (rows_of L (published P)) ds)) dss"
    by (auto simp: list_all2_conv_all_nth intro!: nth_equalityI)
  moreover have "concat (map (\<lambda>ds. concat (map (rows_of L (published P)) ds)) dss) =
      concat (map (rows_of L (published P)) (concat dss))"
    by (induction dss) (simp_all)
  moreover have "mset (concat (map f xs)) = mset (concat (map f ys))"
    if "mset xs = mset ys" for f :: "parsed_payload \<Rightarrow> cell list list" and xs ys
  proof -
    have "mset (concat (map f zs)) = \<Sum>\<^sub># (image_mset (mset \<circ> f) (mset zs))" for zs
      by (induction zs) simp_all
    with that show ?thesis by simp
  qed
  ultimately show ?thesis using d(2) by metis
qed

lemma pool_drain_rows:
  assumes "pool_inv L S subs P" "shapes_separate L S"
    and "length (queue P) \<le> length sched" "\<forall>i \<in> set sched. i < length (workers P)"
  shows "\<exists>rows. pool_drain L sched P t = Inr (t\<lparr>trows := trows t @ rows\<rparr>, length rows) \<and>
    mset rows = mset (concat (map (rows_of L (published P)) subs))"
proof -
  let ?P = "P\<lparr>stopped := True\<rparr>"
  let ?R = "run_queue L sched ?P"
  have "pool_inv L S subs ?P" using assms(1) by (simp add: pool_inv_def)
  with run_queue_inv [OF assms(2), of subs ?P sched] assms(3,4)
  have R: "pool_inv L S subs ?R" "queue ?R = []" "published ?R = published P" by simp_all
  define rows where "rows = concat (map (\<lambda>w. wrows (extend_if_pending (published P) w)) (workers ?R))"
  have "perror ?R = None" using R(1) by (simp add: pool_inv_def)
  with pool_inv_merged [OF R(1,2)] show ?thesis
    by (intro exI [of _ rows]) (simp add: pool_drain_def R(3) Let_def rows_def)
qed

lemma run_queue_moves:
  assumes "pool_running L S (subs, P)" "workers P \<noteq> []"
  shows "\<exists>P'. (pool_move L S)\<^sup>*\<^sup>* (subs, P) (subs, P') \<and> queue P' = [] \<and>
    max_queue_depth P' = max_queue_depth P \<and> published P' = published P"
  using assms
proof (induction "length (queue P)" arbitrary: P)
  case 0
  then show ?case by (intro exI [of _ P]) simp
next
  case (Suc n)
  let ?Q = "worker_turn L 0 P"
  have q: "queue P \<noteq> []" using Suc.hyps(2) by auto
  have i: "0 < length (workers P)" using Suc.prems(2) by simp
  have I: "pool_inv L S subs P" "shapes_separate L S" "\<not> stopped P"
    using Suc.prems(1) by (simp_all add: pool_running_def)
  have turn: "queue ?Q = tl (queue P)" "length (workers ?Q) = length (workers P)" "published ?Q = published P"
    using worker_turn_inv [OF I(1) i q I(2)] by simp_all
  have depth: "max_queue_depth ?Q = max_queue_depth P"
    by (simp add: worker_turn_def Let_def split: sum.splits)
  have "pool_step L P (Turn 0) ?Q" using i q by (rule pool_step.turn)
  then have move: "pool_move L S (subs, P) (subs, ?Q)"
    unfolding pool_move_def by (intro exI [of _ "Turn 0"]) simp
  have "n = length (queue ?Q)" using Suc.hyps(2) turn(1) by simp
  moreover have "pool_running L S (subs, ?Q)" using pool.inv_move [OF Suc.prems(1) move] .
  moreover have "workers ?Q \<noteq> []" using turn(2) i by auto
  ultimately obtain P' where "(pool_move L S)\<^sup>*\<^sup>* (subs, ?Q) (subs, P')" "queue P' = []"
      "max_queue_depth P' = max_queue_depth ?Q" "published P' = published ?Q"
    using Suc.hyps(1) by blast
  with move depth turn(3) show ?case by (metis converse_rtranclp_into_rtranclp)
qed

section \<open>Properties\<close>

text \<open>
  Property C3: however submissions, publications and worker turns interleave, draining the
  pool adds to the table exactly the rows a serial append of the submitted batches into the
  published columns would have added, each as often, and reports their number. \<open>sched\<close> is any
  choice of workers long enough to empty the queue.
\<close>

theorem pool_appends_serially:
  assumes "pool_start L S s0" "(pool_move L S)\<^sup>*\<^sup>* s0 (subs, P)"
    and "length (queue P) \<le> length sched" "\<forall>i \<in> set sched. i < length (workers P)"
  shows "\<exists>rows news. pool_drain L sched P t = Inr (t\<lparr>trows := trows t @ rows\<rparr>, length rows) \<and>
    map_result (rows_in L (published P)) subs = Inr news \<and> mset rows = mset (concat news)"
proof -
  have "pool_running L S (subs, P)" by (rule pool.inv_reachable [OF assms(1,2)])
  then have I: "pool_inv L S subs P" "shapes_separate L S" by (simp_all add: pool_running_def)
  have "\<exists>out. rows_in L (published P) p = Inr out" if "p \<in> set subs" for p
    using I(1) that by (auto simp: pool_inv_def batch_ready_def)
  then have "map_result (rows_in L (published P)) subs = Inr (map (rows_of L (published P)) subs)"
    by (intro map_result_Inr) (fastforce simp: rows_of_def)
  with pool_drain_rows [OF I assms(3,4)] show ?thesis by blast
qed

definition pool_before :: append_pool where
  "pool_before = new_pool evolved_sample 2 1"

lemma sample_separate: "shapes_separate sample_lib {sample_parsed}"
proof -
  have "(case hash_payload_shape sample_lib (pcolumns sample_parsed) of Inl _ \<Rightarrow> False | Inr h \<Rightarrow> h \<noteq> 0)"
    by code_simp
  then show ?thesis by (auto simp: shapes_separate_def split: sum.splits)
qed

lemma sample_ready: "batch_ready sample_lib {sample_parsed} (tcols evolved_sample) sample_parsed"
proof -
  have "list_all (\<lambda>c. column_index (tcols evolved_sample) (cname c) \<noteq> None) (pcolumns sample_parsed)"
    by code_simp
  then have "fits_layout (tcols evolved_sample) sample_parsed"
    by (simp add: fits_layout_def list_all_iff)
  moreover have "\<not> isl (rows_in sample_lib (tcols evolved_sample) sample_parsed)" by code_simp
  ultimately show ?thesis
    using infer_and_flatten_ok [OF sample_parsed_inferred]
    by (cases "rows_in sample_lib (tcols evolved_sample) sample_parsed") (simp_all add: batch_ready_def)
qed

lemma sample_pool_start: "pool_start sample_lib {sample_parsed} ([], pool_before)"
  using sample_separate
proof -
  have "distinct (map (lower \<circ> fst) (tcols evolved_sample))" by code_simp
  then show ?thesis using sample_separate unfolding pool_start_def pool_before_def by auto
qed

lemma sample_pool_run:
  "(pool_move sample_lib {sample_parsed})\<^sup>*\<^sup>* ([], pool_before)
     ([sample_parsed], pool_submit sample_parsed pool_before)"
proof -
  have "pool_step sample_lib pool_before (Submit sample_parsed) (pool_submit sample_parsed pool_before)"
    by (rule pool_step.submit) (simp add: pool_before_def new_pool_def)
  moreover have "published pool_before = tcols evolved_sample"
    by (simp add: pool_before_def new_pool_def)
  ultimately have "pool_move sample_lib {sample_parsed} ([], pool_before)
      ([sample_parsed], pool_submit sample_parsed pool_before)"
    unfolding pool_move_def using sample_ready by (intro exI [of _ "Submit sample_parsed"]) simp
  then show ?thesis by (rule r_into_rtranclp)
qed

theorem pool_appends_serially_witness:
  "\<exists>rows. pool_drain sample_lib [1] (pool_submit sample_parsed pool_before) evolved_sample =
     Inr (evolved_sample\<lparr>trows := trows evolved_sample @ rows\<rparr>, length rows) \<and> length rows = 2"
proof -
  let ?P = "pool_submit sample_parsed pool_before"
  have P: "queue ?P = [sample_parsed]" "published ?P = tcols evolved_sample" "length (workers ?P) = 2"
    by (simp_all add: pool_submit_def pool_before_def new_pool_def)
  obtain rows news where r: "pool_drain sample_lib [1] ?P evolved_sample =
       Inr (evolved_sample\<lparr>trows := trows evolved_sample @ rows\<rparr>, length rows)"
    "map_result (rows_in sample_lib (published ?P)) [sample_parsed] = Inr news"
    "mset rows = mset (concat news)"
    using pool_appends_serially [OF sample_pool_start sample_pool_run, of "[1]" evolved_sample] P by auto
  have "length rows = length (concat news)" using r(3) by (metis size_mset)
  also have "\<dots> = 2"
    using r(2) map_result_length
    by (fastforce simp: P rows_in_def sample_parsed_def sample_payload_def sample_rows_def)
  finally show ?thesis using r(1) by blast
qed



end
