(* ===== verification/Settings.thy ===== *)
theory Settings
  imports Prelude
begin

text \<open>
  The write settings (\<^verbatim>\<open>raw_write_settings.cpp\<close>): reading the session settings, the thread
  counts of the append pool and of the file pipeline, and the choice to overlap flushing. The
  session is a map from setting names to values; a 64-bit setting is an int, and
  \<^verbatim>\<open>std::thread::hardware_concurrency\<close>, an unsigned 32-bit number, is a parameter.
\<close>

section \<open>Session settings\<close>

datatype setting = SNull | SInt int | SBool bool

type_synonym session = "string \<Rightarrow> setting option"

record write_settings =
  pool_min_rows :: nat
  pool_threads :: nat
  pipeline_threads :: nat
  pipeline_consumers :: nat
  pipeline_depth :: nat
  overlap_flush_auto :: bool

definition DEFAULT_POOL_MIN_ROWS :: nat where "DEFAULT_POOL_MIN_ROWS = 4096"
definition DEFAULT_PIPELINE_DEPTH :: nat where "DEFAULT_PIPELINE_DEPTH = 4"
definition MAX_POOL_THREADS :: nat where "MAX_POOL_THREADS = 16"
definition MAX_PIPELINE_THREADS :: nat where "MAX_PIPELINE_THREADS = 16"

definition default_settings :: write_settings where
  "default_settings =
     \<lparr>pool_min_rows = DEFAULT_POOL_MIN_ROWS, pool_threads = 0, pipeline_threads = 0,
      pipeline_consumers = 0, pipeline_depth = DEFAULT_PIPELINE_DEPTH, overlap_flush_auto = False\<rparr>"

text \<open>
  \<^verbatim>\<open>TryGetCurrentSetting\<close> and the positivity test: a missing, NULL or non-positive setting
  keeps the default.
\<close>

definition positive_setting :: "session \<Rightarrow> string \<Rightarrow> nat \<Rightarrow> nat" where
  "positive_setting conf name dflt =
     (case conf name of Some (SInt n) \<Rightarrow> if n > 0 then nat n else dflt | _ \<Rightarrow> dflt)"

definition bool_setting :: "session \<Rightarrow> string \<Rightarrow> bool \<Rightarrow> bool" where
  "bool_setting conf name dflt = (case conf name of Some (SBool b) \<Rightarrow> b | _ \<Rightarrow> dflt)"

definition write_settings_get :: "session \<Rightarrow> write_settings" where
  "write_settings_get conf =
     \<lparr>pool_min_rows = positive_setting conf ''rawduck_pool_min_rows'' DEFAULT_POOL_MIN_ROWS,
      pool_threads = positive_setting conf ''rawduck_pool_threads'' 0,
      pipeline_threads = positive_setting conf ''rawduck_pipeline_threads'' 0,
      pipeline_consumers = positive_setting conf ''rawduck_pipeline_consumers'' 0,
      pipeline_depth = positive_setting conf ''rawduck_pipeline_depth'' DEFAULT_PIPELINE_DEPTH,
      overlap_flush_auto = bool_setting conf ''rawduck_overlap_flush_auto'' False\<rparr>"

section \<open>Thread counts\<close>

definition pool_thread_count :: "32 word \<Rightarrow> write_settings \<Rightarrow> nat \<Rightarrow> nat" where
  "pool_thread_count hw W batch_rows =
     (if pool_threads W > 0 then min (pool_threads W) MAX_POOL_THREADS
      else if batch_rows \<ge> pool_min_rows W then max 1 (min (unat (hw div 2)) MAX_POOL_THREADS)
      else 1)"

definition pipeline_thread_count :: "32 word \<Rightarrow> write_settings \<Rightarrow> nat" where
  "pipeline_thread_count hw W =
     (if pipeline_threads W > 0 then min (pipeline_threads W) MAX_PIPELINE_THREADS
      else max 1 (min (unat (hw * 2 div 3)) MAX_PIPELINE_THREADS))"

definition pipeline_consumer_count :: "write_settings \<Rightarrow> nat" where
  "pipeline_consumer_count W =
     (if pipeline_consumers W > 0 then min (pipeline_consumers W) MAX_PIPELINE_THREADS else 1)"

definition overlap_flush_for_batch :: "session \<Rightarrow> write_settings \<Rightarrow> bool \<Rightarrow> nat \<Rightarrow> bool" where
  "overlap_flush_for_batch conf W shape_absorbed batch_rows \<longleftrightarrow>
     bool_setting conf ''rawduck_overlap_flush'' False \<or>
     (overlap_flush_auto W \<and> shape_absorbed \<and> batch_rows \<ge> pool_min_rows W)"

section \<open>Properties\<close>

text \<open>What every component that takes settings relies on.\<close>

definition settings_ok :: "write_settings \<Rightarrow> bool" where
  "settings_ok W \<longleftrightarrow> pool_min_rows W > 0 \<and> pipeline_depth W > 0"

lemma write_settings_get_ok: "settings_ok (write_settings_get conf)"
  by (simp add: settings_ok_def write_settings_get_def positive_setting_def DEFAULT_POOL_MIN_ROWS_def
      DEFAULT_PIPELINE_DEPTH_def split: option.splits setting.splits)

lemma pool_thread_count_pos: "pool_thread_count hw W n > 0"
  by (simp add: pool_thread_count_def MAX_POOL_THREADS_def less_max_iff_disj)

lemma unat_third: "3 * unat (hw * 2 div 3 :: 32 word) \<le> 2 * unat hw"
proof -
  have "unat (hw * 2 div 3) = (2 * unat hw mod 2 ^ 32) div 3"
    by (simp add: unat_div unat_mult_lem unat_word_ariths mult.commute)
  moreover have "3 * ((2 * unat hw mod 2 ^ 32) div 3) \<le> 2 * unat hw mod 2 ^ 32" by simp
  moreover have "2 * unat hw mod 2 ^ 32 \<le> 2 * unat hw" by (rule mod_less_eq_dividend)
  ultimately show ?thesis by linarith
qed

text \<open>
  Property C40: whatever the session sets and whatever the hardware reports (zero cores
  included), every thread count is between 1 and 16, the queue depth and the pool threshold
  are positive, and a count that was not set is at most the number of cores unless it is 1.
\<close>

theorem thread_counts_bounded:
  "let W = write_settings_get conf in
     pool_thread_count hw W n \<in> {1..16} \<and> pipeline_thread_count hw W \<in> {1..16} \<and>
     pipeline_consumer_count W \<in> {1..16} \<and> settings_ok W \<and>
     (pipeline_threads W > 0 \<or> pipeline_thread_count hw W \<le> max 1 (unat hw)) \<and>
     (pool_threads W > 0 \<or> pool_thread_count hw W n \<le> max 1 (unat hw))"
proof -
  have "unat (hw * 2 div 3) \<le> unat hw" using unat_third [of hw] by linarith
  moreover have "unat (hw div 2) \<le> unat hw" by (simp add: unat_div)
  ultimately show ?thesis
    using write_settings_get_ok [of conf]
    by (auto simp: Let_def pool_thread_count_def pipeline_thread_count_def pipeline_consumer_count_def
        MAX_POOL_THREADS_def MAX_PIPELINE_THREADS_def)
qed

end
