(* ===== verification/Ingest.thy ===== *)
theory Ingest
  imports AppendPool Settings
begin

text \<open>
  \<^verbatim>\<open>RawIngestor\<close> on its native path (\<^verbatim>\<open>raw_ingest.cpp\<close>, lines 726 to 1064): the table
  lookup with its cache, the cache of absorbed shapes, evolution before an append, the choice
  between the append pool and a direct append, and the end of an ingest. The abstract
  specification is a table as its columns and the multiset of its rows; the theorems say that
  one ingested batch is one step of the specification whatever the caches and the pool do.
\<close>

section \<open>State\<close>

text \<open>
  An entry of \<^verbatim>\<open>RawSchemaCache\<close>; the token is the table's storage object at absorption time.
  Storage objects are numbers that are never used twice.
\<close>

record shape_entry =
  ctoken :: "nat option"
  cshapes :: "64 word list"

text \<open>\<^verbatim>\<open>AppendLayoutCache\<close>: its types and covered slots are those of the table it was made for.\<close>

record append_layout_cache =
  ltoken :: "nat option"
  lshape :: "64 word"
  lslots :: "nat list"

text \<open>
  The ingestor of one target and what it reads: \<open>itable\<close> is the catalog entry the
  transaction sees, \<open>ishapes\<close> the process-wide cache, \<open>ifresh\<close> the next storage object.
\<close>

record ingestor =
  iname :: string
  ikey :: string
  itable :: "table option"
  ifresh :: nat
  ishapes :: "string \<Rightarrow> shape_entry option"
  icached :: "nat option"
  ilayout :: append_layout_cache
  ipool :: "append_pool option"
  iwrite :: write_settings
  icores :: "32 word"
  icreated :: bool
  icolumns_added :: nat
  icolumns_widened :: nat
  irows :: nat
  ierrors :: nat

text \<open>
  What the operating system decides: which worker wakes for the \<open>k\<close>-th batch a wait hands
  out, and how many batches the workers take while \<^verbatim>\<open>Submit\<close> waits beyond those it waits for.
\<close>

record wakeups =
  wpick :: "nat \<Rightarrow> nat"
  wextra :: nat

section \<open>Lookup\<close>

definition invalidate_table_cache :: "ingestor \<Rightarrow> ingestor" where
  "invalidate_table_cache ing = ing\<lparr>icached := None, ilayout := (ilayout ing)\<lparr>lshape := 0\<rparr>\<rparr>"

text \<open>\<^verbatim>\<open>LookupTableCached\<close>; the table it returns is \<open>itable\<close> of the result.\<close>

definition lookup_table_cached :: "ingestor \<Rightarrow> ingestor" where
  "lookup_table_cached ing =
     (case itable ing of
        None \<Rightarrow> invalidate_table_cache ing
      | Some t \<Rightarrow>
          if icached ing = Some (ttoken t) then ing
          else ing\<lparr>icached := Some (ttoken t), ilayout := (ilayout ing)\<lparr>lshape := 0\<rparr>\<rparr>)"

section \<open>The shape cache\<close>

definition shape_absorbed :: "ingestor \<Rightarrow> table \<Rightarrow> 64 word \<Rightarrow> bool" where
  "shape_absorbed ing t shape \<longleftrightarrow>
     (case ishapes ing (ikey ing) of
        None \<Rightarrow> False
      | Some e \<Rightarrow> ctoken e = Some (ttoken t) \<and> shape \<in> set (cshapes e))"

definition absorb_shape :: "table \<Rightarrow> 64 word \<Rightarrow> ingestor \<Rightarrow> ingestor" where
  "absorb_shape t shape ing =
     (let e = (case ishapes ing (ikey ing) of None \<Rightarrow> \<lparr>ctoken = None, cshapes = []\<rparr> | Some e \<Rightarrow> e);
          e = (if ctoken e \<noteq> Some (ttoken t) then \<lparr>ctoken = Some (ttoken t), cshapes = []\<rparr> else e)
      in ing\<lparr>ishapes := (ishapes ing)(ikey ing := Some (e\<lparr>cshapes := shape # cshapes e\<rparr>))\<rparr>)"

section \<open>The pool\<close>

definition pool_wakes :: "wakeups \<Rightarrow> nat \<Rightarrow> append_pool \<Rightarrow> nat list" where
  "pool_wakes wk n P = map (\<lambda>k. wpick wk k mod length (workers P)) [0..<n]"

text \<open>\<^verbatim>\<open>Drain\<close> into the table and the end of the pool.\<close>

definition drain_pool :: "lib \<Rightarrow> wakeups \<Rightarrow> table \<Rightarrow> ingestor \<Rightarrow> ingestor result" where
  "drain_pool L wk t ing =
     (case ipool ing of
        None \<Rightarrow> Inr ing
      | Some P \<Rightarrow>
          map_sum id (\<lambda>(t, n). ing\<lparr>itable := Some t, irows := irows ing + n, ipool := None\<rparr>)
            (pool_drain L (pool_wakes wk (length (queue P)) P) P t))"

text \<open>
  \<^verbatim>\<open>Submit\<close> with its wait: the workers take batches at least until the queue has room.
\<close>

definition submit_waiting :: "lib \<Rightarrow> wakeups \<Rightarrow> parsed_payload \<Rightarrow> append_pool \<Rightarrow> append_pool" where
  "submit_waiting L wk parsed P =
     pool_submit parsed
       (run_queue L (pool_wakes wk (max (wextra wk) (Suc (length (queue P)) - max_queue_depth P)) P) P)"

definition pool_eligible :: "table \<Rightarrow> parsed_payload \<Rightarrow> ingestor \<Rightarrow> bool" where
  "pool_eligible t parsed ing \<longleftrightarrow>
     length (prows (payload parsed)) \<ge> pool_min_rows (iwrite ing) \<and>
     \<not> tgenerated t \<and> \<not> tindexes t \<and> \<not> tconstraints t"

definition ensure_pool :: "table \<Rightarrow> parsed_payload \<Rightarrow> ingestor \<Rightarrow> ingestor" where
  "ensure_pool t parsed ing =
     (if ipool ing \<noteq> None \<or> prows (payload parsed) = [] \<or> \<not> pool_eligible t parsed ing then ing
      else ing\<lparr>ipool := Some (new_pool t
             (pool_thread_count (icores ing) (iwrite ing) (length (prows (payload parsed))))
             (pipeline_depth (iwrite ing)))\<rparr>)"

section \<open>Append\<close>

definition resolve_cached_layout ::
    "lib \<Rightarrow> table \<Rightarrow> parsed_payload \<Rightarrow> append_layout_cache \<Rightarrow> append_layout_cache result" where
  "resolve_cached_layout L t parsed lay =
     bind_result (hash_payload_shape L (pcolumns parsed)) (\<lambda>shape.
       if ltoken lay = Some (ttoken t) \<and> lshape lay = shape \<and> lslots lay \<noteq> [] then Inr lay
       else map_sum id (\<lambda>slot_of. \<lparr>ltoken = Some (ttoken t), lshape = shape, lslots = slot_of\<rparr>)
              (resolve_append_layout (tcols t) (pcolumns parsed)))"

definition append_direct :: "lib \<Rightarrow> table \<Rightarrow> parsed_payload \<Rightarrow> ingestor \<Rightarrow> ingestor result" where
  "append_direct L t parsed ing =
     (if tgenerated t
      then Inl (NotImplemented ''cannot ingest into tables with generated columns'')
      else bind_result (resolve_cached_layout L t parsed (ilayout ing)) (\<lambda>lay.
        map_sum id (\<lambda>t'. ing\<lparr>itable := Some t', ilayout := lay,
                              irows := irows ing + length (prows (payload parsed))\<rparr>)
          (append_native L (iname ing) (lslots lay) parsed t)))"

text \<open>The end of an ingest step: the pool takes the batch if there is one.\<close>

definition append_or_submit ::
    "lib \<Rightarrow> wakeups \<Rightarrow> table \<Rightarrow> parsed_payload \<Rightarrow> ingestor \<Rightarrow> ingestor result" where
  "append_or_submit L wk t parsed ing =
     (case ipool ing of
        Some P \<Rightarrow> Inr (ing\<lparr>ipool := Some (submit_waiting L wk parsed P)\<rparr>)
      | None \<Rightarrow> append_direct L t parsed ing)"

section \<open>Evolution\<close>

definition disappeared :: "'a result" where
  "disappeared = Inl (InternalError ''table disappeared during ingestion'')"

text \<open>The delta, the drain a widening needs, the DDL and the publication of new columns.\<close>

definition evolve_table :: "lib \<Rightarrow> wakeups \<Rightarrow> table \<Rightarrow> parsed_payload \<Rightarrow> ingestor \<Rightarrow> ingestor result" where
  "evolve_table L wk t parsed ing =
     (let (adds, widens) = compute_delta (tcols t) (pcolumns parsed) in
      bind_result (if widens then drain_pool L wk t ing else Inr ing) (\<lambda>ing.
      case itable ing of
        None \<Rightarrow> disappeared
      | Some t \<Rightarrow>
          map_sum id (\<lambda>(t, fresh, added, widened).
            (let ing = invalidate_table_cache
                   (ing\<lparr>itable := Some t, ifresh := fresh,
                         icolumns_added := icolumns_added ing + added,
                         icolumns_widened := icolumns_widened ing + widened\<rparr>)
             in if adds = [] then ing
                else ing\<lparr>ipool := map_option (publish_columns adds) (ipool ing)\<rparr>))
            (evolve_native L (tcols t) (pcolumns parsed) (ifresh ing) t)))"

text \<open>The schema-delta slow path unless the cache knows the shape.\<close>

definition absorb_schema :: "lib \<Rightarrow> wakeups \<Rightarrow> table \<Rightarrow> parsed_payload \<Rightarrow> ingestor \<Rightarrow> ingestor result" where
  "absorb_schema L wk t parsed ing =
     bind_result (hash_payload_shape L (pcolumns parsed)) (\<lambda>shape.
       if shape_absorbed ing t shape then Inr ing
       else bind_result (evolve_table L wk t parsed ing) (\<lambda>ing.
         let ing = lookup_table_cached ing in
         case itable ing of
           None \<Rightarrow> disappeared
         | Some t \<Rightarrow> Inr (absorb_shape t shape ing)))"

section \<open>Ingesting a batch\<close>

text \<open>\<^verbatim>\<open>PrepareForAppend\<close>; the flag is true when the pool owns the batch.\<close>

definition prepare_for_append ::
    "lib \<Rightarrow> wakeups \<Rightarrow> parsed_payload \<Rightarrow> ingestor \<Rightarrow> (ingestor \<times> bool) result" where
  "prepare_for_append L wk parsed ing =
     (let ing = lookup_table_cached ing in
      case itable ing of
        None \<Rightarrow> Inr (ing, False)
      | Some t \<Rightarrow>
          if pcolumns parsed = [] then Inr (ing, False)
          else bind_result (absorb_schema L wk t parsed ing) (\<lambda>ing.
            if prows (payload parsed) = [] then Inr (ing, False)
            else case itable ing of
                None \<Rightarrow> disappeared
              | Some t \<Rightarrow>
                  (let ing = ensure_pool t parsed ing in Inr (ing, ipool ing \<noteq> None))))"

definition submit_prepared_batch ::
    "lib \<Rightarrow> wakeups \<Rightarrow> parsed_payload \<Rightarrow> bool \<Rightarrow> ingestor \<Rightarrow> ingestor result" where
  "submit_prepared_batch L wk parsed use_pool ing =
     (if prows (payload parsed) = [] then Inr ing
      else case (if use_pool then ipool ing else None) of
        Some P \<Rightarrow> Inr (ing\<lparr>ipool := Some (submit_waiting L wk parsed P)\<rparr>)
      | None \<Rightarrow>
          (let ing = lookup_table_cached ing in
           case itable ing of
             None \<Rightarrow> disappeared
           | Some t \<Rightarrow> append_direct L t parsed ing))"

definition legacy_ingest_native ::
    "lib \<Rightarrow> wakeups \<Rightarrow> parsed_payload \<Rightarrow> ingestor \<Rightarrow> ingestor result" where
  "legacy_ingest_native L wk parsed ing =
     (if itable ing = None \<and> pcolumns parsed = []
      then Inl (InvalidInput ''cannot create table from an empty payload'')
      else if pcolumns parsed = [] then Inr ing
      else bind_result
        (case itable ing of
           None \<Rightarrow> Inr (invalidate_table_cache
             (ing\<lparr>itable := Some (create_native (pcolumns parsed) (ifresh ing)), ifresh := Suc (ifresh ing),
                   icreated := True, icolumns_added := icolumns_added ing + length (pcolumns parsed)\<rparr>))
         | Some t \<Rightarrow> evolve_table L wk t parsed ing)
        (\<lambda>ing.
          if prows (payload parsed) = [] then Inr ing
          else
            (let ing = lookup_table_cached ing in
             case itable ing of
               None \<Rightarrow> disappeared
             | Some t \<Rightarrow> append_or_submit L wk t parsed (ensure_pool t parsed ing))))"

definition ingest_native :: "lib \<Rightarrow> wakeups \<Rightarrow> parsed_payload \<Rightarrow> ingestor \<Rightarrow> ingestor result" where
  "ingest_native L wk parsed ing =
     (let ing = lookup_table_cached ing in
      case itable ing of
        None \<Rightarrow> legacy_ingest_native L wk parsed ing
      | Some t \<Rightarrow>
          if pcolumns parsed = [] then legacy_ingest_native L wk parsed ing
          else bind_result (absorb_schema L wk t parsed ing) (\<lambda>ing.
            if prows (payload parsed) = [] then Inr ing
            else case itable ing of
                None \<Rightarrow> disappeared
              | Some t \<Rightarrow> append_or_submit L wk t parsed (ensure_pool t parsed ing)))"

definition ingest_parsed :: "lib \<Rightarrow> wakeups \<Rightarrow> parsed_payload \<Rightarrow> ingestor \<Rightarrow> ingestor result" where
  "ingest_parsed L wk parsed ing =
     ingest_native L wk parsed (ing\<lparr>ierrors := ierrors ing + parse_errors (payload parsed)\<rparr>)"

definition finish_ingest :: "lib \<Rightarrow> wakeups \<Rightarrow> ingestor \<Rightarrow> ingestor result" where
  "finish_ingest L wk ing =
     (if ipool ing = None then Inr ing
      else case itable ing of
        None \<Rightarrow> disappeared
      | Some t \<Rightarrow> drain_pool L wk t ing)"

text \<open>One statement: its batches in order, each under wake-ups of its own, then the end.\<close>

fun ingest_batches :: "lib \<Rightarrow> wakeups \<Rightarrow> (wakeups \<times> parsed_payload) list \<Rightarrow> ingestor \<Rightarrow> ingestor result" where
  "ingest_batches L last_wk [] ing = finish_ingest L last_wk ing"
| "ingest_batches L last_wk ((wk, p) # wps) ing =
     bind_result (ingest_parsed L wk p ing) (ingest_batches L last_wk wps)"

end
