(* ===== verification/Transactions.thy ===== *)
theory Transactions
  imports Ingest
begin

text \<open>
  Transaction control and the serialized ingest of the HTTP path (\<^verbatim>\<open>raw_ingest.cpp\<close>, lines
  177 to 210 and 1373 to 1411). A connection is its auto-commit flag and whether its transaction
  is invalidated. What DuckDB's own \<^verbatim>\<open>Commit\<close> answers, and whether it leaves the connection
  in auto-commit mode after a failure, is a parameter, as is the outcome of each ingest attempt.
\<close>

section \<open>Connections\<close>

record conn =
  auto_commit :: bool
  invalidated :: bool

text \<open>An operation answers with an error or not, and leaves the connection behind.\<close>

type_synonym conn_result = "raw_error option \<times> conn"

text \<open>\<^verbatim>\<open>commit_answer\<close>: the exception of \<^verbatim>\<open>TransactionContext::Commit\<close>, if any, and the auto-commit flag it leaves.\<close>

type_synonym commit_answer = "raw_error option \<times> bool"

definition raw_begin_transaction :: "conn \<Rightarrow> conn_result" where
  "raw_begin_transaction c =
     (if \<not> auto_commit c
      then (Some (TransactionError ''cannot start a transaction within a transaction''), c)
      else (None, c\<lparr>auto_commit := False, invalidated := False\<rparr>))"

definition raw_rollback_transaction :: "conn \<Rightarrow> conn_result" where
  "raw_rollback_transaction c =
     (if auto_commit c
      then (Some (TransactionError ''cannot rollback - no transaction is active''), c)
      else (None, c\<lparr>auto_commit := True, invalidated := False\<rparr>))"

definition raw_commit_transaction :: "commit_answer \<Rightarrow> conn \<Rightarrow> conn_result" where
  "raw_commit_transaction ans c =
     (if auto_commit c
      then (Some (TransactionError ''cannot commit - no transaction is active''), c)
      else if invalidated c then raw_rollback_transaction c
      else case fst ans of
          None \<Rightarrow> (None, c\<lparr>auto_commit := True\<rparr>)
        | Some e \<Rightarrow> (Some e, c\<lparr>auto_commit := snd ans\<rparr>))"

section \<open>Serialized ingest\<close>

record ingest_stats =
  screated :: bool
  sadded :: nat
  swidened :: nat
  srows :: nat
  serrors :: nat

text \<open>
  One attempt: begin, ingest, commit. \<open>attempt\<close> is what the ingest answers with and whether
  it invalidates the transaction.
\<close>

type_synonym attempt = "ingest_stats result \<times> bool \<times> commit_answer"

definition run_attempt :: "attempt \<Rightarrow> conn \<Rightarrow> ingest_stats result \<times> conn" where
  "run_attempt a c =
     (case raw_begin_transaction c of
        (Some e, c) \<Rightarrow> (Inl e, c)
      | (None, c) \<Rightarrow>
          (let c = c\<lparr>invalidated := fst (snd a)\<rparr> in
           case fst a of
             Inl e \<Rightarrow> (Inl e, c)
           | Inr stats \<Rightarrow>
               (case raw_commit_transaction (snd (snd a)) c of
                  (Some e, c) \<Rightarrow> (Inl e, c)
                | (None, c) \<Rightarrow> (Inr stats, c))))"

fun is_transaction_error :: "raw_error \<Rightarrow> bool" where
  "is_transaction_error (TransactionError _) \<longleftrightarrow> True"
| "is_transaction_error _ \<longleftrightarrow> False"

text \<open>
  \<^verbatim>\<open>RawIngestSerialized\<close>: the answer, the connection and whether the table is marked as known
  to exist. \<^verbatim>\<open>RawBeginTransaction\<close> of the first attempt stands outside the try block.
\<close>

definition raw_ingest_serialized ::
    "attempt \<Rightarrow> attempt \<Rightarrow> bool \<Rightarrow> conn \<Rightarrow> ingest_stats result \<times> conn \<times> bool" where
  "raw_ingest_serialized first second known c =
     (if \<not> auto_commit c then (Inl (the (fst (raw_begin_transaction c))), c, known)
      else case run_attempt first c of
        (Inr stats, c) \<Rightarrow> (Inr stats, c, True)
      | (Inl e, c) \<Rightarrow>
          if is_transaction_error e then
            (case raw_rollback_transaction c of
               (Some e, c) \<Rightarrow> (Inl e, c, known)
             | (None, c) \<Rightarrow>
                 (case run_attempt second c of
                    (Inr stats, c) \<Rightarrow> (Inr stats, c, True)
                  | (Inl e, c) \<Rightarrow> (Inl e, c, known)))
          else (Inl e, c, known))"

section \<open>Properties\<close>

lemmas txn_defs = run_attempt_def raw_begin_transaction_def raw_commit_transaction_def
  raw_rollback_transaction_def Let_def

text \<open>The attempt's commit failed and DuckDB had already ended the transaction.\<close>

definition commit_cleared :: "attempt \<Rightarrow> bool" where
  "commit_cleared a \<longleftrightarrow>
     \<not> isl (fst a) \<and> \<not> fst (snd a) \<and> fst (snd (snd a)) \<noteq> None \<and> snd (snd (snd a))"

text \<open>What an attempt answers with, and whether the answer asks for a retry.\<close>

definition attempt_answer :: "attempt \<Rightarrow> ingest_stats result" where
  "attempt_answer a =
     (case fst a of
        Inl e \<Rightarrow> Inl e
      | Inr stats \<Rightarrow>
          if fst (snd a) then Inr stats
          else (case fst (snd (snd a)) of None \<Rightarrow> Inr stats | Some e \<Rightarrow> Inl e))"

definition conflicts :: "attempt \<Rightarrow> bool" where
  "conflicts a \<longleftrightarrow> (case attempt_answer a of Inl e \<Rightarrow> is_transaction_error e | Inr _ \<Rightarrow> False)"

lemma run_attempt_answer:
  assumes "auto_commit c"
  obtains c' where "run_attempt a c = (attempt_answer a, c')"
    "auto_commit c' \<longleftrightarrow> \<not> isl (attempt_answer a) \<or> commit_cleared a"
proof -
  have "fst (run_attempt a c) = attempt_answer a \<and>
      (auto_commit (snd (run_attempt a c)) \<longleftrightarrow> \<not> isl (attempt_answer a) \<or> commit_cleared a)"
    using assms
    by (auto simp: txn_defs attempt_answer_def commit_cleared_def split: sum.splits option.splits if_splits)
  then show thesis using that by (metis prod.collapse)
qed

text \<open>
  Property C13: a serialized ingest answers with its first attempt, unless that ended in a
  transaction conflict. Then, if the conflict left the transaction open, it is rolled back and the
  answer is that of exactly one more attempt, whatever it is; if DuckDB had already ended the
  transaction, the answer is the exception of the rollback. The table is marked as known exactly
  when statistics are answered; and a transaction is left open, for the caller to roll back,
  exactly when an error is answered whose attempt did not lose its transaction in the commit.
\<close>

theorem serialized_ingest_outcome:
  assumes "auto_commit c" "raw_ingest_serialized first second known c = (r, c', known')"
  shows "r = (if \<not> conflicts first then attempt_answer first
      else if commit_cleared first then Inl (TransactionError ''cannot rollback - no transaction is active'')
      else attempt_answer second) \<and>
    (known' \<longleftrightarrow> known \<or> \<not> isl r) \<and>
    (auto_commit c' \<longleftrightarrow> \<not> isl r \<or>
       commit_cleared (if conflicts first \<and> \<not> commit_cleared first then second else first)) \<and>
    (fst (raw_rollback_transaction c') = None \<longleftrightarrow> \<not> auto_commit c')"
proof -
  obtain c1 where 1: "run_attempt first c = (attempt_answer first, c1)"
    "auto_commit c1 \<longleftrightarrow> \<not> isl (attempt_answer first) \<or> commit_cleared first"
    by (rule run_attempt_answer [OF assms(1)])
  have last: "fst (raw_rollback_transaction c') = None \<longleftrightarrow> \<not> auto_commit c'"
    by (simp add: raw_rollback_transaction_def)
  show ?thesis
  proof (cases "conflicts first \<and> \<not> commit_cleared first")
    case False
    show ?thesis
    proof (cases "attempt_answer first")
      case (Inr stats)
      then have "raw_ingest_serialized first second known c = (Inr stats, c1, True)"
        using assms(1) 1(1) by (simp add: raw_ingest_serialized_def)
      then have "r = Inr stats" "c' = c1" "known'" using assms(2) by simp_all
      with Inr 1(2) last show ?thesis by (simp add: conflicts_def)
    next
      case (Inl e)
      have "raw_ingest_serialized first second known c =
          (if is_transaction_error e then (Inl (TransactionError ''cannot rollback - no transaction is active''), c1, known)
           else (Inl e, c1, known))"
        using assms(1) 1 Inl False
        by (simp add: raw_ingest_serialized_def conflicts_def raw_rollback_transaction_def)
      then have "r = Inl (if is_transaction_error e then TransactionError ''cannot rollback - no transaction is active'' else e)"
        "c' = c1" "known' = known" using assms(2) by (simp_all split: if_splits)
      with Inl False 1(2) last show ?thesis by (simp add: conflicts_def)
    qed
  next
    case True
    then obtain e where e: "attempt_answer first = Inl e" "is_transaction_error e"
      by (auto simp: conflicts_def split: sum.splits)
    then have open1: "\<not> auto_commit c1" using 1(2) True by simp
    then obtain c2 where c2: "raw_rollback_transaction c1 = (None, c2)" "auto_commit c2"
      by (simp add: raw_rollback_transaction_def)
    obtain c3 where 2: "run_attempt second c2 = (attempt_answer second, c3)"
      "auto_commit c3 \<longleftrightarrow> \<not> isl (attempt_answer second) \<or> commit_cleared second"
      by (rule run_attempt_answer [OF c2(2)])
    have run: "raw_ingest_serialized first second known c =
        (case attempt_answer second of Inr stats \<Rightarrow> (Inr stats, c3, True) | Inl e \<Rightarrow> (Inl e, c3, known))"
      using assms(1) 1(1) e c2(1) 2(1) by (simp add: raw_ingest_serialized_def split: sum.splits)
    show ?thesis
    proof (cases "attempt_answer second")
      case (Inr stats)
      then have "r = Inr stats" "c' = c3" "known'" using run assms(2) by simp_all
      with Inr True 2(2) last show ?thesis by simp
    next
      case (Inl e2)
      then have "r = Inl e2" "c' = c3" "known' = known" using run assms(2) by simp_all
      with Inl True 2(2) last show ?thesis by simp
    qed
  qed
qed

definition sample_stats :: ingest_stats where
  "sample_stats = \<lparr>screated = True, sadded = 1, swidened = 0, srows = 2, serrors = 0\<rparr>"

theorem serialized_ingest_outcome_witness:
  "raw_ingest_serialized (Inl (TransactionError ''conflict''), False, None, True)
     (Inr sample_stats, False, None, True) False \<lparr>auto_commit = True, invalidated = False\<rparr> =
     (Inr sample_stats, \<lparr>auto_commit = True, invalidated = False\<rparr>, True) \<and>
   auto_commit \<lparr>auto_commit = True, invalidated = False\<rparr>"
proof -
  let ?c = "\<lparr>auto_commit = True, invalidated = False\<rparr>"
  have run: "raw_ingest_serialized (Inl (TransactionError ''conflict''), False, None, True)
     (Inr sample_stats, False, None, True) False ?c = (Inr sample_stats, ?c, True)"
    by (simp add: raw_ingest_serialized_def txn_defs)
  from serialized_ingest_outcome [OF _ this] run show ?thesis by simp
qed

text \<open>
  A commit that fails with a conflict after DuckDB ended the transaction is never
  retried: the rollback before the retry throws, so the answer is the rollback's exception
  whatever a second attempt would give, and the caller's own rollback throws too.
\<close>

theorem failed_commit_is_not_retried:
  "let c = \<lparr>auto_commit = True, invalidated = b\<rparr>;
       (r, c', known') = raw_ingest_serialized
         (Inr stats, False, Some (TransactionError m), True) second known c
   in r = Inl (TransactionError ''cannot rollback - no transaction is active'') \<and>
      known' = known \<and> fst (raw_rollback_transaction c') \<noteq> None"
  by (simp add: raw_ingest_serialized_def txn_defs)

end
