(* ===== verification/Ingest_Spec.thy ===== *)
theory Ingest_Spec
  imports Ingest
begin

text \<open>
  The specification of an ingest and the proof that \<^verbatim>\<open>RawIngestor\<close> meets it. The abstract
  state is the columns of the table and the multiset of its rows, those still in the pool
  included; one batch evolves the old rows and adds the rows of its payload.
\<close>

section \<open>The specification\<close>

type_synonym relation_state = "tcolumn list \<times> cell list multiset"

definition rows_evolve ::
    "lib \<Rightarrow> raw_column list \<Rightarrow> tcolumn list \<Rightarrow> cell list multiset \<Rightarrow> cell list multiset \<Rightarrow> bool" where
  "rows_evolve L ps cols R R' \<longleftrightarrow>
     (\<exists>xs ys. mset xs = R \<and> mset ys = R' \<and>
        list_all2 (row_evolves L ps cols (length (fst (compute_delta cols ps)))) xs ys)"

definition ingest_step :: "lib \<Rightarrow> parsed_payload \<Rightarrow> relation_state \<Rightarrow> relation_state \<Rightarrow> bool" where
  "ingest_step L p s s' \<longleftrightarrow>
     (if pcolumns p = [] then s' = s
      else fst s' = evolved_columns (fst s) (pcolumns p) \<and>
        (\<exists>R news. rows_evolve L (pcolumns p) (fst s) (snd s) R \<and>
           rows_in L (fst s') p = Inr news \<and> snd s' = R + mset news))"

text \<open>
  When a batch goes in: every cell of the rows at hand that has to change its type converts, and
  no row of the payload has a value that cannot be written into its column.
\<close>

definition step_defined :: "lib \<Rightarrow> parsed_payload \<Rightarrow> relation_state \<Rightarrow> bool" where
  "step_defined L p s \<longleftrightarrow>
     (\<forall>row \<in># snd s. row_converts L (pcolumns p) (fst s) row) \<and>
     (\<forall>row \<in> set (prows (payload p)).
        \<not> row_unwritable L (evolved_columns (fst s) (pcolumns p)) (pcolumns p) row)"

fun run_defined :: "lib \<Rightarrow> parsed_payload list \<Rightarrow> relation_state \<Rightarrow> bool" where
  "run_defined L [] s \<longleftrightarrow> True"
| "run_defined L (p # ps) s \<longleftrightarrow>
     step_defined L p s \<and> (\<forall>s'. ingest_step L p s s' \<longrightarrow> run_defined L ps s')"

section \<open>Evolving rows\<close>

lemma rows_evolve_union:
  assumes "rows_evolve L ps cols R1 R1'" "rows_evolve L ps cols R2 R2'"
  shows "rows_evolve L ps cols (R1 + R2) (R1' + R2')"
proof -
  obtain xs ys where 1: "mset xs = R1" "mset ys = R1'"
      "list_all2 (row_evolves L ps cols (length (fst (compute_delta cols ps)))) xs ys"
    using assms(1) by (auto simp: rows_evolve_def)
  obtain xs' ys' where 2: "mset xs' = R2" "mset ys' = R2'"
      "list_all2 (row_evolves L ps cols (length (fst (compute_delta cols ps)))) xs' ys'"
    using assms(2) by (auto simp: rows_evolve_def)
  show ?thesis
    unfolding rows_evolve_def using 1 2
    by (intro exI [of _ "xs @ xs'"] exI [of _ "ys @ ys'"]) (simp add: list_all2_appendI)
qed

lemma rows_evolve_list:
  "list_all2 (row_evolves L ps cols (length (fst (compute_delta cols ps)))) xs ys \<Longrightarrow>
     rows_evolve L ps cols (mset xs) (mset ys)"
  unfolding rows_evolve_def by blast

text \<open>Without a widening only NULLs are added.\<close>

lemma not_widens:
  assumes "\<not> snd (compute_delta cols ps)" "distinct (map (lower \<circ> fst) cols)" "i < length cols"
  shows "evolved_column ps (cols ! i) = cols ! i"
proof (cases "column_named ps (fst (cols ! i))")
  case None
  then show ?thesis by (simp add: evolved_column_def)
next
  case (Some c)
  then have c: "c \<in> set ps" "lower (cname c) = lower (fst (cols ! i))"
    by (auto simp: column_named_def find_Some_iff)
  then have "column_index cols (cname c) = Some i"
    using assms(2,3) by (intro column_index_nth) simp_all
  then have "join_column_types (snd (cols ! i)) (ctype c) = snd (cols ! i)"
    using assms(1) c(1)
    by (auto simp: compute_delta_def list_ex_iff column_exists_def column_type_def)
  with Some show ?thesis by (simp add: evolved_column_def)
qed

lemma evolved_columns_adds:
  assumes "\<not> snd (compute_delta cols ps)" "distinct (map (lower \<circ> fst) cols)"
  shows "evolved_columns cols ps = cols @ fst (compute_delta cols ps)"
proof -
  have "map (evolved_column ps) cols = cols"
    using not_widens [OF assms] by (intro nth_equalityI) simp_all
  then show ?thesis by (simp add: evolved_columns_def)
qed

lemma row_evolves_pad:
  assumes "\<not> snd (compute_delta cols ps)" "distinct (map (lower \<circ> fst) cols)" "length row = length cols"
  shows "row_evolves L ps cols n row (row @ replicate n CNull)"
  using not_widens [OF assms(1,2)] assms(3)
  by (auto simp: row_evolves_def cell_evolves_def nth_append)

lemma rows_evolve_pad:
  assumes "\<not> snd (compute_delta cols ps)" "distinct (map (lower \<circ> fst) cols)"
    and "\<forall>row \<in># R. length row = length cols"
  shows "rows_evolve L ps cols R
    (image_mset (\<lambda>r. r @ replicate (length (fst (compute_delta cols ps))) CNull) R)"
proof -
  obtain xs where xs: "mset xs = R" using ex_mset by blast
  let ?pad = "\<lambda>r. r @ replicate (length (fst (compute_delta cols ps))) CNull"
  have "list_all2 (row_evolves L ps cols (length (fst (compute_delta cols ps)))) xs (map ?pad xs)"
    using assms(3) row_evolves_pad [OF assms(1,2)] xs
    by (auto simp: list_all2_map2 list_all2_same)
  from rows_evolve_list [OF this] xs show ?thesis by simp
qed

text \<open>A payload the columns already cover changes nothing, and after evolving they cover it.\<close>

lemma covered_evolves:
  assumes "compute_delta cols ps = ([], False)" "distinct (map (lower \<circ> fst) cols)"
  shows "evolved_columns cols ps = cols"
    and "\<forall>row \<in># R. length row = length cols \<Longrightarrow> rows_evolve L ps cols R R"
  using evolved_columns_adds [of cols ps] rows_evolve_pad [of cols ps R L] assms by simp_all

lemma compute_delta_same:
  assumes "map (\<lambda>c. (lower (cname c), ctype c)) ps = map (\<lambda>c. (lower (cname c), ctype c)) qs"
    and "compute_delta cols ps = ([], False)"
  shows "compute_delta cols qs = ([], False)"
proof -
  let ?P = "\<lambda>c. column_index cols (cname c) \<noteq> None \<and>
      join_column_types (column_type cols (cname c)) (ctype c) = column_type cols (cname c)"
  let ?Q = "\<lambda>(n, t). column_index cols n \<noteq> None \<and>
      join_column_types (column_type cols n) t = column_type cols n"
  have delta: "compute_delta cols xs = ([], False) \<longleftrightarrow> (\<forall>c \<in> set xs. ?P c)" for xs
    by (force simp: compute_delta_def filter_empty_conv column_exists_def list_ex_iff)
  have eq: "?P c = ?Q (lower (cname c), ctype c)" for c
    using column_index_lower [of "cname c" "lower (cname c)" cols] by (simp add: column_type_def)
  have ball: "(\<forall>c \<in> set xs. ?P c) \<longleftrightarrow> (\<forall>x \<in> set (map (\<lambda>c. (lower (cname c), ctype c)) xs). ?Q x)" for xs
    unfolding list.set_map ball_simps(9) eq ..
  show ?thesis
    unfolding delta ball [of qs] assms(1) [symmetric]
    using assms(2) unfolding delta ball [of ps] .
qed

lemma evolved_covers:
  assumes "distinct (map (lower \<circ> fst) cols)" "distinct (map (lower \<circ> cname) ps)"
  shows "compute_delta (evolved_columns cols ps) ps = ([], False)"
proof -
  let ?cols = "evolved_columns cols ps"
  have "column_exists ?cols (cname c) \<and>
      join_column_types (column_type ?cols (cname c)) (ctype c) = column_type ?cols (cname c)"
    if c: "c \<in> set ps" for c
  proof -
    obtain i where "column_index ?cols (cname c) = Some i" and
      "snd (?cols ! i) = (if column_exists cols (cname c)
         then join_column_types (column_type cols (cname c)) (ctype c) else ctype c)"
      using evolved_columns_find [OF assms(2) c, of cols] by blast
    then show ?thesis
      by (simp add: column_exists_def column_type_def join_column_types_absorbs split: if_splits)
  qed
  then show ?thesis
    by (auto simp: compute_delta_def filter_empty_conv list_ex_iff)
qed

section \<open>DDL renews the storage token\<close>

lemma evolve_native_token:
  "evolve_native L existing cs fresh t = Inr (t', fresh', added, widened) \<Longrightarrow>
     (t' = t \<and> fresh' = fresh) \<or> (fresh \<le> ttoken t' \<and> ttoken t' < fresh')"
proof (induction L existing cs fresh t arbitrary: t' fresh' added widened rule: evolve_native.induct)
  case (2 L existing c cs fresh t)
  show ?case
  proof (cases "column_exists existing (cname c)")
    case False
    then obtain a where "evolve_native L existing cs (fresh + 1) (alter_add_column (cname c, ctype c) fresh t) =
        Inr (t', fresh', a, widened)"
      using 2(4) by (auto simp: map_sum_Inr_iff)
    from 2(1) [OF False this] show ?thesis by (auto simp: alter_add_column_def)
  next
    case True
    define target where "target = join_column_types (column_type existing (cname c)) (ctype c)"
    show ?thesis
    proof (cases "target = column_type existing (cname c)")
      case same: True
      then have "evolve_native L existing cs fresh t = Inr (t', fresh', added, widened)"
        using 2(4) True by (simp add: target_def Let_def)
      from 2(2) [OF _ target_def same this] True show ?thesis by simp
    next
      case False
      then obtain t1 w where t1: "alter_change_type L (the (column_index existing (cname c))) target fresh t = Inr t1"
          "evolve_native L existing cs (fresh + 1) t1 = Inr (t', fresh', added, w)"
        using 2(4) True by (auto simp: target_def Let_def map_sum_Inr_iff)
      then have "ttoken t1 = fresh" by (auto simp: alter_change_type_def)
      with 2(3) [OF _ target_def False t1(2)] True show ?thesis by auto
    qed
  qed
qed simp

section \<open>The representation\<close>

text \<open>Equal shape hashes mean equal folded names and equal types; the code relies on it.\<close>

definition shapes_typed :: "lib \<Rightarrow> parsed_payload set \<Rightarrow> bool" where
  "shapes_typed L S \<longleftrightarrow>
     (\<forall>p \<in> S. \<exists>h. hash_payload_shape L (pcolumns p) = Inr h \<and> h \<noteq> 0) \<and>
     (\<forall>p \<in> S. \<forall>q \<in> S. hash_payload_shape L (pcolumns p) = hash_payload_shape L (pcolumns q) \<longrightarrow>
        map (\<lambda>c. (lower (cname c), ctype c)) (pcolumns p) =
        map (\<lambda>c. (lower (cname c), ctype c)) (pcolumns q))"

lemma shapes_typedD:
  assumes "shapes_typed L S" "p \<in> S" "q \<in> S"
    and "hash_payload_shape L (pcolumns p) = Inr h" "hash_payload_shape L (pcolumns q) = Inr h"
  shows "map (\<lambda>c. (lower (cname c), ctype c)) (pcolumns p) =
    map (\<lambda>c. (lower (cname c), ctype c)) (pcolumns q)"
proof -
  have "hash_payload_shape L (pcolumns p) = hash_payload_shape L (pcolumns q)"
    unfolding assms(4,5) by (rule refl)
  with assms(1-3) show ?thesis unfolding shapes_typed_def by blast
qed

lemma shapes_separateD:
  assumes "shapes_separate L S" "p \<in> S" "q \<in> S"
    and "hash_payload_shape L (pcolumns p) = Inr h" "hash_payload_shape L (pcolumns q) = Inr h"
  shows "map (lower \<circ> cname) (pcolumns p) = map (lower \<circ> cname) (pcolumns q)"
proof -
  have "hash_payload_shape L (pcolumns p) = hash_payload_shape L (pcolumns q)"
    unfolding assms(4,5) by (rule refl)
  with assms(1-3) show ?thesis unfolding shapes_separate_def by blast
qed

lemma shapes_typed_separate: "shapes_typed L S \<Longrightarrow> shapes_separate L S"
proof -
  assume S: "shapes_typed L S"
  have "map (lower \<circ> cname) (pcolumns p) = map (lower \<circ> cname) (pcolumns q)"
    if "p \<in> S" "q \<in> S" "hash_payload_shape L (pcolumns p) = hash_payload_shape L (pcolumns q)" for p q
  proof -
    have "map (\<lambda>c. (lower (cname c), ctype c)) (pcolumns p) =
        map (\<lambda>c. (lower (cname c), ctype c)) (pcolumns q)"
      using S that unfolding shapes_typed_def by blast
    then have "map (fst \<circ> (\<lambda>c. (lower (cname c), ctype c))) (pcolumns p) =
        map (fst \<circ> (\<lambda>c. (lower (cname c), ctype c))) (pcolumns q)"
      by (metis list.map_comp)
    then show ?thesis by (simp add: comp_def)
  qed
  with S show ?thesis unfolding shapes_separate_def shapes_typed_def by blast
qed

definition pending_rows :: "lib \<Rightarrow> tcolumn list \<Rightarrow> parsed_payload list \<Rightarrow> cell list multiset" where
  "pending_rows L cols subs = mset (concat (map (rows_of L cols) subs))"

definition cache_sound :: "lib \<Rightarrow> parsed_payload set \<Rightarrow> ingestor \<Rightarrow> table \<Rightarrow> bool" where
  "cache_sound L S ing t \<longleftrightarrow>
     (\<forall>e. ishapes ing (ikey ing) = Some e \<longrightarrow>
        (\<forall>k. ctoken e = Some k \<longrightarrow> k < ifresh ing) \<and>
        (ctoken e = Some (ttoken t) \<longrightarrow>
          (\<forall>p \<in> S. \<forall>h \<in> set (cshapes e). hash_payload_shape L (pcolumns p) = Inr h \<longrightarrow>
             compute_delta (tcols t) (pcolumns p) = ([], False))))"

definition layout_sound :: "lib \<Rightarrow> parsed_payload set \<Rightarrow> append_layout_cache \<Rightarrow> table \<Rightarrow> bool" where
  "layout_sound L S lay t \<longleftrightarrow>
     (ltoken lay = Some (ttoken t) \<longrightarrow> lshape lay \<noteq> 0 \<longrightarrow> lslots lay \<noteq> [] \<longrightarrow>
        (\<forall>p \<in> S. hash_payload_shape L (pcolumns p) = Inr (lshape lay) \<longrightarrow>
           layout_of (tcols t) (pcolumns p) (lslots lay)))"

text \<open>\<open>R\<close>: the rows of the table and those the pool still holds; \<open>N\<close>: the rows counted.\<close>

definition rows_held :: "lib \<Rightarrow> parsed_payload set \<Rightarrow> ingestor \<Rightarrow> table \<Rightarrow> cell list multiset \<Rightarrow> nat \<Rightarrow> bool" where
  "rows_held L S ing t R N \<longleftrightarrow>
     (case ipool ing of
        None \<Rightarrow> R = mset (trows t) \<and> N = irows ing
      | Some P \<Rightarrow> published P = tcols t \<and> \<not> stopped P \<and> workers P \<noteq> [] \<and>
          (\<exists>subs. pool_inv L S subs P \<and> R = mset (trows t) + pending_rows L (tcols t) subs \<and>
             N = irows ing + size (pending_rows L (tcols t) subs)))"

definition table_rep ::
    "lib \<Rightarrow> parsed_payload set \<Rightarrow> ingestor \<Rightarrow> table \<Rightarrow> cell list multiset \<Rightarrow> nat \<Rightarrow> bool" where
  "table_rep L S ing t R N \<longleftrightarrow>
     itable ing = Some t \<and> table_ok t \<and> \<not> tgenerated t \<and> ttoken t < ifresh ing \<and>
     cache_sound L S ing t \<and> layout_sound L S (ilayout ing) t \<and> settings_ok (iwrite ing) \<and>
     rows_held L S ing t R N"

lemma table_rep_distinct: "table_rep L S ing t R N \<Longrightarrow> distinct (map (lower \<circ> fst) (tcols t))"
  by (simp add: table_rep_def table_ok_def)

lemma rows_of_width:
  assumes "batch_ready L S cols p" "row \<in> set (rows_of L cols p)"
  shows "length row = length cols"
proof -
  obtain out where out: "rows_in L cols p = Inr out" using assms(1) by (auto simp: batch_ready_def)
  then have "row \<in> set out" using assms(2) by (simp add: rows_of_def)
  with out have "\<exists>x \<in> set (prows (payload p)). row_cells L cols (pcolumns p) x = Inr row"
    unfolding rows_in_def map_result_iff by (blast dest: list_all2_set_right)
  then show ?thesis by (auto simp: row_cells_def dest: map_result_length)
qed

lemma rows_held_width:
  assumes "table_rep L S ing t R N"
  shows "\<forall>row \<in># R. length row = length (tcols t)"
proof (cases "ipool ing")
  case None
  with assms show ?thesis by (simp add: table_rep_def rows_held_def table_ok_def)
next
  case (Some P)
  then obtain subs where "pool_inv L S subs P" "R = mset (trows t) + pending_rows L (tcols t) subs"
      "published P = tcols t"
    using assms by (auto simp: table_rep_def rows_held_def)
  moreover from this have "\<forall>p \<in> set subs. batch_ready L S (tcols t) p" by (simp add: pool_inv_def)
  ultimately show ?thesis
    using assms rows_of_width by (fastforce simp: table_rep_def table_ok_def pending_rows_def)
qed

lemma rows_held_table: "table_rep L S ing t R N \<Longrightarrow> set (trows t) \<subseteq> set_mset R"
  by (auto simp: table_rep_def rows_held_def split: option.splits)

subsection \<open>Lookups and caches\<close>

lemma lookup_rep: "table_rep L S ing t R N \<Longrightarrow> table_rep L S (lookup_table_cached ing) t R N"
  by (simp add: table_rep_def lookup_table_cached_def cache_sound_def layout_sound_def rows_held_def
      split: option.splits)

lemma lookup_fields [simp]:
  "itable (lookup_table_cached ing) = itable ing" "ipool (lookup_table_cached ing) = ipool ing"
  "irows (lookup_table_cached ing) = irows ing" "ikey (lookup_table_cached ing) = ikey ing"
  "ishapes (lookup_table_cached ing) = ishapes ing" "ifresh (lookup_table_cached ing) = ifresh ing"
  "iname (lookup_table_cached ing) = iname ing" "iwrite (lookup_table_cached ing) = iwrite ing"
  "icores (lookup_table_cached ing) = icores ing" "ierrors (lookup_table_cached ing) = ierrors ing"
  by (simp_all add: lookup_table_cached_def invalidate_table_cache_def split: option.splits)

subsection \<open>Draining\<close>

lemma pool_drain_inv:
  assumes "pool_inv L S subs P" "shapes_separate L S" "workers P \<noteq> []"
  shows "\<exists>rows. pool_drain L (pool_wakes wk (length (queue P)) P) P t =
      Inr (t\<lparr>trows := trows t @ rows\<rparr>, length rows) \<and>
    mset rows = pending_rows L (published P) subs"
proof -
  have "length (queue P) \<le> length (pool_wakes wk (length (queue P)) P)"
    and "\<forall>i \<in> set (pool_wakes wk (length (queue P)) P). i < length (workers P)"
    using assms(3) by (auto simp: pool_wakes_def)
  from pool_drain_rows [OF assms(1,2) this] show ?thesis unfolding pending_rows_def .
qed

lemma drain_rep:
  assumes "table_rep L S ing t R N" "shapes_separate L S"
  shows "\<exists>rows. drain_pool L wk t ing =
      Inr (ing\<lparr>itable := Some (t\<lparr>trows := rows\<rparr>), irows := N, ipool := None\<rparr>) \<and>
    table_rep L S (ing\<lparr>itable := Some (t\<lparr>trows := rows\<rparr>), irows := N, ipool := None\<rparr>)
      (t\<lparr>trows := rows\<rparr>) R N \<and> mset rows = R"
proof -
  have "\<exists>rows. drain_pool L wk t ing =
      Inr (ing\<lparr>itable := Some (t\<lparr>trows := rows\<rparr>), irows := N, ipool := None\<rparr>) \<and> mset rows = R"
  proof (cases "ipool ing")
    case None
    with assms show ?thesis
      by (intro exI [of _ "trows t"]) (simp add: drain_pool_def table_rep_def rows_held_def)
  next
    case (Some P)
    then obtain subs where P: "pool_inv L S subs P" "workers P \<noteq> []" "published P = tcols t"
        "R = mset (trows t) + pending_rows L (tcols t) subs"
        "N = irows ing + size (pending_rows L (tcols t) subs)"
      using assms(1) by (auto simp: table_rep_def rows_held_def)
    obtain rows where "pool_drain L (pool_wakes wk (length (queue P)) P) P t =
        Inr (t\<lparr>trows := trows t @ rows\<rparr>, length rows)" "mset rows = pending_rows L (tcols t) subs"
      using pool_drain_inv [OF P(1) assms(2) P(2)] P(3) by auto
    moreover from this have "N = irows ing + length rows" using P(5) by (metis size_mset)
    ultimately show ?thesis
      using Some P(4) by (intro exI [of _ "trows t @ rows"]) (simp add: drain_pool_def)
  qed
  moreover have "table_rep L S (ing\<lparr>itable := Some (t\<lparr>trows := rows\<rparr>), irows := N, ipool := None\<rparr>)
      (t\<lparr>trows := rows\<rparr>) R N" if "mset rows = R" for rows
  proof -
    have "\<forall>row \<in> set rows. length row = length (tcols t)"
      using rows_held_width [OF assms(1)] that by (metis set_mset_mset)
    with assms(1) that show ?thesis
      by (simp add: table_rep_def table_ok_def cache_sound_def layout_sound_def rows_held_def)
  qed
  ultimately show ?thesis by blast
qed

subsection \<open>Evolving\<close>

lemma evolve_native_ok:
  assumes "table_ok t" "payload_ok p" "\<forall>row \<in> set (trows t). row_converts L (pcolumns p) (tcols t) row"
  shows "\<exists>t' fresh' added widened.
    evolve_native L (tcols t) (pcolumns p) fresh t = Inr (t', fresh', added, widened) \<and>
    table_ok t' \<and> tgenerated t' = tgenerated t \<and>
    tcols t' = evolved_columns (tcols t) (pcolumns p) \<and>
    list_all2 (row_evolves L (pcolumns p) (tcols t) (length (fst (compute_delta (tcols t) (pcolumns p)))))
      (trows t) (trows t') \<and>
    (t' = t \<and> fresh' = fresh \<or> fresh \<le> ttoken t' \<and> ttoken t' < fresh')"
proof -
  have dt: "distinct (map (lower \<circ> fst) (tcols t))"
    and rl: "\<forall>row \<in> set (trows t). length row = length (tcols t)"
    using assms(1) unfolding table_ok_def by blast+
  have dc: "distinct (map (lower \<circ> cname) (pcolumns p))" using assms(2) unfolding payload_ok_def by blast
  obtain t' fresh' added widened where
    ev: "evolve_native L (tcols t) (pcolumns p) fresh t = Inr (t', fresh', added, widened)"
    using evolve_native_defined [OF assms(1) dc assms(3)] by blast
  from evolve_native_spec [OF ev dc dt, of "tcols t" "[]"] rl
  have sp: "tcols t' = evolved_columns (tcols t) (pcolumns p)"
    "list_all2 (row_evolves L (pcolumns p) (tcols t) (length (fst (compute_delta (tcols t) (pcolumns p)))))
      (trows t) (trows t')"
    by (simp_all add: evolved_columns_def)
  have "length row = length (tcols t')" if "row \<in> set (trows t')" for row
    using list_all2_set_right [OF sp(2) that] rl by (auto simp: row_evolves_def sp(1) evolved_columns_def)
  then have "table_ok t'" using evolved_columns_distinct [OF dt dc] sp(1) by (simp add: table_ok_def)
  with ev sp evolve_native_token [OF ev] evolve_native_flags [OF ev] show ?thesis by blast
qed

lemma pending_rows_pad:
  assumes "pool_inv L S subs P" "published P = cols" "distinct (map (lower \<circ> fst) (cols @ new))"
  shows "pending_rows L (cols @ new) subs =
    image_mset (\<lambda>r. r @ replicate (length new) CNull) (pending_rows L cols subs)"
proof -
  have "rows_of L (cols @ new) p = map (\<lambda>r. r @ replicate (length new) CNull) (rows_of L cols p)"
    if "p \<in> set subs" for p
    using assms batch_ready_extend(2) that by (auto simp: pool_inv_def)
  then have "concat (map (rows_of L (cols @ new)) subs) =
      map (\<lambda>r. r @ replicate (length new) CNull) (concat (map (rows_of L cols) subs))"
    by (induction subs) simp_all
  then show ?thesis by (simp add: pending_rows_def)
qed

text \<open>What evolving leaves of the pool and its rows.\<close>

lemma publish_held:
  assumes rep: "table_rep L S ing t R N" and p: "payload_ok p"
    and w: "\<not> snd (compute_delta (tcols t) (pcolumns p))"
    and t': "tcols t' = evolved_columns (tcols t) (pcolumns p)"
      "rows_evolve L (pcolumns p) (tcols t) (mset (trows t)) (mset (trows t'))"
    and ing': "ipool ing' = (if fst (compute_delta (tcols t) (pcolumns p)) = [] then ipool ing
         else map_option (publish_columns (fst (compute_delta (tcols t) (pcolumns p)))) (ipool ing))"
      "irows ing' = irows ing"
  shows "\<exists>R'. rows_held L S ing' t' R' N \<and> rows_evolve L (pcolumns p) (tcols t) R R'"
proof (cases "ipool ing")
  case None
  with rep t' ing' show ?thesis by (auto simp: table_rep_def rows_held_def)
next
  case (Some P)
  let ?adds = "fst (compute_delta (tcols t) (pcolumns p))"
  let ?pad = "\<lambda>r. r @ replicate (length ?adds) CNull"
  obtain subs where P: "published P = tcols t" "\<not> stopped P" "workers P \<noteq> []" "pool_inv L S subs P"
      "R = mset (trows t) + pending_rows L (tcols t) subs"
      "N = irows ing + size (pending_rows L (tcols t) subs)"
    using rep Some by (auto simp: table_rep_def rows_held_def)
  have dt: "distinct (map (lower \<circ> fst) (tcols t))" using rep by (rule table_rep_distinct)
  have dc: "distinct (map (lower \<circ> cname) (pcolumns p))" using p unfolding payload_ok_def by blast
  have cols: "tcols t' = tcols t @ ?adds" using evolved_columns_adds [OF w dt] t'(1) by simp
  have da: "distinct (map (lower \<circ> fst) (tcols t @ ?adds))"
    using evolved_columns_distinct [OF dt dc] evolved_columns_adds [OF w dt] by simp
  let ?P = "if ?adds = [] then P else publish_columns ?adds P"
  have "pool_inv L S subs ?P" using publish_inv [OF P(4), of ?adds] da P(1,4) by simp
  moreover have "published ?P = tcols t'" "\<not> stopped ?P" "workers ?P \<noteq> []"
    using P(1-3) cols by (simp_all add: publish_columns_def)
  moreover have pend: "pending_rows L (tcols t') subs = image_mset ?pad (pending_rows L (tcols t) subs)"
    unfolding cols by (rule pending_rows_pad [OF P(4,1) da])
  ultimately have "rows_held L S ing' t' (mset (trows t') + image_mset ?pad (pending_rows L (tcols t) subs)) N"
    using Some ing' P(6) unfolding rows_held_def pend [symmetric] by (auto simp: pend)
  moreover have "rows_evolve L (pcolumns p) (tcols t) (pending_rows L (tcols t) subs)
      (image_mset ?pad (pending_rows L (tcols t) subs))"
    using rows_held_width [OF rep] P(5) by (intro rows_evolve_pad [OF w dt]) simp
  ultimately show ?thesis using rows_evolve_union [OF t'(2)] P(5) by blast
qed

lemma evolve_table_rep:
  assumes rep: "table_rep L S ing t R N" and p: "payload_ok p"
    and L: "\<forall>row \<in># R. row_converts L (pcolumns p) (tcols t) row"
    and S: "shapes_separate L S"
  shows "\<exists>ing' t' R'. evolve_table L wk t p ing = Inr ing' \<and> table_rep L S ing' t' R' N \<and>
    tcols t' = evolved_columns (tcols t) (pcolumns p) \<and> rows_evolve L (pcolumns p) (tcols t) R R' \<and>
    iname ing' = iname ing \<and> ierrors ing' = ierrors ing"
proof -
  let ?ps = "pcolumns p"
  obtain adds widens where delta: "compute_delta (tcols t) ?ps = (adds, widens)" by force
  have dt: "distinct (map (lower \<circ> fst) (tcols t))" using rep by (rule table_rep_distinct)
  define after where "after = (\<lambda>i t' f a w. let ing = invalidate_table_cache
      (i\<lparr>itable := Some t', ifresh := f, icolumns_added := icolumns_added i + a,
         icolumns_widened := icolumns_widened i + w\<rparr>)
    in if adds = [] then ing else ing\<lparr>ipool := map_option (publish_columns adds) (ipool ing)\<rparr>)"
  have fields: "itable (after i t' f a w) = Some t'" "ifresh (after i t' f a w) = f"
      "ishapes (after i t' f a w) = ishapes i" "ikey (after i t' f a w) = ikey i"
      "lshape (ilayout (after i t' f a w)) = 0" "iwrite (after i t' f a w) = iwrite i"
      "irows (after i t' f a w) = irows i" "iname (after i t' f a w) = iname i"
      "ierrors (after i t' f a w) = ierrors i"
      "ipool (after i t' f a w) = (if adds = [] then ipool i else map_option (publish_columns adds) (ipool i))"
    for i t' f a w
    by (simp_all add: after_def Let_def invalidate_table_cache_def)
  have run: "evolve_table L wk t p ing = Inr (after i t2 f a w)"
    if "(if widens then drain_pool L wk t ing else Inr ing) = Inr i" "itable i = Some t1"
      "evolve_native L (tcols t1) ?ps (ifresh i) t1 = Inr (t2, f, a, w)" for i t1 t2 f a w
    using that by (simp add: evolve_table_def delta after_def)
  have finish: "table_rep L S (after i t2 f a w) t2 R' N"
    if i: "table_rep L S i t1 R1 N" "tcols t1 = tcols t" and t2: "table_ok t2" "tgenerated t2 = tgenerated t1"
      and tok: "t2 = t1 \<and> f = ifresh i \<or> ifresh i \<le> ttoken t2 \<and> ttoken t2 < f"
      and held: "rows_held L S (after i t2 f a w) t2 R' N" for i t1 t2 f a w R1 R'
  proof -
    have "cache_sound L S (after i t2 f a w) t2"
      using i(1) tok by (auto simp: table_rep_def cache_sound_def fields)
    moreover have "layout_sound L S (ilayout (after i t2 f a w)) t2"
      by (simp add: layout_sound_def fields)
    ultimately show ?thesis using i t2 tok held by (auto simp: table_rep_def fields)
  qed
  show ?thesis
  proof (cases widens)
    case True
    obtain rows where d: "drain_pool L wk t ing =
          Inr (ing\<lparr>itable := Some (t\<lparr>trows := rows\<rparr>), irows := N, ipool := None\<rparr>)"
        "table_rep L S (ing\<lparr>itable := Some (t\<lparr>trows := rows\<rparr>), irows := N, ipool := None\<rparr>)
          (t\<lparr>trows := rows\<rparr>) R N" "mset rows = R"
      using drain_rep [OF rep S, of wk] by (elim exE conjE) (rule that)
    let ?i = "ing\<lparr>itable := Some (t\<lparr>trows := rows\<rparr>), irows := N, ipool := None\<rparr>"
    let ?t = "t\<lparr>trows := rows\<rparr>"
    have ok: "table_ok ?t" using d(2) by (simp add: table_rep_def)
    obtain t2 f a w where t2: "evolve_native L (tcols t) ?ps (ifresh ing) ?t = Inr (t2, f, a, w)"
        "table_ok t2" "tgenerated t2 = tgenerated ?t" "tcols t2 = evolved_columns (tcols t) ?ps"
        "list_all2 (row_evolves L ?ps (tcols t) (length (fst (compute_delta (tcols t) ?ps)))) rows (trows t2)"
        "t2 = ?t \<and> f = ifresh ing \<or> ifresh ing \<le> ttoken t2 \<and> ttoken t2 < f"
      using evolve_native_ok [OF ok p, of L "ifresh ing"] L d(3) by auto
    have "rows_held L S (after ?i t2 f a w) t2 (mset (trows t2)) N"
      by (simp add: rows_held_def fields)
    then have "table_rep L S (after ?i t2 f a w) t2 (mset (trows t2)) N"
      using t2 by (intro finish [OF d(2)]) simp_all
    moreover have "rows_evolve L ?ps (tcols t) R (mset (trows t2))"
      using rows_evolve_list [OF t2(5)] d(3) by simp
    ultimately show ?thesis
      using run [of ?i ?t t2 f a w] True d(1) t2(1,4)
      by (intro exI [of _ "after ?i t2 f a w"] exI [of _ t2] exI [of _ "mset (trows t2)"]) (simp add: fields)
  next
    case False
    have ok: "table_ok t" "itable ing = Some t" using rep by (simp_all add: table_rep_def)
    have conv: "\<forall>row \<in> set (trows t). row_converts L (pcolumns p) (tcols t) row"
      using L rows_held_table [OF rep] by blast
    obtain t2 f a w where t2: "evolve_native L (tcols t) ?ps (ifresh ing) t = Inr (t2, f, a, w)"
        "table_ok t2" "tgenerated t2 = tgenerated t" "tcols t2 = evolved_columns (tcols t) ?ps"
        "list_all2 (row_evolves L ?ps (tcols t) (length (fst (compute_delta (tcols t) ?ps))))
          (trows t) (trows t2)"
        "t2 = t \<and> f = ifresh ing \<or> ifresh ing \<le> ttoken t2 \<and> ttoken t2 < f"
      using evolve_native_ok [OF ok(1) p conv, of "ifresh ing"] by auto
    obtain R' where R': "rows_held L S (after ing t2 f a w) t2 R' N" "rows_evolve L ?ps (tcols t) R R'"
      using publish_held [OF rep p _ t2(4) rows_evolve_list [OF t2(5)], of "after ing t2 f a w",
          unfolded delta fst_conv snd_conv] False
      by (auto simp: fields)
    have "table_rep L S (after ing t2 f a w) t2 R' N"
      using t2 R'(1) by (intro finish [OF rep]) simp_all
    then show ?thesis
      using run [of ing t t2 f a w] False ok(2) t2(1,4) R'(2)
      by (intro exI [of _ "after ing t2 f a w"] exI [of _ t2] exI [of _ R']) (simp add: fields)
  qed
qed

subsection \<open>Absorbing a shape\<close>

lemma hash_known: "shapes_typed L S \<Longrightarrow> p \<in> S \<Longrightarrow> \<exists>h. hash_payload_shape L (pcolumns p) = Inr h \<and> h \<noteq> 0"
  unfolding shapes_typed_def by blast

lemma absorb_shape_rep:
  assumes rep: "table_rep L S ing t R N" and S: "shapes_typed L S" "p \<in> S"
    and h: "hash_payload_shape L (pcolumns p) = Inr h"
    and cov: "compute_delta (tcols t) (pcolumns p) = ([], False)"
  shows "table_rep L S (absorb_shape t h ing) t R N"
proof -
  have "compute_delta (tcols t) (pcolumns q) = ([], False)"
    if "q \<in> S" "hash_payload_shape L (pcolumns q) = Inr h" for q
    by (rule compute_delta_same [OF shapes_typedD [OF S that(1) h that(2)] cov])
  then have "cache_sound L S (absorb_shape t h ing) t"
    using rep
    by (auto simp: table_rep_def cache_sound_def absorb_shape_def Let_def split: option.splits if_splits)
  moreover have "rows_held L S (absorb_shape t h ing) t R N"
    using rep by (auto simp: table_rep_def rows_held_def absorb_shape_def Let_def split: option.splits)
  ultimately show ?thesis
    using rep by (simp add: table_rep_def absorb_shape_def Let_def)
qed

lemma absorb_schema_rep:
  assumes rep: "table_rep L S ing t R N" and p: "payload_ok p"
    and L: "\<forall>row \<in># R. row_converts L (pcolumns p) (tcols t) row"
    and S: "shapes_typed L S" "p \<in> S"
  shows "\<exists>ing' t' R'. absorb_schema L wk t p ing = Inr ing' \<and> table_rep L S ing' t' R' N \<and>
    tcols t' = evolved_columns (tcols t) (pcolumns p) \<and> rows_evolve L (pcolumns p) (tcols t) R R' \<and>
    iname ing' = iname ing \<and> ierrors ing' = ierrors ing"
proof -
  have dt: "distinct (map (lower \<circ> fst) (tcols t))" using rep by (rule table_rep_distinct)
  have dc: "distinct (map (lower \<circ> cname) (pcolumns p))" using p unfolding payload_ok_def by blast
  obtain h where h: "hash_payload_shape L (pcolumns p) = Inr h" using hash_known [OF S] by blast
  show ?thesis
  proof (cases "shape_absorbed ing t h")
    case True
    then have "compute_delta (tcols t) (pcolumns p) = ([], False)"
      using rep S(2) h
      by (auto simp: shape_absorbed_def table_rep_def cache_sound_def split: option.splits)
    from covered_evolves [OF this dt] rows_held_width [OF rep] rep h True show ?thesis
      by (intro exI [of _ ing] exI [of _ t] exI [of _ R]) (simp add: absorb_schema_def)
  next
    case False
    obtain ing' t' R' where e: "evolve_table L wk t p ing = Inr ing'" "table_rep L S ing' t' R' N"
        "tcols t' = evolved_columns (tcols t) (pcolumns p)" "rows_evolve L (pcolumns p) (tcols t) R R'"
        "iname ing' = iname ing \<and> ierrors ing' = ierrors ing"
      using evolve_table_rep [OF rep p L shapes_typed_separate [OF S(1)], of wk] by blast
    have "compute_delta (tcols t') (pcolumns p) = ([], False)"
      unfolding e(3) by (rule evolved_covers [OF dt dc])
    from absorb_shape_rep [OF lookup_rep [OF e(2)] S h this]
    have "table_rep L S (absorb_shape t' h (lookup_table_cached ing')) t' R' N" .
    moreover have "itable ing' = Some t'" using e(2) by (simp add: table_rep_def)
    ultimately show ?thesis
      using False h e
      by (intro exI [of _ "absorb_shape t' h (lookup_table_cached ing')"] exI [of _ t'] exI [of _ R'])
        (simp add: absorb_schema_def Let_def, simp add: absorb_shape_def Let_def)
  qed
qed

subsection \<open>Adding the rows\<close>

lemma ensure_pool_rep:
  assumes rep: "table_rep L S ing t R N"
  shows "table_rep L S (ensure_pool t p ing) t R N"
proof (cases "ipool ing \<noteq> None \<or> prows (payload p) = [] \<or> \<not> pool_eligible t p ing")
  case False
  let ?n = "pool_thread_count (icores ing) (iwrite ing) (length (prows (payload p)))"
  let ?P = "new_pool t ?n (pipeline_depth (iwrite ing))"
  have "pool_inv L S [] ?P" by (rule new_pool_inv [OF table_rep_distinct [OF rep]])
  moreover have "workers ?P \<noteq> []" using pool_thread_count_pos [of "icores ing"] by (simp add: new_pool_def)
  moreover have "published ?P = tcols t" "\<not> stopped ?P" by (simp_all add: new_pool_def)
  ultimately have "rows_held L S (ensure_pool t p ing) t R N"
    using False rep
    by (auto simp: table_rep_def rows_held_def ensure_pool_def pending_rows_def intro!: exI [of _ "[]"])
  then show ?thesis
    using rep by (simp add: table_rep_def ensure_pool_def cache_sound_def)
qed (use rep in \<open>simp add: ensure_pool_def\<close>)

lemma run_queue_keeps:
  assumes "shapes_separate L S"
  shows "pool_inv L S subs P \<Longrightarrow> \<forall>i \<in> set sched. i < length (workers P) \<Longrightarrow>
    pool_inv L S subs (run_queue L sched P) \<and> published (run_queue L sched P) = published P \<and>
    stopped (run_queue L sched P) = stopped P \<and>
    length (workers (run_queue L sched P)) = length (workers P)"
proof (induction sched arbitrary: P)
  case (Cons i sched)
  show ?case
  proof (cases "queue P = []")
    case False
    from worker_turn_inv [OF Cons.prems(1) _ False assms, of i]
      worker_turn_stopped [OF Cons.prems(1) _ False assms, of i] Cons.IH [of "worker_turn L i P"]
      Cons.prems(2) False
    show ?thesis by simp
  qed (use Cons in simp)
qed simp

lemma submit_rep:
  assumes rep: "table_rep L S ing t R N" and S: "shapes_separate L S" and P: "ipool ing = Some P"
    and p: "batch_ready L S (tcols t) p"
  shows "table_rep L S (ing\<lparr>ipool := Some (submit_waiting L wk p P)\<rparr>) t
    (R + mset (rows_of L (tcols t) p)) (N + length (rows_of L (tcols t) p))"
proof -
  obtain subs where I: "published P = tcols t" "\<not> stopped P" "workers P \<noteq> []" "pool_inv L S subs P"
      "R = mset (trows t) + pending_rows L (tcols t) subs"
      "N = irows ing + size (pending_rows L (tcols t) subs)"
    using rep P by (auto simp: table_rep_def rows_held_def)
  define Q where "Q = run_queue L (pool_wakes wk
      (max (wextra wk) (Suc (length (queue P)) - max_queue_depth P)) P) P"
  have "\<forall>i \<in> set (pool_wakes wk n P). i < length (workers P)" for n
    using I(3) by (auto simp: pool_wakes_def)
  from run_queue_keeps [OF S I(4) this]
  have Q: "pool_inv L S subs Q" "published Q = tcols t" "\<not> stopped Q" "workers Q \<noteq> []"
    using I(1-3) unfolding Q_def by (simp_all flip: length_greater_0_conv)
  have "pool_inv L S (subs @ [p]) (pool_submit p Q)"
    using submit_inv [OF Q(1)] p Q(2,3) by simp
  moreover have "published (pool_submit p Q) = tcols t" "\<not> stopped (pool_submit p Q)"
      "workers (pool_submit p Q) \<noteq> []"
    using Q by (simp_all add: pool_submit_def)
  moreover have "submit_waiting L wk p P = pool_submit p Q" by (simp add: submit_waiting_def Q_def)
  moreover have "pending_rows L (tcols t) (subs @ [p]) =
      pending_rows L (tcols t) subs + mset (rows_of L (tcols t) p)"
    by (simp add: pending_rows_def)
  ultimately have "rows_held L S (ing\<lparr>ipool := Some (submit_waiting L wk p P)\<rparr>) t
      (R + mset (rows_of L (tcols t) p)) (N + length (rows_of L (tcols t) p))"
    using I(5,6) by (auto simp: rows_held_def intro!: exI [of _ "subs @ [p]"])
  with rep show ?thesis by (simp add: table_rep_def cache_sound_def)
qed

lemma append_direct_rep:
  assumes rep: "table_rep L S ing t R N" and S: "shapes_typed L S"
    and p: "batch_ready L S (tcols t) p" and A: "\<And>out. append_ok L (iname ing) out"
  shows "\<exists>ing' t'. append_direct L t p ing = Inr ing' \<and> tcols t' = tcols t \<and> iname ing' = iname ing \<and> ierrors ing' = ierrors ing \<and>
    table_rep L S ing' t' (R + mset (rows_of L (tcols t) p)) (N + length (rows_of L (tcols t) p))"
proof -
  have pS: "p \<in> S" and ok: "payload_ok p" using p by (auto simp: batch_ready_def)
  have dt: "distinct (map (lower \<circ> fst) (tcols t))" using rep by (rule table_rep_distinct)
  obtain h where h: "hash_payload_shape L (pcolumns p) = Inr h" "h \<noteq> 0" using hash_known [OF S pS] by blast
  obtain out where out: "rows_in L (tcols t) p = Inr out" using p by (auto simp: batch_ready_def)
  have "\<exists>lay. resolve_cached_layout L t p (ilayout ing) = Inr lay \<and>
      layout_of (tcols t) (pcolumns p) (lslots lay) \<and> layout_sound L S lay t"
  proof (cases "ltoken (ilayout ing) = Some (ttoken t) \<and> lshape (ilayout ing) = h \<and> lslots (ilayout ing) \<noteq> []")
    case True
    with rep pS h show ?thesis
      by (intro exI [of _ "ilayout ing"]) (auto simp: resolve_cached_layout_def table_rep_def layout_sound_def)
  next
    case False
    have "\<exists>slot_of. resolve_append_layout (tcols t) (pcolumns p) = Inr slot_of"
      unfolding resolve_append_layout_def using p
      by (intro map_result_ex) (auto simp: batch_ready_def fits_layout_def)
    then obtain slot_of where s: "resolve_append_layout (tcols t) (pcolumns p) = Inr slot_of" by blast
    have lay: "layout_of (tcols t) (pcolumns p) slot_of" by (rule resolve_layout [OF dt s])
    have "layout_of (tcols t) (pcolumns q) slot_of"
      if "q \<in> S" "hash_payload_shape L (pcolumns q) = Inr h" for q
      by (rule layout_of_names [OF lay
          shapes_separateD [OF shapes_typed_separate [OF S] pS that(1) h(1) that(2)]])
    then have "layout_sound L S \<lparr>ltoken = Some (ttoken t), lshape = h, lslots = slot_of\<rparr> t"
      by (simp add: layout_sound_def)
    moreover have "resolve_cached_layout L t p (ilayout ing) =
        Inr \<lparr>ltoken = Some (ttoken t), lshape = h, lslots = slot_of\<rparr>"
      using False h s unfolding resolve_cached_layout_def by simp metis
    ultimately show ?thesis using lay by auto
  qed
  then obtain lay where lay: "resolve_cached_layout L t p (ilayout ing) = Inr lay"
      "layout_of (tcols t) (pcolumns p) (lslots lay)" "layout_sound L S lay t" by blast
  have gen: "\<not> tgenerated t" using rep by (simp add: table_rep_def)
  let ?t = "t\<lparr>trows := trows t @ out\<rparr>"
  let ?ing = "ing\<lparr>itable := Some ?t, ilayout := lay, irows := irows ing + length (prows (payload p))\<rparr>"
  have "append_native L (iname ing) (lslots lay) p t = Inr ?t"
    by (rule append_native_rows [OF ok lay(2) gen A out [unfolded rows_in_def]])
  then have run: "append_direct L t p ing = Inr ?ing" using gen lay(1) by (simp add: append_direct_def)
  have rows: "rows_of L (tcols t) p = out" by (simp add: rows_of_def out)
  have len: "length out = length (prows (payload p))"
    using out unfolding rows_in_def by (rule map_result_length)
  have "\<forall>row \<in> set out. length row = length (tcols t)" using rows_of_width [OF p] rows by simp
  then have "table_rep L S ?ing ?t (R + mset out) (N + length out)"
    using rep lay(3) len
    by (auto simp: table_rep_def table_ok_def cache_sound_def layout_sound_def rows_held_def
        split: option.splits)
  then show ?thesis using run rows by (intro exI [of _ ?ing] exI [of _ ?t]) simp
qed

section \<open>One batch\<close>

text \<open>The columns a payload infers can be filled directly, and widening keeps it so.\<close>

lemma column_type_supported:
  assumes "infer_and_flatten L raw = Inr p" "c \<in> set (pcolumns p)"
  shows "raw_fill_supported (ctype c)"
proof -
  let ?root = "infer_schema L (prows raw)"
  have fl: "flatten_schema ?root (scalar_rows raw) = Inr (pcolumns p)"
    using assms(1) by (auto simp: infer_and_flatten_def Let_def)
  have "\<exists>m. ctype c = node_to_type m"
  proof (cases "scalar_rows raw \<or> nclass ?root \<noteq> NC_OBJECT")
    case True
    then have "pcolumns p = [\<lparr>cname = ''value'', cpath = [], ctype = node_to_type ?root, cnode = []\<rparr>]"
      using fl assms(2) by (auto simp: flatten_schema_def split: if_splits)
    with assms(2) show ?thesis by fastforce
  next
    case False
    then have obj: "nclass ?root = NC_OBJECT" and fl': "flatten_schema ?root False = Inr (pcolumns p)"
      using fl by simp_all
    obtain k where "k < length (pcolumns p)" "pcolumns p ! k = c"
      using assms(2) by (auto simp: in_set_conv_nth)
    with flatten_schema_leaf [OF fl' obj, of k] show ?thesis by auto
  qed
  then show ?thesis by (auto simp: node_to_type_abs schema_type_supported simp del: raw_fill_supported.simps)
qed

lemma join_flat_supported:
  "\<forall>x y. \<not> (a = TList x \<and> b = TList y) \<Longrightarrow> raw_fill_supported a \<Longrightarrow> raw_fill_supported b \<Longrightarrow>
     raw_fill_supported (join_column_types a b)"
  by (cases a; cases b) (simp_all add: join_flat_types_def is_numeric_type_def is_temporal_type_def)

lemma join_supported:
  "raw_fill_supported a \<Longrightarrow> raw_fill_supported b \<Longrightarrow> raw_fill_supported (join_column_types a b)"
proof (induction a b rule: join_column_types.induct)
  case (1 a b)
  then show ?case by (cases "a = b") simp_all
qed (rule join_flat_supported; simp)+

lemma evolved_supported:
  assumes "types_filled cols" "infer_and_flatten L raw = Inr p"
  shows "types_filled (evolved_columns cols (pcolumns p))"
proof -
  have "raw_fill_supported (snd (evolved_column (pcolumns p) c))" if "c \<in> set cols" for c
  proof (cases "column_named (pcolumns p) (fst c)")
    case None
    with that assms(1) show ?thesis
      by (simp add: evolved_column_def types_filled_def del: raw_fill_supported.simps)
  next
    case (Some d)
    then have "d \<in> set (pcolumns p)" by (auto simp: column_named_def find_Some_iff)
    then have "raw_fill_supported (ctype d)" by (rule column_type_supported [OF assms(2)])
    with that assms(1) Some show ?thesis
      by (simp add: evolved_column_def types_filled_def join_supported del: raw_fill_supported.simps)
  qed
  moreover have "raw_fill_supported (snd c)" if "c \<in> set (fst (compute_delta cols (pcolumns p)))" for c
    using that column_type_supported [OF assms(2)] by (auto simp: compute_delta_def simp del: raw_fill_supported.simps)
  ultimately show ?thesis
    by (auto simp: types_filled_def evolved_columns_def simp del: raw_fill_supported.simps)
qed

text \<open>A batch as the ingest sees it, for a table with the columns.\<close>

definition batch_fits :: "lib \<Rightarrow> parsed_payload set \<Rightarrow> tcolumn list \<Rightarrow> parsed_payload \<Rightarrow> bool" where
  "batch_fits L S cols p \<longleftrightarrow>
     p \<in> S \<and> payload_ok p \<and> (\<exists>out. rows_in L (evolved_columns cols (pcolumns p)) p = Inr out)"

lemma inferred_batch_fits:
  assumes "infer_and_flatten L raw = Inr p" "p \<in> S" "types_filled cols"
    and "\<forall>row \<in> set (prows (payload p)). \<not> row_unwritable L (evolved_columns cols (pcolumns p)) (pcolumns p) row"
  shows "batch_fits L S cols p"
proof -
  have "\<exists>out. rows_in L (evolved_columns cols (pcolumns p)) p = Inr out"
    unfolding rows_in_def
    using row_cells_result [OF evolved_supported [OF assms(3,1)]] assms(4) by (intro map_result_ex) meson
  with assms(2) infer_and_flatten_ok [OF assms(1)] show ?thesis by (simp add: batch_fits_def)
qed

lemma batch_fits_ready:
  assumes "batch_fits L S cols p" "distinct (map (lower \<circ> fst) cols)"
  shows "batch_ready L S (evolved_columns cols (pcolumns p)) p"
proof -
  have "distinct (map (lower \<circ> cname) (pcolumns p))"
    using assms(1) unfolding batch_fits_def payload_ok_def by blast
  from evolved_columns_find [OF this] have "fits_layout (evolved_columns cols (pcolumns p)) p"
    by (fastforce simp: fits_layout_def)
  with assms(1) show ?thesis by (simp add: batch_fits_def batch_ready_def)
qed

lemma append_or_submit_rep:
  assumes rep: "table_rep L S ing t R N" and S: "shapes_typed L S"
    and p: "batch_ready L S (tcols t) p" and A: "\<And>out. append_ok L (iname ing) out"
  shows "\<exists>ing' t'. append_or_submit L wk t p ing = Inr ing' \<and> tcols t' = tcols t \<and>
    iname ing' = iname ing \<and> ierrors ing' = ierrors ing \<and>
    table_rep L S ing' t' (R + mset (rows_of L (tcols t) p)) (N + length (rows_of L (tcols t) p))"
proof (cases "ipool ing")
  case None
  then show ?thesis
    using append_direct_rep [OF rep S p A] by (simp add: append_or_submit_def)
next
  case (Some P)
  then show ?thesis
    using submit_rep [OF rep shapes_typed_separate [OF S] Some p, of wk]
    by (simp add: append_or_submit_def) (intro exI [of _ t], simp)
qed

text \<open>The common tail: evolved, the rows are added unless there are none.\<close>

definition batch_count :: "parsed_payload \<Rightarrow> nat" where
  "batch_count p = (if pcolumns p = [] then 0 else length (prows (payload p)))"

lemma rows_of_ready:
  "batch_ready L S cols p \<Longrightarrow>
     rows_in L cols p = Inr (rows_of L cols p) \<and> length (rows_of L cols p) = length (prows (payload p))"
  by (auto simp: batch_ready_def rows_of_def rows_in_def dest: map_result_length)

lemma tail_rep:
  assumes rep: "table_rep L S ing t R' N" and S: "shapes_typed L S"
    and t: "tcols t = evolved_columns cols (pcolumns p)" and p: "batch_ready L S (tcols t) p"
    and A: "\<And>out. append_ok L (iname ing) out" and ps: "pcolumns p \<noteq> []"
    and R': "rows_evolve L (pcolumns p) cols R R'"
  shows "\<exists>ing' t' R''. (if prows (payload p) = [] then Inr ing
      else append_or_submit L wk t p (ensure_pool t p ing)) = Inr ing' \<and>
    table_rep L S ing' t' R'' (N + batch_count p) \<and> ingest_step L p (cols, R) (tcols t', R'') \<and>
    iname ing' = iname ing \<and> ierrors ing' = ierrors ing"
proof -
  note rows = rows_of_ready [OF p]
  have step: "ingest_step L p (cols, R) (tcols t, R' + mset (rows_of L (tcols t) p))"
    using ps R' t rows by (auto simp: ingest_step_def)
  show ?thesis
  proof (cases "prows (payload p) = []")
    case True
    then have "rows_of L (tcols t) p = []" using rows by simp
    with True rep step show ?thesis
      by (intro exI [of _ ing] exI [of _ t] exI [of _ R']) (simp add: batch_count_def)
  next
    case False
    have e: "iname (ensure_pool t p ing) = iname ing" "ierrors (ensure_pool t p ing) = ierrors ing"
      by (simp_all add: ensure_pool_def)
    have A': "append_ok L (iname (ensure_pool t p ing)) out" for out using A e by simp
    obtain ing' t' where "append_or_submit L wk t p (ensure_pool t p ing) = Inr ing'"
        "tcols t' = tcols t" "iname ing' = iname ing" "ierrors ing' = ierrors ing"
        "table_rep L S ing' t' (R' + mset (rows_of L (tcols t) p)) (N + length (rows_of L (tcols t) p))"
      using append_or_submit_rep [OF ensure_pool_rep [OF rep] S p A', of wk] e by auto
    with False step rows ps show ?thesis
      by (intro exI [of _ ing'] exI [of _ t'] exI [of _ "R' + mset (rows_of L (tcols t) p)"])
        (simp add: batch_count_def)
  qed
qed

lemma ingest_native_rep:
  assumes rep: "table_rep L S ing t R N" and S: "shapes_typed L S"
    and L: "\<forall>row \<in># R. row_converts L (pcolumns p) (tcols t) row"
    and p: "batch_fits L S (tcols t) p" and A: "\<And>out. append_ok L (iname ing) out"
  shows "\<exists>ing' t' R'. ingest_native L wk p ing = Inr ing' \<and> table_rep L S ing' t' R' (N + batch_count p) \<and>
    ingest_step L p (tcols t, R) (tcols t', R') \<and> iname ing' = iname ing \<and> ierrors ing' = ierrors ing"
proof (cases "pcolumns p = []")
  case True
  have "itable ing = Some t" using rep by (simp add: table_rep_def)
  with True lookup_rep [OF rep] show ?thesis
    by (intro exI [of _ "lookup_table_cached ing"] exI [of _ t] exI [of _ R])
      (simp add: ingest_native_def legacy_ingest_native_def ingest_step_def batch_count_def)
next
  case False
  have pS: "p \<in> S" "payload_ok p" using p by (simp_all add: batch_fits_def)
  obtain ing' t' R' where a: "absorb_schema L wk t p (lookup_table_cached ing) = Inr ing'"
      "table_rep L S ing' t' R' N" "tcols t' = evolved_columns (tcols t) (pcolumns p)"
      "rows_evolve L (pcolumns p) (tcols t) R R'" "iname ing' = iname ing" "ierrors ing' = ierrors ing"
    using absorb_schema_rep [OF lookup_rep [OF rep] pS(2) L S pS(1), of wk] by auto
  have "batch_ready L S (tcols t') p"
    unfolding a(3) by (rule batch_fits_ready [OF p table_rep_distinct [OF rep]])
  moreover have "append_ok L (iname ing') out" for out using A a(5) by simp
  ultimately obtain ing'' t'' R'' where tail: "(if prows (payload p) = [] then Inr ing'
      else append_or_submit L wk t' p (ensure_pool t' p ing')) = Inr ing''"
      "table_rep L S ing'' t'' R'' (N + batch_count p)" "ingest_step L p (tcols t, R) (tcols t'', R'')"
      "iname ing'' = iname ing'" "ierrors ing'' = ierrors ing'"
    using tail_rep [OF a(2) S a(3) _ _ False a(4), of wk] by blast
  have "itable ing = Some t" "itable ing' = Some t'" using rep a(2) by (simp_all add: table_rep_def)
  then have "ingest_native L wk p ing = Inr ing''"
    using False a(1) tail(1) by (simp add: ingest_native_def Let_def split: if_splits)
  with tail(2-5) a(5,6) show ?thesis by metis
qed

section \<open>The first batch\<close>

definition no_table :: "ingestor \<Rightarrow> nat \<Rightarrow> bool" where
  "no_table ing N \<longleftrightarrow>
     itable ing = None \<and> ipool ing = None \<and> settings_ok (iwrite ing) \<and> irows ing = N \<and>
     (\<forall>e k. ishapes ing (ikey ing) = Some e \<longrightarrow> ctoken e = Some k \<longrightarrow> k < ifresh ing)"

lemma created_rep:
  assumes none: "no_table ing N" and p: "payload_ok p"
  shows "table_rep L S (invalidate_table_cache
      (ing\<lparr>itable := Some (create_native (pcolumns p) (ifresh ing)), ifresh := Suc (ifresh ing),
            icreated := True, icolumns_added := icolumns_added ing + length (pcolumns p)\<rparr>))
    (create_native (pcolumns p) (ifresh ing)) {#} N"
proof -
  have "distinct (map (lower \<circ> cname) (pcolumns p))" using p unfolding payload_ok_def by blast
  then show ?thesis
    using none
    by (fastforce simp: table_rep_def no_table_def invalidate_table_cache_def create_native_def table_ok_def
        cache_sound_def layout_sound_def rows_held_def comp_def less_Suc_eq)
qed

lemma created_columns: "tcols (create_native ps fresh) = evolved_columns [] ps"
  by (simp add: create_native_def evolved_columns_def compute_delta_def column_exists_def)

lemma ingest_creates:
  assumes none: "no_table ing N" and S: "shapes_typed L S" and p: "batch_fits L S [] p"
    and ps: "pcolumns p \<noteq> []" and A: "\<And>out. append_ok L (iname ing) out"
  shows "\<exists>ing' t' R'. ingest_native L wk p ing = Inr ing' \<and> table_rep L S ing' t' R' (N + batch_count p) \<and>
    ingest_step L p ([], {#}) (tcols t', R') \<and> iname ing' = iname ing \<and> ierrors ing' = ierrors ing"
proof -
  let ?ing = "invalidate_table_cache ing"
  have none': "no_table ?ing N" and it: "itable ing = None"
    using none by (simp_all add: no_table_def invalidate_table_cache_def)
  have pS: "payload_ok p" using p by (simp add: batch_fits_def)
  let ?t = "create_native (pcolumns p) (ifresh ?ing)"
  let ?ing1 = "invalidate_table_cache
      (?ing\<lparr>itable := Some ?t, ifresh := Suc (ifresh ?ing), icreated := True,
            icolumns_added := icolumns_added ?ing + length (pcolumns p)\<rparr>)"
  have rep: "table_rep L S ?ing1 ?t {#} N" by (rule created_rep [OF none' pS])
  have ids: "iname ?ing1 = iname ing" "ierrors ?ing1 = ierrors ing" "itable ?ing1 = Some ?t"
    by (simp_all add: invalidate_table_cache_def)
  have "batch_ready L S (tcols ?t) p"
    unfolding created_columns by (rule batch_fits_ready [OF p]) simp
  moreover have "append_ok L (iname (lookup_table_cached ?ing1)) out" for out using A ids by simp
  moreover have "rows_evolve L (pcolumns p) [] {#} {#}" by (simp add: rows_evolve_def)
  ultimately obtain ing'' t'' R'' where tail: "(if prows (payload p) = [] then Inr (lookup_table_cached ?ing1)
      else append_or_submit L wk ?t p (ensure_pool ?t p (lookup_table_cached ?ing1))) = Inr ing''"
      "table_rep L S ing'' t'' R'' (N + batch_count p)" "ingest_step L p ([], {#}) (tcols t'', R'')"
      "iname ing'' = iname (lookup_table_cached ?ing1)" "ierrors ing'' = ierrors (lookup_table_cached ?ing1)"
    using tail_rep [OF lookup_rep [OF rep] S created_columns _ _ ps, where wk = wk] by blast
  have look: "lookup_table_cached ing = ?ing" using it by (simp add: lookup_table_cached_def)
  have "itable ?ing = None" using it by (simp add: invalidate_table_cache_def)
  then have run: "ingest_native L wk p ing =
      (if prows (payload p) = [] then Inr ?ing1
       else append_or_submit L wk ?t p (ensure_pool ?t p (lookup_table_cached ?ing1)))"
    using ps ids(3) by (simp add: ingest_native_def legacy_ingest_native_def look Let_def)
  show ?thesis
  proof (cases "prows (payload p) = []")
    case True
    then have "ing'' = lookup_table_cached ?ing1" using tail(1) by simp
    moreover have "table_rep L S ?ing1 ?t {#} (N + batch_count p)" using rep True ps by (simp add: batch_count_def)
    moreover have "ingest_step L p ([], {#}) (tcols ?t, {#})"
      using True ps by (simp add: ingest_step_def created_columns rows_in_def rows_evolve_def)
    ultimately show ?thesis using True run ids by (metis (no_types, lifting))
  next
    case False
    then show ?thesis using run tail ids by (intro exI [of _ ing''] exI [of _ t''] exI [of _ R'']) simp
  qed
qed

section \<open>A whole statement\<close>

definition ingest_rep ::
    "lib \<Rightarrow> parsed_payload set \<Rightarrow> ingestor \<Rightarrow> relation_state \<Rightarrow> nat \<Rightarrow> bool" where
  "ingest_rep L S ing s N \<longleftrightarrow>
     (\<exists>t R. table_rep L S ing t R N \<and> s = (tcols t, R)) \<or> (no_table ing N \<and> s = ([], {#}))"

fun ingest_run :: "lib \<Rightarrow> parsed_payload list \<Rightarrow> relation_state \<Rightarrow> relation_state \<Rightarrow> bool" where
  "ingest_run L [] s s' \<longleftrightarrow> s' = s"
| "ingest_run L (p # ps) s s' \<longleftrightarrow> (\<exists>m. ingest_step L p s m \<and> ingest_run L ps m s')"

lemma ingest_parsed_rep:
  assumes rep: "ingest_rep L S ing s N" and S: "shapes_typed L S"
    and L: "\<forall>row \<in># snd s. row_converts L (pcolumns p) (fst s) row"
    and p: "batch_fits L S (fst s) p" and A: "\<And>out. append_ok L (iname ing) out"
    and ne: "itable ing = None \<Longrightarrow> pcolumns p \<noteq> []"
  shows "\<exists>ing' t' R'. ingest_parsed L wk p ing = Inr ing' \<and> table_rep L S ing' t' R' (N + batch_count p) \<and>
    ingest_step L p s (tcols t', R') \<and> iname ing' = iname ing \<and>
    ierrors ing' = ierrors ing + parse_errors (payload p)"
proof -
  let ?ing = "ing\<lparr>ierrors := ierrors ing + parse_errors (payload p)\<rparr>"
  have A': "append_ok L (iname ?ing) out" for out using A by simp
  from rep [unfolded ingest_rep_def] show ?thesis
  proof (elim disjE exE conjE)
    fix t R assume t: "table_rep L S ing t R N" "s = (tcols t, R)"
    then have "table_rep L S ?ing t R N"
      by (simp add: table_rep_def cache_sound_def rows_held_def split: option.splits)
    from ingest_native_rep [OF this S _ _ A'] L p t(2) show ?thesis by (simp add: ingest_parsed_def)
  next
    assume s: "no_table ing N" "s = ([], {#})"
    then have "no_table ?ing N" "itable ing = None" by (simp_all add: no_table_def)
    with ingest_creates [OF _ S _ _ A'] p ne s(2) show ?thesis by (simp add: ingest_parsed_def)
  qed
qed

lemma step_columns:
  assumes "ingest_step L p s s'" "infer_and_flatten L raw = Inr p"
    and "distinct (map (lower \<circ> fst) (fst s))" "types_filled (fst s)"
  shows "distinct (map (lower \<circ> fst) (fst s')) \<and> types_filled (fst s')"
proof (cases "pcolumns p = []")
  case False
  have "distinct (map (lower \<circ> cname) (pcolumns p))"
    using infer_and_flatten_ok [OF assms(2)] unfolding payload_ok_def by blast
  with False assms evolved_supported [OF assms(4,2)] evolved_columns_distinct [OF assms(3)]
  show ?thesis by (simp add: ingest_step_def)
qed (use assms in \<open>simp add: ingest_step_def\<close>)

definition inferred_batches :: "lib \<Rightarrow> parsed_payload list \<Rightarrow> bool" where
  "inferred_batches L ps \<longleftrightarrow> (\<forall>p \<in> set ps. \<exists>raw. infer_and_flatten L raw = Inr p)"

lemma ingest_batches_rep:
  assumes "shapes_typed L S"
  shows "ingest_rep L S ing s N \<Longrightarrow> run_defined L (map snd wps) s \<Longrightarrow> inferred_batches L (map snd wps) \<Longrightarrow> set (map snd wps) \<subseteq> S \<Longrightarrow>
    distinct (map (lower \<circ> fst) (fst s)) \<Longrightarrow> types_filled (fst s) \<Longrightarrow>
    (\<And>out. append_ok L (iname ing) out) \<Longrightarrow>
    (itable ing = None \<Longrightarrow> \<forall>p \<in> set (map snd wps). pcolumns p \<noteq> []) \<Longrightarrow>
    \<exists>ing' s'. ingest_batches L last_wk wps ing = Inr ing' \<and> ingest_run L (map snd wps) s s' \<and>
      ipool ing' = None \<and> irows ing' = N + sum_list (map (batch_count \<circ> snd) wps) \<and>
      ierrors ing' = ierrors ing + sum_list (map (parse_errors \<circ> payload \<circ> snd) wps) \<and>
      (case itable ing' of None \<Rightarrow> s' = ([], {#}) | Some t \<Rightarrow> s' = (tcols t, mset (trows t)))"
proof (induction wps arbitrary: ing s N)
  case Nil
  from Nil(1) [unfolded ingest_rep_def] show ?case
  proof (elim disjE exE conjE)
    fix t R assume t: "table_rep L S ing t R N" "s = (tcols t, R)"
    obtain rows where d: "drain_pool L last_wk t ing =
          Inr (ing\<lparr>itable := Some (t\<lparr>trows := rows\<rparr>), irows := N, ipool := None\<rparr>)" "mset rows = R"
      using drain_rep [OF t(1) shapes_typed_separate [OF assms], of last_wk] by (elim exE conjE) (rule that)
    have it: "itable ing = Some t" using t(1) by (simp add: table_rep_def)
    show ?thesis
    proof (cases "ipool ing")
      case None
      then have "R = mset (trows t)" "N = irows ing" using t(1) by (simp_all add: table_rep_def rows_held_def)
      with None it t(2) show ?thesis by (simp add: finish_ingest_def)
    next
      case (Some P)
      with it d t(2) show ?thesis by (simp add: finish_ingest_def)
    qed
  qed (simp add: finish_ingest_def no_table_def)
next
  case (Cons wp wps)
  obtain wk p where wp: "wp = (wk, p)" by (cases wp)
  have dist: "distinct (map (lower \<circ> fst) (fst s))" and sup: "types_filled (fst s)"
    using Cons.prems(5,6) by blast+
  have defined: "step_defined L p s" "\<And>s'. ingest_step L p s s' \<Longrightarrow> run_defined L (map snd wps) s'"
    using Cons.prems(2) unfolding wp list.map snd_conv run_defined.simps by blast+
  obtain raw where raw: "infer_and_flatten L raw = Inr p" using Cons.prems(3) wp by (auto simp: inferred_batches_def)
  have fit: "batch_fits L S (fst s) p"
    using Cons.prems(4) wp defined(1) by (intro inferred_batch_fits [OF raw _ sup]) (simp_all add: step_defined_def)
  have conv: "\<forall>row \<in># snd s. row_converts L (pcolumns p) (fst s) row"
    using defined(1) by (simp add: step_defined_def)
  obtain ing1 t1 R1 where 1: "ingest_parsed L wk p ing = Inr ing1" "table_rep L S ing1 t1 R1 (N + batch_count p)"
      "ingest_step L p s (tcols t1, R1)" "iname ing1 = iname ing"
      "ierrors ing1 = ierrors ing + parse_errors (payload p)"
    using ingest_parsed_rep [OF Cons.prems(1) assms conv fit Cons.prems(7), of wk] Cons.prems(8) wp by auto
  have it: "itable ing1 \<noteq> None" using 1(2) by (simp add: table_rep_def)
  have cols: "distinct (map (lower \<circ> fst) (tcols t1))" "types_filled (tcols t1)"
    using step_columns [OF 1(3) raw dist sup] by simp_all
  have rep1: "ingest_rep L S ing1 (tcols t1, R1) (N + batch_count p)"
    unfolding ingest_rep_def using 1(2) by blast
  have rest: "inferred_batches L (map snd wps)" "set (map snd wps) \<subseteq> S"
    using Cons.prems(3,4) by (simp_all add: inferred_batches_def)
  have cols1: "distinct (map (lower \<circ> fst) (fst (tcols t1, R1)))" "types_filled (fst (tcols t1, R1))"
    using cols by simp_all
  have A1: "append_ok L (iname ing1) out" for out using Cons.prems(7) 1(4) by simp
  have it1: "itable ing1 = None \<Longrightarrow> \<forall>p \<in> set (map snd wps). pcolumns p \<noteq> []" using it by simp
  obtain ing' s' where 2: "ingest_batches L last_wk wps ing1 = Inr ing'"
      "ingest_run L (map snd wps) (tcols t1, R1) s'" "ipool ing' = None"
      "irows ing' = N + batch_count p + sum_list (map (batch_count \<circ> snd) wps)"
      "ierrors ing' = ierrors ing1 + sum_list (map (parse_errors \<circ> payload \<circ> snd) wps)"
      "case itable ing' of None \<Rightarrow> s' = ([], {#}) | Some t \<Rightarrow> s' = (tcols t, mset (trows t))"
    using Cons.IH [OF rep1 defined(2) [OF 1(3)] rest cols1 A1 it1] by blast
  from 1 2 wp show ?case
    by (intro exI [of _ ing'] exI [of _ s']) (auto simp: comp_def)
qed

section \<open>Properties\<close>


definition start_ingestor :: "nat \<Rightarrow> ingestor" where
  "start_ingestor min_rows =
     \<lparr>iname = ''t'', ikey = ''memory.main.t'', itable = None, ifresh = 1, ishapes = (\<lambda>_. None),
      icached = None, ilayout = \<lparr>ltoken = None, lshape = 0, lslots = []\<rparr>, ipool = None,
      iwrite = default_settings\<lparr>pool_min_rows := min_rows\<rparr>, icores = 4, icreated = False,
      icolumns_added = 0, icolumns_widened = 0, irows = 0, ierrors = 0\<rparr>"

definition sample_wakeups :: wakeups where
  "sample_wakeups = \<lparr>wpick = id, wextra = 1\<rparr>"

lemma sample_typed: "shapes_typed sample_lib {sample_parsed}"
  using sample_separate by (simp add: shapes_typed_def shapes_separate_def)

text \<open>The sample library converts and writes everything.\<close>

lemma sample_converts: "row_converts sample_lib columns cols row"
  by (simp add: row_converts_def convert_cell_def sample_lib_def list_all_iff Let_def)

lemma sample_writes: "\<not> unwritable sample_lib t v"
proof (induction t arbitrary: v)
  case (TList t)
  then show ?case by (cases v) (simp_all add: list_ex_iff)
qed (simp_all add: sample_lib_def)

lemma sample_rows_written: "\<not> row_unwritable sample_lib cols columns row"
  by (auto simp: row_unwritable_def list_ex_iff sample_writes split: option.splits)

lemma sample_defined: "step_defined sample_lib p s" "run_defined sample_lib ps s"
proof -
  show "step_defined sample_lib p s" for p s
    by (simp add: step_defined_def sample_converts sample_rows_written)
  then show "run_defined sample_lib ps s" by (induction ps arbitrary: s) simp_all
qed


text \<open>Two payloads the shape hash cannot tell apart.\<close>

definition int_list_rows :: raw_payload where
  "int_list_rows = new_payload\<lparr>prows := [JObj [(''a'', JArr [JUint 1])]]\<rparr>"

definition text_list_rows :: raw_payload where
  "text_list_rows = new_payload\<lparr>prows := [JObj [(''a'', JArr [JStr ''x''])]]\<rparr>"

definition list_batches :: "raw_payload list \<Rightarrow> (wakeups \<times> parsed_payload) list" where
  "list_batches raws = map (\<lambda>raw. (sample_wakeups, projr (infer_and_flatten sample_lib raw))) raws"

text \<open>
  The shape hash covers the id of a column's type and not the type, so a payload
  with a list of strings passes for the absorbed payload with a list of integers: the table is
  not widened and the string is stored as NULL. Before the shape is absorbed nothing is lost.
\<close>

theorem absorbed_shape_drops_values:
  "map_option trows (itable (projr (ingest_batches sample_lib sample_wakeups
       (list_batches [int_list_rows, int_list_rows, text_list_rows]) (start_ingestor 4096)))) =
     Some [[CList [CBigint 1]], [CList [CBigint 1]], [CList [CNull]]] \<and>
   map_option trows (itable (projr (ingest_batches sample_lib sample_wakeups
       (list_batches [int_list_rows, text_list_rows]) (start_ingestor 4096)))) =
     Some [[CList [CBigint 1]], [CList [CText ''x'']]]"
  by code_simp

end
