(* ===== verification/GroupCommit.thy ===== *)
theory GroupCommit
  imports Transactions Ingest_Spec
begin

text \<open>
  Group commit (\<^verbatim>\<open>RawCommitCoordinator\<close> and \<^verbatim>\<open>RawIngestGroupCommit\<close>, \<^verbatim>\<open>raw_ingest.cpp\<close>
  lines 124 to 160 and 1421 to 1535): requests for a table queue up, one of them leads, commits
  the queued payloads as one and wakes the others. Every section of code under the
  coordinator's lock is one step; the ingest of a batch runs with the lock released, and its
  outcome is whatever the step says.
\<close>

section \<open>State\<close>

datatype outcome = Answer ingest_stats | Failed string

text \<open>
  Where a request's thread stands: asleep until its item is done, lingering as a new leader,
  committing a batch as the leader, about to leave (the guard that counts active requests
  still to run), and gone.
\<close>

datatype phase = Waiting | Lingering | Committing "nat list" | Leaving | Gone

text \<open>A request with its \<^verbatim>\<open>PendingItem\<close>; requests are numbered in the order they enter.\<close>

record request =
  rtarget :: string
  rparsed :: parsed_payload
  rtext :: string
  rrows :: nat
  rerrors :: nat
  rdone :: "outcome option"
  rphase :: phase

text \<open>
  \<^verbatim>\<open>pending\<close> and \<^verbatim>\<open>active\<close> are keyed by the target as spelled, \<^verbatim>\<open>committing\<close> ignores case
  and holds folded targets. \<open>clog\<close> records the batches committed so far.
\<close>

record coordinator =
  requests :: "request list"
  cpending :: "string \<Rightarrow> nat list"
  committing :: "string list"
  cactive :: "string \<Rightarrow> nat"
  clog :: "nat list list"

definition empty_coordinator :: coordinator where
  "empty_coordinator =
     \<lparr>requests = [], cpending = (\<lambda>_. []), committing = [], cactive = (\<lambda>_. 0), clog = []\<rparr>"

abbreviation req :: "coordinator \<Rightarrow> nat \<Rightarrow> request" where
  "req s r \<equiv> requests s ! r"

definition update_request :: "nat \<Rightarrow> (request \<Rightarrow> request) \<Rightarrow> coordinator \<Rightarrow> coordinator" where
  "update_request r f s = s\<lparr>requests := (requests s)[r := f (req s r)]\<rparr>"

section \<open>The steps\<close>

text \<open>The head of the leader's loop: take the queue, or stop leading when it is empty.\<close>

definition lead :: "nat \<Rightarrow> coordinator \<Rightarrow> coordinator" where
  "lead r s =
     (let target = rtarget (req s r) in
      if cpending s target = []
      then update_request r (\<lambda>q. q\<lparr>rphase := Leaving\<rparr>)
             (s\<lparr>committing := removeAll (lower target) (committing s)\<rparr>)
      else update_request r (\<lambda>q. q\<lparr>rphase := Committing (cpending s target)\<rparr>)
             (s\<lparr>cpending := (cpending s)(target := [])\<rparr>))"

text \<open>A request enters: it counts itself, queues its item, then waits, lingers or leads.\<close>

definition enter_request :: "string \<Rightarrow> parsed_payload \<Rightarrow> string \<Rightarrow> coordinator \<Rightarrow> coordinator" where
  "enter_request target parsed payload_text s =
     (let r = length (requests s);
          q = \<lparr>rtarget = target, rparsed = parsed, rtext = payload_text,
               rrows = length (prows (payload parsed)), rerrors = parse_errors (payload parsed),
               rdone = None, rphase = Waiting\<rparr>;
          active_at_entry = Suc (cactive s target);
          s = s\<lparr>requests := requests s @ [q], cactive := (cactive s)(target := active_at_entry),
                cpending := (cpending s)(target := cpending s target @ [r])\<rparr>
      in if lower target \<in> set (committing s) then s
         else
           (let s = s\<lparr>committing := lower target # committing s\<rparr> in
            if active_at_entry > 1 then update_request r (\<lambda>q. q\<lparr>rphase := Lingering\<rparr>) s
            else lead r s))"

text \<open>The payload and the text the leader ingests for a batch.\<close>

fun combine_payloads :: "parsed_payload \<Rightarrow> parsed_payload list \<Rightarrow> parsed_payload" where
  "combine_payloads combined [] = combined"
| "combine_payloads combined (p # ps) = combine_payloads (fst (merge_parsed_payloads combined p)) ps"

fun combine_texts :: "string \<Rightarrow> string list \<Rightarrow> string" where
  "combine_texts combined [] = combined"
| "combine_texts combined (t # ts) = combine_texts (combined @ [CHR 0x0A] @ t) ts"

definition batch_input :: "coordinator \<Rightarrow> nat list \<Rightarrow> parsed_payload \<times> string" where
  "batch_input s batch =
     (combine_payloads (rparsed (req s (hd batch))) (map (\<lambda>b. rparsed (req s b)) (tl batch)),
      combine_texts (rtext (req s (hd batch))) (map (\<lambda>b. rtext (req s b)) (tl batch)))"

text \<open>Every item of the batch gets the outcome, with its own counts.\<close>

fun item_outcome :: "outcome \<Rightarrow> request \<Rightarrow> outcome" where
  "item_outcome (Answer st) q = Answer (st\<lparr>srows := rrows q, serrors := rerrors q\<rparr>)"
| "item_outcome (Failed m) q = Failed m"

fun resolve_items :: "outcome \<Rightarrow> nat list \<Rightarrow> coordinator \<Rightarrow> coordinator" where
  "resolve_items out [] s = s"
| "resolve_items out (b # bs) s =
     resolve_items out bs (update_request b (\<lambda>q. q\<lparr>rdone := Some (item_outcome out q)\<rparr>) s)"

definition finish_batch :: "nat \<Rightarrow> nat list \<Rightarrow> outcome \<Rightarrow> coordinator \<Rightarrow> coordinator" where
  "finish_batch r batch out s =
     lead r (resolve_items out batch s\<lparr>clog := clog s @ [batch]\<rparr>)"

text \<open>The guard's destructor.\<close>

definition leave_request :: "nat \<Rightarrow> coordinator \<Rightarrow> coordinator" where
  "leave_request r s =
     (let target = rtarget (req s r) in
      update_request r (\<lambda>q. q\<lparr>rphase := Gone\<rparr>)
        (s\<lparr>cactive := (cactive s)(target := cactive s target - 1)\<rparr>))"

text \<open>
  The steps of requests already inside. A lingering leader may always go on, since the wait
  has a timeout. \<open>EscapedRollback\<close> is the rollback of a failed batch throwing out of the
  leader's handler.
\<close>

datatype coord_event =
    Enter string parsed_payload string
  | LingerOver nat
  | BatchDone nat outcome
  | EscapedRollback nat
  | Woken nat
  | Leave nat

inductive coord_step :: "coordinator \<Rightarrow> coord_event \<Rightarrow> coordinator \<Rightarrow> bool" where
  enter: "coord_step s (Enter target parsed body) (enter_request target parsed body s)"
| linger: "r < length (requests s) \<Longrightarrow> rphase (req s r) = Lingering \<Longrightarrow>
    coord_step s (LingerOver r) (lead r s)"
| batch: "r < length (requests s) \<Longrightarrow> rphase (req s r) = Committing b \<Longrightarrow>
    coord_step s (BatchDone r out) (finish_batch r b out s)"
| escape: "r < length (requests s) \<Longrightarrow> rphase (req s r) = Committing b \<Longrightarrow>
    coord_step s (EscapedRollback r) (update_request r (\<lambda>q. q\<lparr>rphase := Leaving\<rparr>) s)"
| woken: "r < length (requests s) \<Longrightarrow> rphase (req s r) = Waiting \<Longrightarrow> rdone (req s r) \<noteq> None \<Longrightarrow>
    coord_step s (Woken r) (update_request r (\<lambda>q. q\<lparr>rphase := Leaving\<rparr>) s)"
| leave: "r < length (requests s) \<Longrightarrow> rphase (req s r) = Leaving \<Longrightarrow>
    coord_step s (Leave r) (leave_request r s)"

inductive_cases coord_stepE: "coord_step s e s'"

section \<open>The invariant\<close>

fun leading_phase :: "phase \<Rightarrow> bool" where
  "leading_phase Lingering = True"
| "leading_phase (Committing _) = True"
| "leading_phase _ = False"

fun batch_of :: "phase \<Rightarrow> nat list" where
  "batch_of (Committing b) = b"
| "batch_of _ = []"

definition leading :: "coordinator \<Rightarrow> nat \<Rightarrow> bool" where
  "leading s l \<longleftrightarrow> l < length (requests s) \<and> leading_phase (rphase (req s l))"

text \<open>Who holds a request: the queue, the batch of a leader, or the log.\<close>

definition taken :: "coordinator \<Rightarrow> nat multiset" where
  "taken s = mset (concat (clog s)) + mset (concat (map (batch_of \<circ> rphase) (requests s)))"

definition queues_ok :: "coordinator \<Rightarrow> bool" where
  "queues_ok s \<longleftrightarrow>
     (\<forall>T. \<forall>r \<in> set (cpending s T). r < length (requests s) \<and> rtarget (req s r) = T \<and> rdone (req s r) = None) \<and>
     (\<forall>T. cpending s T \<noteq> [] \<longrightarrow> lower T \<in> set (committing s))"

definition leaders_ok :: "coordinator \<Rightarrow> bool" where
  "leaders_ok s \<longleftrightarrow>
     (\<forall>f \<in> set (committing s). \<exists>l. leading s l \<and> lower (rtarget (req s l)) = f) \<and>
     (\<forall>l. leading s l \<longrightarrow> lower (rtarget (req s l)) \<in> set (committing s)) \<and>
     (\<forall>l m. leading s l \<longrightarrow> leading s m \<longrightarrow> lower (rtarget (req s l)) = lower (rtarget (req s m)) \<longrightarrow> l = m) \<and>
     (\<forall>l < length (requests s). \<forall>x \<in> set (batch_of (rphase (req s l))).
        x < length (requests s) \<and> rtarget (req s x) = rtarget (req s l) \<and> rdone (req s x) = None)"

lemma leaders_okI:
  assumes "\<And>f. f \<in> set (committing s) \<Longrightarrow> \<exists>l. leading s l \<and> lower (rtarget (req s l)) = f"
    and "\<And>l. leading s l \<Longrightarrow> lower (rtarget (req s l)) \<in> set (committing s)"
    and "\<And>l m. leading s l \<Longrightarrow> leading s m \<Longrightarrow> lower (rtarget (req s l)) = lower (rtarget (req s m)) \<Longrightarrow> l = m"
    and "\<And>l x. l < length (requests s) \<Longrightarrow> x \<in> set (batch_of (rphase (req s l))) \<Longrightarrow>
      x < length (requests s) \<and> rtarget (req s x) = rtarget (req s l) \<and> rdone (req s x) = None"
  shows "leaders_ok s"
  unfolding leaders_ok_def using assms by blast

lemma leaders_okD:
  assumes "leaders_ok s"
  shows "f \<in> set (committing s) \<Longrightarrow> \<exists>l. leading s l \<and> lower (rtarget (req s l)) = f"
    and "leading s l \<Longrightarrow> lower (rtarget (req s l)) \<in> set (committing s)"
    and "leading s l \<Longrightarrow> leading s m \<Longrightarrow> lower (rtarget (req s l)) = lower (rtarget (req s m)) \<Longrightarrow> l = m"
    and "l < length (requests s) \<Longrightarrow> x \<in> set (batch_of (rphase (req s l))) \<Longrightarrow>
      x < length (requests s) \<and> rtarget (req s x) = rtarget (req s l) \<and> rdone (req s x) = None"
  using assms unfolding leaders_ok_def by blast+

lemma queues_okD:
  assumes "queues_ok s"
  shows "r \<in> set (cpending s T) \<Longrightarrow> r < length (requests s) \<and> rtarget (req s r) = T \<and> rdone (req s r) = None"
    and "cpending s T \<noteq> [] \<Longrightarrow> lower T \<in> set (committing s)"
  using assms unfolding queues_ok_def by blast+

lemma leading_batch: "l < length (requests s) \<Longrightarrow> x \<in> set (batch_of (rphase (req s l))) \<Longrightarrow> leading s l"
  by (cases "rphase (req s l)") (auto simp: leading_def)

text \<open>A request without an answer is queued or in a batch; an answered one is in the log.\<close>

definition items_ok :: "coordinator \<Rightarrow> bool" where
  "items_ok s \<longleftrightarrow>
     (\<forall>r < length (requests s). rdone (req s r) = None \<longrightarrow>
        rphase (req s r) \<noteq> Leaving \<and> rphase (req s r) \<noteq> Gone) \<and>
     (\<forall>r < length (requests s). count (mset (cpending s (rtarget (req s r)))) r + count (taken s) r = 1) \<and>
     (\<forall>r < length (requests s). r \<in> set (concat (clog s)) \<longleftrightarrow> rdone (req s r) \<noteq> None) \<and>
     (\<forall>r \<in> set (concat (clog s)). r < length (requests s))"

definition coord_inv :: "string set \<Rightarrow> coordinator \<Rightarrow> bool" where
  "coord_inv S s \<longleftrightarrow>
     inj_on lower S \<and> (\<forall>r < length (requests s). rtarget (req s r) \<in> S) \<and>
     queues_ok s \<and> leaders_ok s \<and> items_ok s"

lemma update_request_fields [simp]:
  "cpending (update_request r f s) = cpending s" "committing (update_request r f s) = committing s"
  "cactive (update_request r f s) = cactive s" "clog (update_request r f s) = clog s"
  "length (requests (update_request r f s)) = length (requests s)"
  by (simp_all add: update_request_def)

lemma req_update:
  "r < length (requests s) \<Longrightarrow> req (update_request r f s) i = (if i = r then f (req s r) else req s i)"
  by (simp add: update_request_def nth_list_update)

lemma update_twice:
  "r < length (requests s) \<Longrightarrow>
     update_request r f (update_request r g s) = update_request r (f \<circ> g) s"
  by (simp add: update_request_def)

lemma taken_update:
  assumes "r < length (requests s)"
  shows "taken (update_request r f s) + mset (batch_of (rphase (req s r))) =
    taken s + mset (batch_of (rphase (f (req s r))))"
  using mset_concat_update [OF assms, of "batch_of \<circ> rphase" "f (req s r)"]
  by (simp add: taken_def update_request_def add.assoc)

lemma taken_batch: "l < length (requests s) \<Longrightarrow> set (batch_of (rphase (req s l))) \<subseteq> set_mset (taken s)"
  by (force simp: taken_def)

text \<open>Leading from the loop's head: a lingering request does it.\<close>

abbreviation linger :: "nat \<Rightarrow> coordinator \<Rightarrow> coordinator" where
  "linger r s \<equiv> update_request r (\<lambda>q. q\<lparr>rphase := Lingering\<rparr>) s"

lemma lead_linger: "r < length (requests s) \<Longrightarrow> lead r (linger r s) = lead r s"
  by (simp add: lead_def req_update update_request_def Let_def)

lemma lead_stops:
  assumes inv: "coord_inv S s" and r: "r < length (requests s)" "rphase (req s r) = Lingering"
    and empty: "cpending s (rtarget (req s r)) = []"
  shows "coord_inv S (lead r s)"
proof -
  let ?T = "rtarget (req s r)"
  have lead: "lead r s = update_request r (\<lambda>q. q\<lparr>rphase := Leaving\<rparr>)
      (s\<lparr>committing := removeAll (lower ?T) (committing s)\<rparr>)" (is "_ = ?s")
    using empty by (simp add: lead_def)
  have req: "req ?s i = (if i = r then (req s r)\<lparr>rphase := Leaving\<rparr> else req s i)" for i
    using r(1) by (simp add: req_update)
  have len: "length (requests ?s) = length (requests s)" by simp
  have inj: "inj_on lower S" and tS: "\<forall>i < length (requests s). rtarget (req s i) \<in> S"
    and Q: "queues_ok s" and Ld: "leaders_ok s" and I: "items_ok s"
    using inv by (simp_all add: coord_inv_def)
  have lr: "leading s r" using r by (simp add: leading_def)
  have uniq: "l = r" if "leading s l" "lower (rtarget (req s l)) = lower ?T" for l
    by (rule leaders_okD(3) [OF Ld that(1) lr that(2)])
  have ans: "rdone (req s r) \<noteq> None"
  proof
    assume none: "rdone (req s r) = None"
    then have "count (taken s) r = 1" using I r(1) empty by (auto simp: items_ok_def)
    then have "r \<in># taken s" by (metis count_eq_zero_iff zero_neq_one)
    moreover have "r \<notin> set (concat (clog s))" using I r(1) none unfolding items_ok_def by blast
    ultimately have "\<exists>q \<in> set (requests s). r \<in> set (batch_of (rphase q))"
      by (auto simp: taken_def)
    then obtain l where l: "l < length (requests s)" "r \<in> set (batch_of (rphase (req s l)))"
      by (metis in_set_conv_nth)
    then have "l = r"
      using leading_batch [OF l] leaders_okD(4) [OF Ld l] by (intro uniq) simp_all
    with l(2) r(2) show False by simp
  qed
  have qs: "queues_ok ?s"
  proof -
    have "lower T \<noteq> lower ?T" if ne: "cpending s T \<noteq> []" for T
    proof
      assume eq: "lower T = lower ?T"
      obtain x where "x \<in> set (cpending s T)" using ne by (meson list.set_sel(1))
      then have "T \<in> S" using queues_okD(1) [OF Q] tS by blast
      then have "T = ?T" using inj eq tS r(1) by (auto dest: inj_onD)
      with ne empty show False by simp
    qed
    with Q show ?thesis unfolding queues_ok_def by (auto simp: req)
  qed
  have lead': "leading ?s l \<longleftrightarrow> leading s l \<and> l \<noteq> r" for l by (auto simp: leading_def req)
  have fields: "rtarget (req ?s i) = rtarget (req s i)" "rdone (req ?s i) = rdone (req s i)" for i
    by (simp_all add: req)
  have batch': "batch_of (rphase (req ?s i)) = (if i = r then [] else batch_of (rphase (req s i)))" for i
    by (simp add: req)
  have "leaders_ok ?s"
  proof (rule leaders_okI, goal_cases)
    case (1 f)
    then have "f \<in> set (committing s)" "f \<noteq> lower ?T" by auto
    with leaders_okD(1) [OF Ld, of f] show ?case unfolding lead' fields by blast
  next
    case (2 l)
    with leaders_okD(2) [OF Ld, of l] uniq [of l] show ?case unfolding lead' fields by auto
  next
    case (3 l m)
    with leaders_okD(3) [OF Ld, of l m] show ?case unfolding lead' fields by blast
  next
    case (4 l x)
    with leaders_okD(4) [OF Ld, of l x] show ?case unfolding fields batch' by (auto split: if_splits)
  qed
  moreover have "taken ?s = taken s"
    using taken_update [of r "s\<lparr>committing := removeAll (lower ?T) (committing s)\<rparr>"
        "\<lambda>q. q\<lparr>rphase := Leaving\<rparr>"] r by (simp add: taken_def)
  then have "items_ok ?s" using I ans r unfolding items_ok_def by (auto simp: req)
  ultimately show ?thesis
    unfolding lead coord_inv_def using inj tS qs by (auto simp: req)
qed

lemma lead_takes:
  assumes inv: "coord_inv S s" and r: "r < length (requests s)" "rphase (req s r) = Lingering"
    and ne: "cpending s (rtarget (req s r)) \<noteq> []"
  shows "coord_inv S (lead r s)"
proof -
  let ?T = "rtarget (req s r)"
  let ?b = "cpending s ?T"
  have lead: "lead r s = update_request r (\<lambda>q. q\<lparr>rphase := Committing ?b\<rparr>)
      (s\<lparr>cpending := (cpending s)(?T := [])\<rparr>)" (is "_ = ?s")
    using ne by (simp add: lead_def Let_def)
  have req: "req ?s i = (if i = r then (req s r)\<lparr>rphase := Committing ?b\<rparr> else req s i)" for i
    using r(1) by (simp add: req_update)
  have inj: "inj_on lower S" and tS: "\<forall>i < length (requests s). rtarget (req s i) \<in> S"
    and Q: "queues_ok s" and Ld: "leaders_ok s" and I: "items_ok s"
    using inv by (simp_all add: coord_inv_def)
  have qs: "queues_ok ?s" using Q unfolding queues_ok_def by (auto simp: req)
  have lead': "leading ?s l \<longleftrightarrow> leading s l" for l using r by (auto simp: leading_def req)
  have fields: "rtarget (req ?s i) = rtarget (req s i)" "rdone (req ?s i) = rdone (req s i)" for i
    by (simp_all add: req)
  have batch': "batch_of (rphase (req ?s i)) = (if i = r then ?b else batch_of (rphase (req s i)))" for i
    by (simp add: req)
  have ld: "leaders_ok ?s"
  proof (rule leaders_okI, goal_cases)
    case (1 f)
    with leaders_okD(1) [OF Ld, of f] show ?case unfolding lead' fields by simp
  next
    case (2 l)
    with leaders_okD(2) [OF Ld, of l] show ?case unfolding lead' fields by simp
  next
    case (3 l m)
    with leaders_okD(3) [OF Ld, of l m] show ?case unfolding lead' fields by simp
  next
    case (4 l x)
    with leaders_okD(4) [OF Ld, of l x] queues_okD(1) [OF Q, of x ?T] show ?case
      unfolding fields batch' by (auto split: if_splits)
  qed
  have tk: "taken ?s = taken s + mset ?b"
    using taken_update [of r "s\<lparr>cpending := (cpending s)(?T := [])\<rparr>"
        "\<lambda>q. q\<lparr>rphase := Committing ?b\<rparr>"] r by (simp add: taken_def)
  have "count (mset (cpending ?s (rtarget (req ?s i)))) i + count (taken ?s) i =
      count (mset (cpending s (rtarget (req s i)))) i + count (taken s) i"
    if "i < length (requests s)" for i
  proof (cases "rtarget (req s i) = ?T")
    case False
    then have "i \<notin> set ?b" using queues_okD(1) [OF Q] by blast
    with False show ?thesis by (simp add: tk req)
  qed (simp add: tk req)
  then have "items_ok ?s" using I r unfolding items_ok_def by (auto simp: req)
  then show ?thesis unfolding lead coord_inv_def using inj tS qs ld by (auto simp: req)
qed

lemma lead_inv:
  assumes "coord_inv S (linger r s)" "r < length (requests s)"
  shows "coord_inv S (lead r s)"
  using lead_stops [of S "linger r s" r] lead_takes [of S "linger r s" r] assms
  by (cases "cpending s (rtarget (req s r)) = []") (simp_all add: req_update lead_linger)

lemma coord_invD:
  assumes "coord_inv S s"
  shows "inj_on lower S" "r < length (requests s) \<Longrightarrow> rtarget (req s r) \<in> S"
    "queues_ok s" "leaders_ok s" "items_ok s"
  using assms by (simp_all add: coord_inv_def)

lemma items_okD:
  assumes "items_ok s" "r < length (requests s)"
  shows "rdone (req s r) = None \<Longrightarrow> rphase (req s r) \<noteq> Leaving \<and> rphase (req s r) \<noteq> Gone"
    and "count (mset (cpending s (rtarget (req s r)))) r + count (taken s) r = 1"
    and "r \<in> set (concat (clog s)) \<longleftrightarrow> rdone (req s r) \<noteq> None"
  using assms unfolding items_ok_def by blast+

lemma items_ok_log: "items_ok s \<Longrightarrow> r \<in> set (concat (clog s)) \<Longrightarrow> r < length (requests s)"
  unfolding items_ok_def by blast

text \<open>Threads on their way out.\<close>

lemma quiet_inv:
  assumes inv: "coord_inv S s" and r: "r < length (requests s)"
    and old: "\<not> leading_phase (rphase (req s r))" and new: "\<not> leading_phase p" and ans: "rdone (req s r) \<noteq> None"
  shows "coord_inv S (update_request r (\<lambda>q. q\<lparr>rphase := p\<rparr>) s)" (is "coord_inv S ?s")
proof -
  have req: "req ?s i = (if i = r then (req s r)\<lparr>rphase := p\<rparr> else req s i)" for i
    using r by (simp add: req_update)
  have fields: "rtarget (req ?s i) = rtarget (req s i)" "rdone (req ?s i) = rdone (req s i)" for i
    by (simp_all add: req)
  have none: "batch_of (rphase (req s r)) = []" "batch_of p = []"
    using old new by (cases "rphase (req s r)"; cases p; simp)+
  have batch': "batch_of (rphase (req ?s i)) = batch_of (rphase (req s i))" for i
    using none by (simp add: req)
  have lead': "leading ?s l \<longleftrightarrow> leading s l" for l using old new by (auto simp: leading_def req)
  have "taken ?s = taken s" using taken_update [OF r, of "\<lambda>q. q\<lparr>rphase := p\<rparr>"] none by simp
  then have "items_ok ?s"
    using coord_invD(5) [OF inv] ans unfolding items_ok_def by (auto simp: req)
  moreover have "queues_ok ?s"
    using coord_invD(3) [OF inv] unfolding queues_ok_def fields by simp
  moreover have "leaders_ok ?s"
    using coord_invD(4) [OF inv] unfolding leaders_ok_def lead' fields batch' by simp
  ultimately show ?thesis using inv unfolding coord_inv_def fields by simp
qed

text \<open>A batch is resolved.\<close>

lemma resolve_fields [simp]:
  "cpending (resolve_items out bs s) = cpending s" "committing (resolve_items out bs s) = committing s"
  "cactive (resolve_items out bs s) = cactive s" "clog (resolve_items out bs s) = clog s"
  "length (requests (resolve_items out bs s)) = length (requests s)"
  by (induction bs arbitrary: s) simp_all

lemma item_outcome_done [simp]: "item_outcome out (q\<lparr>rdone := d\<rparr>) = item_outcome out q"
  by (cases out) simp_all

lemma req_resolve:
  "\<forall>b \<in> set bs. b < length (requests s) \<Longrightarrow>
     req (resolve_items out bs s) i =
       (if i \<in> set bs then (req s i)\<lparr>rdone := Some (item_outcome out (req s i))\<rparr> else req s i)"
  by (induction bs arbitrary: s) (auto simp: req_update)

lemma resolved_inv:
  assumes inv: "coord_inv S s" and r: "r < length (requests s)" "rphase (req s r) = Committing b"
  shows "coord_inv S (linger r (resolve_items out b s\<lparr>clog := clog s @ [b]\<rparr>))" (is "coord_inv S ?s")
proof -
  note Q = coord_invD(3) [OF inv] and Ld = coord_invD(4) [OF inv] and I = coord_invD(5) [OF inv]
  have lr: "leading s r" using r by (simp add: leading_def)
  have b: "x < length (requests s) \<and> rtarget (req s x) = rtarget (req s r) \<and> rdone (req s x) = None"
    if "x \<in> set b" for x
    using leaders_okD(4) [OF Ld r(1), of x] that r(2) by simp
  have bl: "\<forall>x \<in> set b. x < length (requests s)" using b by blast
  have req: "req ?s i =
      (let q = (if i \<in> set b then (req s i)\<lparr>rdone := Some (item_outcome out (req s i))\<rparr> else req s i) in
       if i = r then q\<lparr>rphase := Lingering\<rparr> else q)" for i
  proof -
    have res: "req (resolve_items out b s) i = (if i \<in> set b
        then (req s i)\<lparr>rdone := Some (item_outcome out (req s i))\<rparr> else req s i)" for i
      by (rule req_resolve [OF bl])
    have "req ?s i = (if i = r then (req (resolve_items out b s) r)\<lparr>rphase := Lingering\<rparr>
        else req (resolve_items out b s) i)"
      using r(1) by (simp add: req_update)
    then show ?thesis unfolding res Let_def by simp
  qed
  have len: "length (requests ?s) = length (requests s)" by simp
  have fields: "rtarget (req ?s i) = rtarget (req s i)"
      "rdone (req ?s i) = (if i \<in> set b then Some (item_outcome out (req s i)) else rdone (req s i))"
      "rphase (req ?s i) = (if i = r then Lingering else rphase (req s i))" for i
    by (auto simp: req Let_def)
  have batch': "batch_of (rphase (req ?s i)) = (if i = r then [] else batch_of (rphase (req s i)))" for i
    by (simp add: fields)
  have lead': "leading ?s l \<longleftrightarrow> leading s l" for l using lr by (auto simp: leading_def fields)
  have bt: "set_mset (mset b) \<subseteq> set_mset (taken s)"
    using taken_batch [OF r(1)] r(2) by simp
  have notq: "x \<notin> set (cpending s T)" if x: "x \<in> set b" for x T
  proof
    assume p: "x \<in> set (cpending s T)"
    then have "T = rtarget (req s x)" using queues_okD(1) [OF Q] by blast
    then have "count (mset (cpending s (rtarget (req s x)))) x > 0" using p by simp
    moreover have "count (taken s) x > 0" using bt x by (simp add: subset_iff)
    ultimately show False using items_okD(2) [OF I, of x] b [OF x] by linarith
  qed
  have "queues_ok ?s"
    using Q notq unfolding queues_ok_def fields by auto
  moreover have "leaders_ok ?s"
  proof (rule leaders_okI, goal_cases)
    case (1 f)
    with leaders_okD(1) [OF Ld, of f] show ?case unfolding lead' fields by simp
  next
    case (2 l)
    with leaders_okD(2) [OF Ld, of l] show ?case unfolding lead' fields by simp
  next
    case (3 l m)
    with leaders_okD(3) [OF Ld, of l m] show ?case unfolding lead' fields by simp
  next
    case (4 l x)
    then have l: "l \<noteq> r" "x \<in> set (batch_of (rphase (req s l)))" "l < length (requests s)"
      unfolding batch' by (auto split: if_splits)
    have "x \<notin> set b"
    proof
      assume "x \<in> set b"
      then have "rtarget (req s l) = rtarget (req s r)" using b leaders_okD(4) [OF Ld l(3,2)] by metis
      then have "l = r" using leaders_okD(3) [OF Ld leading_batch [OF l(3,2)] lr] by simp
      with l(1) show False ..
    qed
    with leaders_okD(4) [OF Ld l(3,2)] show ?case unfolding fields by simp
  qed
  moreover have "items_ok ?s"
  proof -
    have map_eq: "map (batch_of \<circ> rphase) (requests (resolve_items out b s)) =
        map (batch_of \<circ> rphase) (requests s)"
      by (intro nth_equalityI) (auto simp: req_resolve [OF bl])
    have rp: "rphase (req (resolve_items out b s) r) = Committing b"
      using r(2) by (simp add: req_resolve [OF bl])
    have "taken ?s + mset b = taken (resolve_items out b s\<lparr>clog := clog s @ [b]\<rparr>)"
      using taken_update [of r "resolve_items out b s\<lparr>clog := clog s @ [b]\<rparr>" "\<lambda>q. q\<lparr>rphase := Lingering\<rparr>"]
        r(1) rp by simp
    also have "\<dots> = taken s + mset b" by (simp add: taken_def map_eq)
    finally have "taken ?s = taken s" by simp
    then have "count (mset (cpending ?s (rtarget (req ?s i)))) i + count (taken ?s) i = 1"
      if "i < length (requests s)" for i
      using items_okD(2) [OF I that] by (simp add: fields)
    moreover have "i \<in> set (concat (clog ?s)) \<longleftrightarrow> rdone (req ?s i) \<noteq> None" if "i < length (requests s)" for i
      using items_okD(3) [OF I that] by (simp add: fields)
    moreover have "rphase (req ?s i) \<noteq> Leaving \<and> rphase (req ?s i) \<noteq> Gone"
      if "i < length (requests s)" "rdone (req ?s i) = None" for i
      using items_okD(1) [OF I that(1)] that(2) by (auto simp: fields split: if_splits)
    moreover have "i < length (requests s)" if "i \<in> set (concat (clog ?s))" for i
      using items_ok_log [OF I, of i] b that by auto
    ultimately show ?thesis unfolding items_ok_def len by blast
  qed
  ultimately show ?thesis using inv unfolding coord_inv_def fields by simp
qed

text \<open>A request enters.\<close>

definition new_request :: "string \<Rightarrow> parsed_payload \<Rightarrow> string \<Rightarrow> phase \<Rightarrow> request" where
  "new_request target parsed payload_text p =
     \<lparr>rtarget = target, rparsed = parsed, rtext = payload_text, rrows = length (prows (payload parsed)),
      rerrors = parse_errors (payload parsed), rdone = None, rphase = p\<rparr>"

definition entered :: "string \<Rightarrow> request \<Rightarrow> string list \<Rightarrow> coordinator \<Rightarrow> coordinator" where
  "entered target q comm s =
     s\<lparr>requests := requests s @ [q], cactive := (cactive s)(target := Suc (cactive s target)),
       cpending := (cpending s)(target := cpending s target @ [length (requests s)]),
       committing := comm\<rparr>"

lemma entered_inv:
  assumes inv: "coord_inv S s" and S: "target \<in> S" and q: "q = new_request target parsed body p"
    and p: "p = Waiting \<and> lower target \<in> set (committing s) \<and> comm = committing s \<or>
      p = Lingering \<and> lower target \<notin> set (committing s) \<and> comm = lower target # committing s"
  shows "coord_inv S (entered target q comm s)" (is "coord_inv S ?s")
proof -
  note Q = coord_invD(3) [OF inv] and Ld = coord_invD(4) [OF inv] and I = coord_invD(5) [OF inv]
  let ?n = "length (requests s)"
  have len: "length (requests ?s) = Suc ?n" by (simp add: entered_def)
  have req: "req ?s i = (if i = ?n then q else req s i)" if "i \<le> ?n" for i
    using that by (simp add: entered_def nth_append)
  have old: "req ?s i = req s i" if "i < ?n" for i using that req by simp
  have new: "req ?s ?n = q" using req by simp
  have qf: "rtarget q = target" "rdone q = None" "rphase q = p" by (simp_all add: q new_request_def)
  have bp: "batch_of p = []" using p by auto
  have ex: "comm = committing s \<or> comm = lower target # committing s" using p by auto
  have lead': "leading ?s l \<longleftrightarrow> leading s l \<or> l = ?n \<and> p = Lingering" for l
  proof -
    consider "l < ?n" | "l = ?n" | "l > ?n" by linarith
    then show ?thesis using p by cases (auto simp: leading_def len old new qf)
  qed
  have llt: "l < ?n" if "leading s l" for l using that by (simp add: leading_def)
  have pend: "cpending ?s T = (if T = target then cpending s target @ [?n] else cpending s T)" for T
    by (simp add: entered_def)
  have comm: "committing ?s = comm" by (simp add: entered_def)
  have sub: "set (committing s) \<subseteq> set comm" and tin: "lower target \<in> set comm" using p by auto
  have "queues_ok ?s"
  proof -
    have "r < length (requests ?s) \<and> rtarget (req ?s r) = T \<and> rdone (req ?s r) = None"
      if pr: "r \<in> set (cpending ?s T)" for T r
    proof -
      consider "r = ?n" "T = target" | "r \<in> set (cpending s T)"
        using pr by (auto simp: pend split: if_splits)
      then show ?thesis
        by cases (use queues_okD(1) [OF Q, of r T] in \<open>auto simp: len new qf old\<close>)
    qed
    moreover have "lower T \<in> set (committing ?s)" if "cpending ?s T \<noteq> []" for T
      using that queues_okD(2) [OF Q, of T] p by (auto simp: pend comm split: if_splits)
    ultimately show ?thesis unfolding queues_ok_def by blast
  qed
  moreover have "leaders_ok ?s"
  proof (rule leaders_okI, goal_cases)
    case (1 f)
    then consider "f \<in> set (committing s)" | "p = Lingering" "f = lower target" using p by (auto simp: comm)
    then show ?case
    proof cases
      case 1
      then obtain l where "leading s l" "lower (rtarget (req s l)) = f" using leaders_okD(1) [OF Ld] by blast
      then show ?thesis using llt old lead' by metis
    next
      case 2
      then show ?thesis using lead' new qf by metis
    qed
  next
    case (2 l)
    then consider "leading s l" | "l = ?n" unfolding lead' by blast
    then show ?case
    proof cases
      case 1
      with leaders_okD(2) [OF Ld 1] llt [OF 1] sub show ?thesis by (auto simp: comm old)
    next
      case 2
      with tin show ?thesis by (simp add: comm new qf)
    qed
  next
    case (3 l m)
    have sep: "lower (rtarget (req s k)) \<noteq> lower target" if "leading s k" "p = Lingering" for k
      using leaders_okD(2) [OF Ld that(1)] p that(2) by auto
    from 3(1,2) consider "leading s l" "leading s m" | "leading s l" "m = ?n" "p = Lingering"
      | "l = ?n" "p = Lingering" "leading s m" | "l = m" unfolding lead' by blast
    then show ?case
      by cases (use leaders_okD(3) [OF Ld, of l m] sep llt old new qf 3(3) in auto)
  next
    case (4 l x)
    then have l: "l < ?n" using bp by (cases "l = ?n") (auto simp: len new qf)
    from leaders_okD(4) [OF Ld this, of x] 4(2) l show ?case by (auto simp: len old)
  qed
  moreover have "items_ok ?s"
  proof -
    have tk: "taken ?s = taken s" using bp by (simp add: taken_def entered_def qf)
    have "?n \<notin> set (batch_of (rphase (req s l)))" if "l < ?n" for l
      using leaders_okD(4) [OF Ld that] by blast
    then have nb: "?n \<notin> set (concat (map (batch_of \<circ> rphase) (requests s)))"
      using in_set_conv_nth [of _ "requests s"] by fastforce
    have nl: "?n \<notin> set (concat (clog s))" using items_ok_log [OF I] by blast
    have np: "?n \<notin> set (cpending s T)" for T using queues_okD(1) [OF Q] by blast
    have nt: "count (taken s) ?n = 0"
      using nb nl by (simp add: taken_def count_eq_zero_iff del: set_concat)
    have cnt: "count (mset (cpending ?s (rtarget (req ?s i)))) i + count (taken ?s) i = 1" if "i < Suc ?n" for i
    proof (cases "i = ?n")
      case True
      with nt np [of target] show ?thesis by (simp add: tk new qf pend count_eq_zero_iff)
    next
      case False
      then have "i < ?n" using that by simp
      with items_okD(2) [OF I this] show ?thesis
        by (cases "rtarget (req s i) = target") (simp_all add: tk old pend)
    qed
    have log: "clog ?s = clog s" by (simp add: entered_def)
    have "rphase (req ?s i) \<noteq> Leaving \<and> rphase (req ?s i) \<noteq> Gone"
      if "i < Suc ?n" "rdone (req ?s i) = None" for i
      using that items_okD(1) [OF I] p by (cases "i = ?n") (auto simp: new qf old)
    moreover have "i \<in> set (concat (clog s)) \<longleftrightarrow> rdone (req ?s i) \<noteq> None" if "i < Suc ?n" for i
      using that nl items_okD(3) [OF I] by (cases "i = ?n") (simp_all add: new qf old del: set_concat)
    moreover have "r < Suc ?n" if "r \<in> set (concat (clog s))" for r
      using items_ok_log [OF I that] by simp
    ultimately show ?thesis using cnt unfolding items_ok_def len log by blast
  qed
  ultimately show ?thesis
    using inv S unfolding coord_inv_def by (auto simp: len less_Suc_eq new qf old)
qed

lemma enter_request_split:
  "enter_request target parsed body s =
     (let n = length (requests s); q = new_request target parsed body Waiting;
          w = entered target q (lower target # committing s) s in
      if lower target \<in> set (committing s) then entered target q (committing s) s
      else if cactive s target > 0 then linger n w else lead n w)"
  by (simp add: enter_request_def entered_def new_request_def Let_def)

lemma enter_request_inv:
  assumes inv: "coord_inv S s" and S: "target \<in> S"
  shows "coord_inv S (enter_request target parsed body s)"
proof (cases "lower target \<in> set (committing s)")
  case True
  have "coord_inv S (entered target (new_request target parsed body Waiting) (committing s) s)"
    by (rule entered_inv [OF inv S refl]) (use True in simp)
  with True show ?thesis by (simp add: enter_request_split Let_def)
next
  case False
  let ?n = "length (requests s)"
  let ?w = "entered target (new_request target parsed body Waiting) (lower target # committing s) s"
  let ?l = "entered target (new_request target parsed body Lingering) (lower target # committing s) s"
  have "coord_inv S ?l"
    by (rule entered_inv [OF inv S refl]) (use False in simp)
  moreover have "linger ?n ?w = ?l"
    by (simp add: update_request_def entered_def new_request_def)
  ultimately have l: "coord_inv S (linger ?n ?w)" by simp
  moreover have "coord_inv S (lead ?n ?w)" by (rule lead_inv [OF l]) (simp add: entered_def)
  ultimately show ?thesis using False by (simp add: enter_request_split Let_def)
qed

section \<open>Runs\<close>

text \<open>
  Runs in which targets are always spelled the same up to case (\<open>S\<close>, on which folding is
  injective) and no rollback escapes.
\<close>

fun event_in :: "string set \<Rightarrow> coord_event \<Rightarrow> bool" where
  "event_in S (Enter target parsed body) \<longleftrightarrow> target \<in> S"
| "event_in S (EscapedRollback r) \<longleftrightarrow> False"
| "event_in S e \<longleftrightarrow> True"

definition coord_start :: "string set \<Rightarrow> coordinator \<Rightarrow> bool" where
  "coord_start S s \<longleftrightarrow> inj_on lower S \<and> s = empty_coordinator"

definition coord_move :: "string set \<Rightarrow> coordinator \<Rightarrow> coordinator \<Rightarrow> bool" where
  "coord_move S s s' \<longleftrightarrow> (\<exists>e. event_in S e \<and> coord_step s e s')"

lemma coord_move_alt:
  "coord_move S = (\<lambda>s s'. \<exists>e. coord_step s e s' \<and> (\<forall>r. e \<noteq> EscapedRollback r) \<and>
     (\<forall>target p body. e = Enter target p body \<longrightarrow> target \<in> S))"
proof -
  have "event_in S e \<longleftrightarrow> (\<forall>r. e \<noteq> EscapedRollback r) \<and> (\<forall>target p body. e = Enter target p body \<longrightarrow> target \<in> S)" for e
    by (cases e) simp_all
  then show ?thesis by (auto simp: coord_move_def fun_eq_iff)
qed

lemma coord_step_inv:
  assumes inv: "coord_inv S s" and e: "event_in S e" and step: "coord_step s e s'"
  shows "coord_inv S s'"
  using step
proof (cases rule: coord_step.cases)
  case (enter target parsed body)
  with e show ?thesis using enter_request_inv [OF inv] by simp
next
  case (linger r)
  have "(req s r)\<lparr>rphase := Lingering\<rparr> = req s r" using linger(4) by (cases "req s r") simp
  then have "linger r s = s" by (simp add: update_request_def)
  with inv linger lead_inv [of S r s] show ?thesis by simp
next
  case (batch r b out)
  let ?u = "resolve_items out b s\<lparr>clog := clog s @ [b]\<rparr>"
  have "coord_inv S (lead r ?u)"
    by (rule lead_inv [OF resolved_inv [OF inv batch(3,4)]]) (simp add: batch(3))
  with batch show ?thesis by (simp add: finish_batch_def)
next
  case (escape r b)
  with e show ?thesis by simp
next
  case (woken r)
  with quiet_inv [OF inv woken(3), of Leaving] show ?thesis by simp
next
  case (leave r)
  have ans: "rdone (req s r) \<noteq> None"
    using items_okD(1) [OF coord_invD(5) [OF inv] leave(3)] leave(4) by blast
  let ?u = "update_request r (\<lambda>q. q\<lparr>rphase := Gone\<rparr>) s"
  have "coord_inv S ?u" using quiet_inv [OF inv leave(3) _ _ ans, of Gone] leave(4) by simp
  moreover have "coord_inv S (t\<lparr>cactive := f\<rparr>) \<longleftrightarrow> coord_inv S t" for t f
    by (simp add: coord_inv_def queues_ok_def leaders_ok_def items_ok_def taken_def leading_def)
  moreover have "leave_request r s = ?u\<lparr>cactive := (cactive s)(rtarget (req s r) :=
      cactive s (rtarget (req s r)) - 1)\<rparr>"
    by (simp add: leave_request_def update_request_def Let_def)
  ultimately show ?thesis using leave by simp
qed

interpretation commits: inductive_invariant "coord_start S" "coord_move S" "coord_inv S" for S
proof
  fix s assume "coord_start S s"
  then show "coord_inv S s"
    by (simp add: coord_start_def empty_coordinator_def coord_inv_def queues_ok_def leaders_ok_def
        items_ok_def leading_def)
qed (auto simp: coord_move_def intro: coord_step_inv)

section \<open>Progress\<close>

text \<open>Steps of requests already inside.\<close>

fun internal :: "coord_event \<Rightarrow> bool" where
  "internal (Enter _ _ _) \<longleftrightarrow> False"
| "internal (EscapedRollback _) \<longleftrightarrow> False"
| "internal _ \<longleftrightarrow> True"

definition work :: "coordinator \<Rightarrow> coordinator \<Rightarrow> bool" where
  "work s s' \<longleftrightarrow> (\<exists>e. internal e \<and> coord_step s e s')"

fun phase_weight :: "phase \<Rightarrow> nat" where
  "phase_weight Waiting = 2"
| "phase_weight Lingering = 3"
| "phase_weight (Committing _) = 2"
| "phase_weight Leaving = 1"
| "phase_weight Gone = 0"

text \<open>What is left to do: the weights of the requests and the requests not taken yet.\<close>

definition work_left :: "coordinator \<Rightarrow> nat" where
  "work_left s = sum_list (map (phase_weight \<circ> rphase) (requests s)) +
     card {r. r < length (requests s) \<and> r \<in> set (cpending s (rtarget (req s r)))}"

text \<open>Nobody is stuck: some request can move unless all are gone.\<close>

lemma not_stuck:
  assumes inv: "coord_inv S s" and r: "r < length (requests s)" "rphase (req s r) \<noteq> Gone"
  shows "\<exists>s'. work s s'"
proof -
  have lead_moves: "\<exists>s'. work s s'" if "leading s l" for l
  proof (cases "rphase (req s l)")
    case (Committing b)
    with that coord_step.batch [of l s b] show ?thesis
      unfolding work_def leading_def by (metis internal.simps(4))
  qed (use that coord_step.linger [of l s] in \<open>auto simp: leading_def work_def intro!: exI [of _ "LingerOver l"]\<close>)
  show ?thesis
  proof (cases "rphase (req s r)")
    case Waiting
    show ?thesis
    proof (cases "rdone (req s r)")
      case (Some out)
      with coord_step.woken [OF r(1) Waiting] show ?thesis
        unfolding work_def by (metis internal.simps(5) option.distinct(1))
    next
      case None
      note I = coord_invD(5) [OF inv]
      show ?thesis
      proof (cases "r \<in> set (cpending s (rtarget (req s r)))")
        case True
        then have "lower (rtarget (req s r)) \<in> set (committing s)"
          by (intro queues_okD(2) [OF coord_invD(3) [OF inv]]) auto
        then show ?thesis using leaders_okD(1) [OF coord_invD(4) [OF inv]] lead_moves by blast
      next
        case False
        then have "count (mset (cpending s (rtarget (req s r)))) r = 0" by (simp add: count_eq_zero_iff)
        then have "count (taken s) r = 1" using items_okD(2) [OF I r(1)] by linarith
        then have "r \<in># taken s" by (metis count_eq_zero_iff zero_neq_one)
        moreover have "r \<notin> set (concat (clog s))" using items_okD(3) [OF I r(1)] None by blast
        ultimately obtain q where "q \<in> set (requests s)" "r \<in> set (batch_of (rphase q))"
          by (auto simp: taken_def)
        then obtain l where "l < length (requests s)" "r \<in> set (batch_of (rphase (req s l)))"
          by (metis in_set_conv_nth)
        then show ?thesis by (intro lead_moves leading_batch)
      qed
    qed
  next
    case Leaving
    with coord_step.leave [OF r(1)] show ?thesis unfolding work_def by (metis internal.simps(6))
  qed (use r lead_moves [of r] in \<open>auto simp: leading_def\<close>)
qed

text \<open>Every step of work leaves less to do.\<close>

lemma weight_update:
  assumes "r < length (requests s)"
  shows "sum_list (map (phase_weight \<circ> rphase) (requests (update_request r f s))) +
      phase_weight (rphase (req s r)) =
    sum_list (map (phase_weight \<circ> rphase) (requests s)) + phase_weight (rphase (f (req s r)))"
proof -
  have "sum_list (map g (xs[i := y])) + g (xs ! i) = sum_list (map g xs) + g y" if "i < length xs"
    for g :: "request \<Rightarrow> nat" and xs i y
    using that
  proof (induction xs arbitrary: i)
    case (Cons x xs)
    then show ?case by (cases i) (simp_all add: algebra_simps)
  qed simp
  from this [OF assms, of "phase_weight \<circ> rphase"] show ?thesis by (simp add: update_request_def)
qed

definition queued :: "coordinator \<Rightarrow> nat set" where
  "queued s = {r. r < length (requests s) \<and> r \<in> set (cpending s (rtarget (req s r)))}"

lemma finite_queued: "finite (queued s)"
  by (rule finite_subset [of _ "{..<length (requests s)}"]) (auto simp: queued_def)

text \<open>Where a leader comes from, its weight pays for the step.\<close>

lemma lead_work:
  assumes inv: "coord_inv S (linger r s)" and r: "r < length (requests s)"
    and w: "phase_weight (rphase (req s r)) \<ge> 2"
  shows "work_left (lead r s) < work_left s"
proof (cases "cpending s (rtarget (req s r)) = []")
  case True
  let ?u = "s\<lparr>committing := removeAll (lower (rtarget (req s r))) (committing s)\<rparr>"
  have lead: "lead r s = update_request r (\<lambda>q. q\<lparr>rphase := Leaving\<rparr>) ?u"
    using True by (simp add: lead_def)
  have "queued (lead r s) = queued s"
    unfolding lead using r by (auto simp: queued_def req_update)
  moreover have "sum_list (map (phase_weight \<circ> rphase) (requests (lead r s))) +
      phase_weight (rphase (req s r)) = sum_list (map (phase_weight \<circ> rphase) (requests s)) + 1"
    unfolding lead using weight_update [of r ?u "\<lambda>q. q\<lparr>rphase := Leaving\<rparr>"] r by simp
  ultimately show ?thesis using w unfolding work_left_def queued_def [symmetric] by simp
next
  case False
  let ?T = "rtarget (req s r)"
  let ?u = "s\<lparr>cpending := (cpending s)(?T := [])\<rparr>"
  have lead: "lead r s = update_request r (\<lambda>q. q\<lparr>rphase := Committing (cpending s ?T)\<rparr>) ?u"
    using False by (simp add: lead_def Let_def)
  obtain x where x: "x \<in> set (cpending s ?T)" using False by (meson list.set_sel(1))
  have Q: "y < length (requests s) \<and> rtarget (req s y) = T" if "y \<in> set (cpending s T)" for y T
    using queues_okD(1) [OF coord_invD(3) [OF inv], of y T] that r by (auto simp: req_update split: if_splits)
  have "queued (lead r s) \<subseteq> queued s - {x}"
    unfolding lead using r Q [OF x] by (auto simp: queued_def req_update split: if_splits)
  moreover have "x \<in> queued s" using Q [OF x] x by (simp add: queued_def)
  ultimately have "card (queued (lead r s)) < card (queued s)"
    using finite_queued [of s] by (meson card_Diff1_less card_mono finite_Diff le_less_trans)
  moreover have "sum_list (map (phase_weight \<circ> rphase) (requests (lead r s))) +
      phase_weight (rphase (req s r)) = sum_list (map (phase_weight \<circ> rphase) (requests s)) + 2"
    unfolding lead using weight_update [of r ?u "\<lambda>q. q\<lparr>rphase := Committing (cpending s ?T)\<rparr>"] r by simp
  ultimately show ?thesis using w unfolding work_left_def queued_def [symmetric] by simp
qed

lemma work_decreases:
  assumes inv: "coord_inv S s" and step: "coord_step s e s'" and e: "internal e"
  shows "work_left s' < work_left s"
  using step
proof (cases rule: coord_step.cases)
  case (enter target parsed body)
  with e show ?thesis by simp
next
  case (linger r)
  have "(req s r)\<lparr>rphase := Lingering\<rparr> = req s r" using linger(4) by (cases "req s r") simp
  then have "linger r s = s" by (simp add: update_request_def)
  with inv linger lead_work [of S r s] show ?thesis by simp
next
  case (batch r b out)
  let ?u = "resolve_items out b s\<lparr>clog := clog s @ [b]\<rparr>"
  have bl: "\<forall>x \<in> set b. x < length (requests s)"
    using leaders_okD(4) [OF coord_invD(4) [OF inv] batch(3)] batch(4) by simp
  have u: "req ?u i = (if i \<in> set b then (req s i)\<lparr>rdone := Some (item_outcome out (req s i))\<rparr> else req s i)" for i
    using req_resolve [OF bl] by simp
  have same: "map (phase_weight \<circ> rphase) (requests (resolve_items out b s)) =
      map (phase_weight \<circ> rphase) (requests s)"
    by (intro nth_equalityI) (auto simp: req_resolve [OF bl])
  have tgt: "rtarget (req ?u i) = rtarget (req s i)" for i unfolding u by simp
  have "queued ?u = queued s" unfolding queued_def tgt by simp
  then have left: "work_left ?u = work_left s"
    unfolding work_left_def queued_def [symmetric] by (simp add: same)
  have "work_left (lead r ?u) < work_left ?u"
  proof (rule lead_work [OF resolved_inv [OF inv batch(3,4)]])
    have "rphase (req ?u r) = rphase (req s r)" unfolding u by simp
    then show "2 \<le> phase_weight (rphase (req ?u r))" using batch(4) by simp
  qed (use batch in auto)
  with batch left show ?thesis by (simp add: finish_batch_def)
next
  case (escape r b)
  with e show ?thesis by simp
next
  case (woken r)
  have "queued s' = queued s" unfolding woken using woken(3) by (auto simp: queued_def req_update)
  with weight_update [OF woken(3), of "\<lambda>q. q\<lparr>rphase := Leaving\<rparr>"] woken show ?thesis
    unfolding work_left_def queued_def [symmetric] by simp
next
  case (leave r)
  have "queued s' = queued s"
    unfolding leave(2) leave_request_def Let_def using leave(3) by (auto simp: queued_def req_update)
  moreover have "sum_list (map (phase_weight \<circ> rphase) (requests s')) + 1 =
      sum_list (map (phase_weight \<circ> rphase) (requests s))"
    unfolding leave(2) leave_request_def Let_def
    using leave(3,4) weight_update [of r "s\<lparr>cactive := (cactive s)(rtarget (req s r) :=
        cactive s (rtarget (req s r)) - 1)\<rparr>" "\<lambda>q. q\<lparr>rphase := Gone\<rparr>"] by simp
  ultimately show ?thesis unfolding work_left_def queued_def [symmetric] by simp
qed

section \<open>Counts\<close>

text \<open>An answer reports the request's own counts, whatever the batch was.\<close>

definition own_counts :: "coordinator \<Rightarrow> bool" where
  "own_counts s \<longleftrightarrow> (\<forall>q \<in> set (requests s). \<forall>st. rdone q = Some (Answer st) \<longrightarrow>
     srows st = rrows q \<and> serrors st = rerrors q)"

lemma own_counts_update:
  assumes "own_counts s" "rrows (f (req s r)) = rrows (req s r)" "rerrors (f (req s r)) = rerrors (req s r)"
    and "\<And>st. rdone (f (req s r)) = Some (Answer st) \<Longrightarrow> rdone (req s r) \<noteq> Some (Answer st) \<Longrightarrow>
      srows st = rrows (req s r) \<and> serrors st = rerrors (req s r)"
  shows "own_counts (update_request r f s)"
proof (cases "r < length (requests s)")
  case True
  then have "srows st = rrows (req s r) \<and> serrors st = rerrors (req s r)"
    if "rdone (f (req s r)) = Some (Answer st)" for st
    using assms(1,4) that by (cases "rdone (req s r) = Some (Answer st)") (auto simp: own_counts_def)
  with assms(1-3) show ?thesis
    unfolding own_counts_def update_request_def
    by (auto dest!: set_update_subset_insert [THEN subsetD])
next
  case False
  with assms(1) show ?thesis by (simp add: own_counts_def update_request_def list_update_beyond)
qed

lemma own_counts_other:
  "requests s = requests s' \<Longrightarrow> own_counts s = own_counts s'"
  by (simp add: own_counts_def)

lemma own_counts_lead: "own_counts s \<Longrightarrow> own_counts (lead r s)"
  unfolding lead_def Let_def
  by (auto intro!: own_counts_update) (simp_all add: own_counts_def)

lemma own_counts_resolve: "own_counts s \<Longrightarrow> own_counts (resolve_items out bs s)"
proof (induction bs arbitrary: s)
  case (Cons b bs)
  have "own_counts (update_request b (\<lambda>q. q\<lparr>rdone := Some (item_outcome out q)\<rparr>) s)"
    by (rule own_counts_update [OF Cons.prems]) (cases out; auto)+
  with Cons.IH show ?case by simp
qed simp

lemma own_counts_step:
  assumes "own_counts s" "coord_step s e s'"
  shows "own_counts s'"
  using assms(2)
proof (cases rule: coord_step.cases)
  case (enter target parsed body)
  have base: "own_counts s0" if "requests s0 = requests s @ [new_request target parsed body Waiting]" for s0
    using assms(1) that by (simp add: own_counts_def new_request_def)
  have "own_counts (entered target (new_request target parsed body Waiting) comm s)" for comm
    by (rule base) (simp add: entered_def)
  then show ?thesis
    unfolding enter enter_request_split Let_def
    by (auto intro!: own_counts_lead own_counts_update)
next
  case (batch r b out)
  have "own_counts (resolve_items out b s\<lparr>clog := clog s @ [b]\<rparr>)"
    using own_counts_resolve [OF assms(1)] by (simp add: own_counts_def)
  then show ?thesis unfolding batch finish_batch_def by (rule own_counts_lead)
next
  case (leave r)
  then show ?thesis
    unfolding leave leave_request_def Let_def using assms(1)
    by (auto intro!: own_counts_update) (simp add: own_counts_def)
qed (use assms(1) in \<open>auto intro!: own_counts_lead own_counts_update\<close>)

interpretation counts: inductive_invariant "coord_start S" "coord_move S" own_counts for S
proof
  fix s assume "coord_start S s"
  then show "own_counts s" by (simp add: coord_start_def empty_coordinator_def own_counts_def)
qed (auto simp: coord_move_def intro: own_counts_step)

interpretation drains: terminating "coord_inv S" work work_left for S
proof
  fix s t
  assume inv: "coord_inv S s" and "work s t"
  then obtain e where e: "internal e" "coord_step s e t" by (auto simp: work_def)
  have "event_in S e" using e(1) by (cases e) simp_all
  from coord_step_inv [OF inv this e(2)] show "coord_inv S t" .
  show "work_left t < work_left s" using inv e work_decreases by blast
qed

section \<open>Properties\<close>


text \<open>Two requests for one table: the second is queued while the first commits.\<close>

definition two_requests :: "string \<Rightarrow> string \<Rightarrow> coordinator" where
  "two_requests T U = enter_request U sample_parsed [] (enter_request T sample_parsed [] empty_coordinator)"

lemma two_requests_run:
  assumes "T \<in> S" "U \<in> S"
  shows "(coord_move S)\<^sup>*\<^sup>* empty_coordinator (two_requests T U)"
proof -
  have m: "coord_move S s (enter_request V sample_parsed [] s)" if "V \<in> S" for V s
    unfolding coord_move_def using that coord_step.enter
    by (intro exI [of _ "Enter V sample_parsed []"]) simp
  show ?thesis
    unfolding two_requests_def
    by (rule rtranclp.rtrancl_into_rtrancl [OF r_into_rtranclp [of "coord_move S", OF m [OF assms(1)]]
        m [OF assms(2)]])
qed




text \<open>
  \<^verbatim>\<open>committing\<close> ignores the case of a target and the queues do not. A request
  whose target differs in case from that of the current leader waits for it, the leader
  drains its own queue only and leaves, and then nobody can move though the request waits.
\<close>

theorem case_variant_waits_forever:
  "\<exists>s. (\<lambda>s s'. \<exists>e. coord_step s e s')\<^sup>*\<^sup>* empty_coordinator s \<and>
     rphase (req s 1) = Waiting \<and> rdone (req s 1) = None \<and> rphase (req s 0) = Gone \<and> \<not> (\<exists>s'. work s s')"
proof -
  let ?s2 = "two_requests ''T'' ''t''"
  let ?s3 = "finish_batch 0 [0] (Failed []) ?s2"
  let ?s4 = "leave_request 0 ?s3"
  note defs = two_requests_def enter_request_def empty_coordinator_def lead_def update_request_def
    Let_def finish_batch_def leave_request_def lower_char_def
  have "lower ''T'' = ''t''" "lower ''t'' = ''t''" by code_simp+
  note low = this
  have s2: "length (requests ?s2) = 2" "rphase (req ?s2 0) = Committing [0]"
    using low by (simp_all add: defs del: lower_Cons)
  have s3: "length (requests ?s3) = 2" "rphase (req ?s3 0) = Leaving"
    using low by (simp_all add: defs del: lower_Cons)
  have s4: "length (requests ?s4) = 2" "rphase (req ?s4 0) = Gone" "rphase (req ?s4 1) = Waiting"
      "rdone (req ?s4 1) = None"
    using low by (simp_all add: defs del: lower_Cons)
  have "coord_step ?s2 (BatchDone 0 (Failed [])) ?s3" using s2 by (intro coord_step.batch) simp_all
  moreover have "coord_step ?s3 (Leave 0) ?s4" using s3 by (intro coord_step.leave) simp_all
  moreover have "(\<lambda>s s'. \<exists>e. coord_step s e s')\<^sup>*\<^sup>* empty_coordinator ?s2"
  proof (rule rtranclp_mono [THEN predicate2D])
    show "coord_move UNIV \<le> (\<lambda>s s'. \<exists>e. coord_step s e s')" by (auto simp: coord_move_def)
  qed (rule two_requests_run; simp)
  ultimately have run: "(\<lambda>s s'. \<exists>e. coord_step s e s')\<^sup>*\<^sup>* empty_coordinator ?s4"
    by (auto intro: rtranclp.rtrancl_into_rtrancl)
  have "\<not> work ?s4 s'" for s'
  proof
    assume "work ?s4 s'"
    then obtain e where "internal e" "coord_step ?s4 e s'" by (auto simp: work_def)
    from this(2,1) show False
      using s4 by (cases rule: coord_step.cases) (auto simp: less_Suc_eq numeral_2_eq_2)
  qed
  with run s4 show ?thesis by blast
qed

text \<open>A table whose leader left without a trace: nobody leads it, and \<open>committing\<close> says someone does.\<close>

definition blocked :: "nat \<Rightarrow> coordinator \<Rightarrow> bool" where
  "blocked r s \<longleftrightarrow>
     r < length (requests s) \<and> rphase (req s r) = Waiting \<and> rdone (req s r) = None \<and>
     lower (rtarget (req s r)) \<in> set (committing s) \<and>
     (\<forall>l. leading s l \<longrightarrow> lower (rtarget (req s l)) \<noteq> lower (rtarget (req s r))) \<and>
     (\<forall>l < length (requests s). \<forall>x \<in> set (batch_of (rphase (req s l))). x < length (requests s) \<and> x \<noteq> r) \<and>
     (\<forall>T. \<forall>x \<in> set (cpending s T). x < length (requests s) \<and> rtarget (req s x) = T)"

lemma blockedD:
  assumes "blocked r s"
  shows "r < length (requests s)" "rphase (req s r) = Waiting" "rdone (req s r) = None"
    "lower (rtarget (req s r)) \<in> set (committing s)"
    and "leading s l \<Longrightarrow> lower (rtarget (req s l)) \<noteq> lower (rtarget (req s r))"
    and "l < length (requests s) \<Longrightarrow> x \<in> set (batch_of (rphase (req s l))) \<Longrightarrow>
      x < length (requests s) \<and> x \<noteq> r"
    and "x \<in> set (cpending s T) \<Longrightarrow> x < length (requests s) \<and> rtarget (req s x) = T"
  using assms unfolding blocked_def by blast+

lemma blocked_lead:
  assumes "blocked r (linger l s)" "l < length (requests s)"
  shows "blocked r (lead l s)"
proof -
  have lr: "l \<noteq> r" and ne: "lower (rtarget (req s l)) \<noteq> lower (rtarget (req s r))"
    using assms unfolding blocked_def leading_def by (auto simp: req_update split: if_splits)
  have Q: "x < length (requests s) \<and> rtarget (req s x) = T" if "x \<in> set (cpending s T)" for x T
    using assms that unfolding blocked_def by (auto simp: req_update split: if_splits)
  have "x \<noteq> r" if "x \<in> set (cpending s (rtarget (req s l)))" for x
    using Q [OF that] ne by auto
  with assms lr ne Q show ?thesis
    unfolding blocked_def leading_def lead_def Let_def
    by (auto simp: req_update split: if_splits)
qed

lemma blocked_phase:
  assumes "blocked r s" "l < length (requests s)" "l \<noteq> r" "\<not> leading_phase p"
  shows "blocked r (update_request l (\<lambda>q. q\<lparr>rphase := p\<rparr>) (s\<lparr>cactive := f\<rparr>))"
proof -
  have "batch_of p = []" using assms(4) by (cases p) simp_all
  with assms show ?thesis
    unfolding blocked_def leading_def by (simp add: req_update)
qed

lemma blocked_entered:
  assumes b: "blocked r s" and q: "q = new_request target parsed body p"
    and p: "p = Waiting \<and> comm = committing s \<or>
      p = Lingering \<and> lower target \<notin> set (committing s) \<and> comm = lower target # committing s"
  shows "blocked r (entered target q comm s)" (is "blocked r ?s")
proof -
  let ?n = "length (requests s)"
  have r: "r < ?n" using b by (simp add: blocked_def)
  have len: "length (requests ?s) = Suc ?n" by (simp add: entered_def)
  have old: "req ?s i = req s i" if "i < ?n" for i using that by (simp add: entered_def nth_append)
  have new: "req ?s ?n = q" by (simp add: entered_def)
  have qf: "rtarget q = target" "rphase q = p" by (simp_all add: q new_request_def)
  have bp: "batch_of p = []" using p by auto
  have comm: "committing ?s = comm" "set (committing s) \<subseteq> set comm" using p by (auto simp: entered_def)
  have pend: "cpending ?s T = (if T = target then cpending s target @ [?n] else cpending s T)" for T
    by (simp add: entered_def)
  have "lower (rtarget (req ?s l)) \<noteq> lower (rtarget (req s r))" if l: "leading ?s l" for l
  proof (cases "l = ?n")
    case True
    then have "p = Lingering" using l p by (auto simp: leading_def new qf)
    then have "lower target \<notin> set (committing s)" using p by auto
    with b True show ?thesis by (auto simp: new qf blocked_def)
  next
    case False
    then have "l < ?n" using l by (simp add: leading_def len)
    with l b show ?thesis by (auto simp: leading_def old blocked_def)
  qed
  moreover have "x < Suc ?n \<and> x \<noteq> r" if "l < Suc ?n" "x \<in> set (batch_of (rphase (req ?s l)))" for l x
  proof (cases "l = ?n")
    case True
    with that(2) bp show ?thesis by (simp add: new qf)
  next
    case False
    then have "l < ?n" using that(1) by simp
    then have "\<forall>y \<in> set (batch_of (rphase (req s l))). y < ?n \<and> y \<noteq> r"
      using b by (simp add: blocked_def)
    with that(2) \<open>l < ?n\<close> show ?thesis by (simp add: old less_SucI)
  qed
  moreover have "x < Suc ?n \<and> rtarget (req ?s x) = T" if "x \<in> set (cpending ?s T)" for x T
  proof (cases "x = ?n \<and> T = target")
    case True
    then show ?thesis by (simp add: new qf)
  next
    case False
    then have "x \<in> set (cpending s T)" using that by (auto simp: pend split: if_splits)
    then have "x < ?n \<and> rtarget (req s x) = T" using b by (simp add: blocked_def)
    then show ?thesis by (simp add: old)
  qed
  ultimately show ?thesis
    using b r comm unfolding blocked_def len old [OF r] by (auto simp del: set_concat)
qed

lemma blocked_step:
  assumes b: "blocked r s" and step: "coord_step s e s'"
  shows "blocked r s'"
  using step
proof (cases rule: coord_step.cases)
  case (linger l)
  have "(req s l)\<lparr>rphase := Lingering\<rparr> = req s l" using linger(4) by (cases "req s l") simp
  then have "linger l s = s" by (simp add: update_request_def)
  with b linger blocked_lead [of r l s] show ?thesis by simp
next
  case (batch l bs out)
  let ?u = "resolve_items out bs s\<lparr>clog := clog s @ [bs]\<rparr>"
  have bl: "\<forall>x \<in> set bs. x < length (requests s)" and br: "r \<notin> set bs"
    using b batch(3,4) unfolding blocked_def by fastforce+
  have u: "req ?u i = (if i \<in> set bs then (req s i)\<lparr>rdone := Some (item_outcome out (req s i))\<rparr> else req s i)" for i
    using req_resolve [OF bl] by simp
  have f: "rtarget (req ?u i) = rtarget (req s i)" "rphase (req ?u i) = rphase (req s i)" for i
    unfolding u by simp_all
  have lr: "l \<noteq> r" using b batch(4) by (auto simp: blocked_def)
  let ?w = "linger l ?u"
  have w: "req ?w i = (if i = l then (req ?u l)\<lparr>rphase := Lingering\<rparr> else req ?u i)" for i
    using batch(3) by (simp add: req_update)
  have sub: "set (batch_of (rphase (req ?w i))) \<subseteq> set (batch_of (rphase (req s i)))" for i
    unfolding w using f(2) [of i] by (cases "i = l") simp_all
  have "leading s l" using batch(3,4) by (simp add: leading_def)
  then have ld: "leading ?w i \<Longrightarrow> leading s i" for i
    unfolding leading_def w using f(2) [of i] by (cases "i = l") simp_all
  have tw: "rtarget (req ?w i) = rtarget (req s i)" for i
    unfolding w using f(1) [of i] f(1) [of l] by (cases "i = l") simp_all
  have "req ?w r = req s r" unfolding w using lr br u [of r] by simp
  moreover have "length (requests ?w) = length (requests s)" "committing ?w = committing s"
    "cpending ?w = cpending s" by simp_all
  ultimately have "blocked r (linger l ?u)"
    unfolding blocked_def tw using blockedD [OF b] ld sub by (simp only:) blast
  then have "blocked r (lead l ?u)" by (rule blocked_lead) (simp add: batch(3))
  with batch show ?thesis by (simp add: finish_batch_def)
next
  case (enter target parsed body)
  let ?n = "length (requests s)"
  show ?thesis
  proof (cases "lower target \<in> set (committing s)")
    case True
    have "blocked r (entered target (new_request target parsed body Waiting) (committing s) s)"
      by (rule blocked_entered [OF b refl]) simp
    with True enter show ?thesis by (simp add: enter_request_split Let_def)
  next
    case False
    let ?w = "entered target (new_request target parsed body Waiting) (lower target # committing s) s"
    let ?l = "entered target (new_request target parsed body Lingering) (lower target # committing s) s"
    have "blocked r ?l" by (rule blocked_entered [OF b refl]) (use False in simp)
    moreover have "linger ?n ?w = ?l"
      by (simp add: update_request_def entered_def new_request_def)
    ultimately have l: "blocked r (linger ?n ?w)" by simp
    moreover have "blocked r (lead ?n ?w)" by (rule blocked_lead [OF l]) (simp add: entered_def)
    moreover have "s' = (if cactive s target > 0 then linger ?n ?w else lead ?n ?w)"
      using False by (simp add: enter(2) enter_request_split Let_def)
    ultimately show ?thesis by presburger
  qed
next
  case (escape l bs)
  then have "l \<noteq> r" using b by (auto simp: blocked_def)
  from blocked_phase [OF b escape(3) this, of Leaving "cactive s"] escape show ?thesis by simp
next
  case (woken l)
  then have "l \<noteq> r" using b by (auto simp: blocked_def)
  from blocked_phase [OF b woken(3) this, of Leaving "cactive s"] woken show ?thesis by simp
next
  case (leave l)
  then have "l \<noteq> r" using b by (auto simp: blocked_def)
  from blocked_phase [OF b leave(3) this, of Gone] leave show ?thesis
    by (simp add: leave_request_def Let_def)
qed

text \<open>
  When the rollback of a failed batch throws out of the leader, the target stays
  marked as committing for good: the request that was waiting behind it never gets an answer,
  whatever happens afterwards and whoever else enters.
\<close>

theorem escaped_rollback_blocks_table:
  "\<exists>s. (\<lambda>s s'. \<exists>e. coord_step s e s')\<^sup>*\<^sup>* (two_requests T T) s \<and>
     (\<forall>s'. (\<lambda>s s'. \<exists>e. coord_step s e s')\<^sup>*\<^sup>* s s' \<longrightarrow>
        rphase (req s' 1) = Waiting \<and> rdone (req s' 1) = None)"
proof -
  let ?s = "two_requests T T"
  let ?u = "update_request 0 (\<lambda>q. q\<lparr>rphase := Leaving\<rparr>) ?s"
  note defs = two_requests_def enter_request_def empty_coordinator_def lead_def update_request_def Let_def
  have "0 < length (requests ?s)" "rphase (req ?s 0) = Committing [0]" by (simp_all add: defs)
  then have "coord_step ?s (EscapedRollback 0) ?u" by (rule coord_step.escape)
  then have "(\<lambda>s s'. \<exists>e. coord_step s e s')\<^sup>*\<^sup>* ?s ?u" by blast
  moreover have "rphase (req s' 1) = Waiting \<and> rdone (req s' 1) = None"
    if "(\<lambda>s s'. \<exists>e. coord_step s e s')\<^sup>*\<^sup>* ?u s'" for s'
  proof -
    have u: "blocked 1 ?u"
      by (auto simp: blocked_def leading_def defs less_Suc_eq nth_Cons' split: if_splits)
    from that have "blocked 1 s'"
      by induction (use u blocked_step in blast)+
    then show ?thesis by (simp add: blocked_def)
  qed
  ultimately show ?thesis by blast
qed

theorem escaped_rollback_blocks_table_witness:
  "\<exists>s. (\<lambda>s s'. \<exists>e. coord_step s e s')\<^sup>*\<^sup>* (two_requests ''logs'' ''logs'') s \<and>
     rphase (req s 1) = Waiting \<and> rdone (req s 1) = None"
  using escaped_rollback_blocks_table [of "''logs''"] by blast

text \<open>Two requests with different columns.\<close>

definition one_field :: "string \<Rightarrow> 64 word \<Rightarrow> parsed_payload" where
  "one_field k n = projr (infer_and_flatten sample_lib (new_payload\<lparr>prows := [JObj [(k, JUint n)]]\<rparr>))"

text \<open>
  A group-committed batch is ingested with the schema of its first request only.
  Committed together, the second request's only column is neither created nor stored and its
  row is all NULL, though its answer counts the row; committed one after the other both values are kept.
\<close>

theorem batch_drops_later_columns:
  "(let together = ingest_batches sample_lib sample_wakeups
          [(sample_wakeups, combine_payloads (one_field ''a'' 1) [one_field ''b'' 2])] (start_ingestor 4096);
        apart = ingest_batches sample_lib sample_wakeups
          [(sample_wakeups, one_field ''a'' 1), (sample_wakeups, one_field ''b'' 2)] (start_ingestor 4096)
    in map_option (\<lambda>t. (map fst (tcols t), trows t)) (itable (projr together)) =
         Some ([''a''], [[CBigint 1], [CNull]]) \<and>
       map_option (\<lambda>t. (map fst (tcols t), trows t)) (itable (projr apart)) =
         Some ([''a'', ''b''], [[CBigint 1, CNull], [CNull, CBigint 2]]))"
  by code_simp

end
