(* ===== verification/Ordered_Map.thy ===== *)
theory Ordered_Map
  imports Prelude "HOL-Library.RBT" "HOL-Library.List_Lexorder" "HOL-Library.Char_ord"
begin

text \<open>
  \<^verbatim>\<open>std::map\<close> as a red-black tree: \<^verbatim>\<open>operator[]\<close> with an update, and the entries of one key
  in the iteration order.
\<close>

definition update_entry :: "'v \<Rightarrow> ('v \<Rightarrow> 'v) \<Rightarrow> 'k :: linorder \<Rightarrow> ('k, 'v) rbt \<Rightarrow> ('k, 'v) rbt" where
  "update_entry dflt f k m = RBT.insert k (f (case RBT.lookup m k of None \<Rightarrow> dflt | Some v \<Rightarrow> v)) m"

lemma lookup_update_entry [simp]:
  "RBT.lookup (update_entry d f k m) k' =
     (if k' = k then Some (f (case RBT.lookup m k of None \<Rightarrow> d | Some v \<Rightarrow> v)) else RBT.lookup m k')"
  by (simp add: update_entry_def)

lemma filter_key:
  "distinct (map fst es) \<Longrightarrow>
     filter (\<lambda>e. fst e = T) es = (case map_of es T of None \<Rightarrow> [] | Some b \<Rightarrow> [(T, b)])"
proof (induction es)
  case (Cons e es)
  then show ?case
    by (cases e) (force simp: filter_empty_conv map_of_eq_None_iff split: option.splits)
qed simp

lemma entries_of_key:
  "filter (\<lambda>e. fst e = T) (RBT.entries m) =
     (case RBT.lookup m T of None \<Rightarrow> [] | Some b \<Rightarrow> [(T, b)])"
  using filter_key [OF distinct_entries] by (simp add: map_of_entries)

lemma concat_map_one_key:
  "(\<And>e. fst e \<noteq> T \<Longrightarrow> f e = []) \<Longrightarrow>
     concat (map f (RBT.entries m)) = (case RBT.lookup m T of None \<Rightarrow> [] | Some b \<Rightarrow> f (T, b))"
proof -
  assume other: "\<And>e. fst e \<noteq> T \<Longrightarrow> f e = []"
  have "concat (map f es) = concat (map f (filter (\<lambda>e. fst e = T) es))" for es
    by (induction es) (use other in auto)
  then have "concat (map f (RBT.entries m)) = concat (map f (filter (\<lambda>e. fst e = T) (RBT.entries m)))" .
  also have "\<dots> = (case RBT.lookup m T of None \<Rightarrow> [] | Some b \<Rightarrow> f (T, b))"
    unfolding entries_of_key by (simp split: option.splits)
  finally show ?thesis .
qed

end
