(* ===== verification/Plans.thy ===== *)
theory Plans
  imports Settings Json Ordered_Map "HOL-Library.Sublist"
begin

text \<open>
  The optimizer hooks (\<^verbatim>\<open>raw_optimize.cpp\<close>, lines 25 to 397): the statistics a query plan
  leaves behind (\<^verbatim>\<open>CollectStats\<close>) and the rewriting of \<^verbatim>\<open>count(*)\<close> aggregations onto a
  materialized projection (\<^verbatim>\<open>TryRewriteToProjection\<close>). DuckDB's plans are modelled as far as
  the code looks into them; what the catalog and the function binder answer is a parameter.
\<close>

section \<open>Plans\<close>

type_synonym binding = "nat \<times> nat"

datatype expr =
    ColumnRef logical_type binding
  | Func string "expr list" logical_type
  | Agg string "expr list" bool logical_type
  | Cast expr logical_type
  | OtherExpr nat logical_type

record table_ref =
  rcatalog :: string
  rschema :: string
  rname :: string

text \<open>
  \<^verbatim>\<open>LogicalGet\<close>: its table (none for other table functions), the names and types of the
  table's columns, the columns scanned, and the columns that have a pushed-down filter.
\<close>

record get_op =
  gindex :: nat
  gtable :: "table_ref option"
  gnames :: "string list"
  gtypes :: "logical_type list"
  gcolumns :: "nat list"
  gfilters :: "nat list"

text \<open>\<^verbatim>\<open>LogicalAggregate\<close>; of the grouping sets and functions only the number is read.\<close>

record agg_op =
  agroup_index :: nat
  aindex :: nat
  agroups :: "expr list"
  aexprs :: "expr list"
  asets :: nat
  afuncs :: nat

fun return_type :: "expr \<Rightarrow> logical_type" where
  "return_type (ColumnRef ty b) = ty"
| "return_type (Func name cs ty) = ty"
| "return_type (Agg name cs dst ty) = ty"
| "return_type (Cast e ty) = ty"
| "return_type (OtherExpr k ty) = ty"

datatype plan =
    Get get_op "plan list"
  | Projection nat "expr list" "plan list"
  | Aggregate agg_op "plan list"
  | OtherOp nat "plan list"

fun plan_children :: "plan \<Rightarrow> plan list" where
  "plan_children (Get _ ps) = ps"
| "plan_children (Projection _ _ ps) = ps"
| "plan_children (Aggregate _ ps) = ps"
| "plan_children (OtherOp _ ps) = ps"

section \<open>The statistics cache\<close>

record column_usage =
  ufilters :: nat
  ugroups :: nat

record projection =
  jcatalog :: string
  jschema :: string
  jname :: string
  jgroup_set :: string
  jbase_rows :: nat

record optimize_state =
  oorder_by :: string
  orow_count :: nat

record stats_cache =
  usage :: "(string, (string, column_usage) rbt) rbt"
  group_sets :: "(string, (string, nat) rbt) rbt"
  projections :: "(string, projection) rbt"
  optimized :: "(string, optimize_state) rbt"

definition empty_stats :: stats_cache where
  "empty_stats = \<lparr>usage = RBT.empty, group_sets = RBT.empty, projections = RBT.empty, optimized = RBT.empty\<rparr>"

definition no_usage :: column_usage where
  "no_usage = \<lparr>ufilters = 0, ugroups = 0\<rparr>"

definition add_usage :: "nat \<Rightarrow> nat \<Rightarrow> string \<Rightarrow> string \<Rightarrow> stats_cache \<Rightarrow> stats_cache" where
  "add_usage f g key column st =
     st\<lparr>usage := update_entry RBT.empty
         (update_entry no_usage (\<lambda>u. \<lparr>ufilters = ufilters u + f, ugroups = ugroups u + g\<rparr>) column) key (usage st)\<rparr>"

definition add_group_set :: "nat \<Rightarrow> string \<Rightarrow> string \<Rightarrow> stats_cache \<Rightarrow> stats_cache" where
  "add_group_set n key group_set st =
     st\<lparr>group_sets := update_entry RBT.empty (update_entry 0 (\<lambda>c. c + n) group_set) key (group_sets st)\<rparr>"

definition table_key :: "table_ref \<Rightarrow> string" where
  "table_key t = lower (rcatalog t) @ ''.'' @ lower (rschema t) @ ''.'' @ lower (rname t)"

text \<open>\<^verbatim>\<open>StringUtil::Join\<close>.\<close>

fun join_strings :: "string \<Rightarrow> string list \<Rightarrow> string" where
  "join_strings sep [] = []"
| "join_strings sep [x] = x"
| "join_strings sep (x # y # xs) = x @ sep @ join_strings sep (y # xs)"

section \<open>Collecting statistics\<close>

definition resolve_get_column :: "get_op \<Rightarrow> nat \<Rightarrow> string option" where
  "resolve_get_column g i =
     (if i \<ge> length (gcolumns g) then None
      else let c = gcolumns g ! i in
        if c \<ge> length (gnames g) then None else Some (gnames g ! c))"

type_synonym operators = "nat \<Rightarrow> plan option"

fun collect_gets :: "plan \<Rightarrow> operators \<Rightarrow> operators"
  and collect_gets_list :: "plan list \<Rightarrow> operators \<Rightarrow> operators" where
  "collect_gets (Get g ps) ops = collect_gets_list ps (ops(gindex g \<mapsto> Get g ps))"
| "collect_gets (Projection i es ps) ops = collect_gets_list ps (ops(i \<mapsto> Projection i es ps))"
| "collect_gets (Aggregate a ps) ops = collect_gets_list ps ops"
| "collect_gets (OtherOp k ps) ops = collect_gets_list ps ops"
| "collect_gets_list [] ops = ops"
| "collect_gets_list (p # ps) ops = collect_gets_list ps (collect_gets p ops)"

fun unwrap_internal :: "expr \<Rightarrow> expr" where
  "unwrap_internal (Func name (c # cs) ty) =
     (if prefix ''__internal_'' name then c else Func name (c # cs) ty)"
| "unwrap_internal e = e"

text \<open>\<^verbatim>\<open>TraceBinding\<close>; the first argument counts the hops left, 16 at the start.\<close>

fun trace_hops :: "nat \<Rightarrow> operators \<Rightarrow> binding \<Rightarrow> (get_op \<times> binding) option" where
  "trace_hops 0 ops b = None"
| "trace_hops (Suc hops) ops b =
     (case ops (fst b) of
        Some (Get g ps) \<Rightarrow> Some (g, b)
      | Some (Projection i es ps) \<Rightarrow>
          if snd b \<ge> length es then None
          else (case unwrap_internal (es ! snd b) of
                  ColumnRef ty b' \<Rightarrow> trace_hops hops ops b'
                | _ \<Rightarrow> None)
      | _ \<Rightarrow> None)"

definition trace_binding :: "operators \<Rightarrow> binding \<Rightarrow> (get_op \<times> binding) option" where
  "trace_binding ops b = trace_hops 16 ops b"

fun collect_filters :: "string \<Rightarrow> string list \<Rightarrow> nat list \<Rightarrow> stats_cache \<Rightarrow> stats_cache" where
  "collect_filters key names [] st = st"
| "collect_filters key names (c # cs) st =
     collect_filters key names cs
       (if c \<ge> length names then st else add_usage 1 0 key (names ! c) st)"

text \<open>The grouping columns of an aggregate, with the columns met so far per table.\<close>

definition group_column :: "operators \<Rightarrow> expr \<Rightarrow> (string \<times> string) option" where
  "group_column ops e =
     (case e of
        ColumnRef ty b \<Rightarrow>
          (case trace_binding ops b of
             None \<Rightarrow> None
           | Some (g, b) \<Rightarrow>
               (case (gtable g, resolve_get_column g (snd b)) of
                  (Some t, Some name) \<Rightarrow> Some (table_key t, name)
                | _ \<Rightarrow> None))
      | _ \<Rightarrow> None)"

fun collect_groups ::
    "operators \<Rightarrow> expr list \<Rightarrow> (string, string list) rbt \<Rightarrow> stats_cache \<Rightarrow> (string, string list) rbt \<times> stats_cache" where
  "collect_groups ops [] sets st = (sets, st)"
| "collect_groups ops (e # es) sets st =
     (case group_column ops e of
        None \<Rightarrow> collect_groups ops es sets st
      | Some (key, name) \<Rightarrow>
          collect_groups ops es (update_entry [] (\<lambda>cs. cs @ [name]) key sets) (add_usage 0 1 key name st))"

definition group_set_name :: "string list \<Rightarrow> string" where
  "group_set_name columns = join_strings '', '' (sort columns)"

definition note_group_sets :: "(string, string list) rbt \<Rightarrow> stats_cache \<Rightarrow> stats_cache" where
  "note_group_sets sets st =
     fold (\<lambda>(key, columns). add_group_set 1 key (group_set_name columns)) (RBT.entries sets) st"

fun collect_stats :: "operators \<Rightarrow> plan \<Rightarrow> stats_cache \<Rightarrow> stats_cache"
  and collect_stats_list :: "operators \<Rightarrow> plan list \<Rightarrow> stats_cache \<Rightarrow> stats_cache" where
  "collect_stats ops (Get g ps) st =
     collect_stats_list ops ps
       (case gtable g of None \<Rightarrow> st | Some t \<Rightarrow> collect_filters (table_key t) (gnames g) (gfilters g) st)"
| "collect_stats ops (Aggregate a ps) st =
     collect_stats_list ops ps
       (case collect_groups ops (agroups a) RBT.empty st of (sets, st) \<Rightarrow> note_group_sets sets st)"
| "collect_stats ops (Projection i es ps) st = collect_stats_list ops ps st"
| "collect_stats ops (OtherOp k ps) st = collect_stats_list ops ps st"
| "collect_stats_list ops [] st = st"
| "collect_stats_list ops (p # ps) st = collect_stats_list ops ps (collect_stats ops p st)"

definition optimize_hook :: "plan \<Rightarrow> stats_cache \<Rightarrow> stats_cache" where
  "optimize_hook p st = collect_stats (collect_gets p (\<lambda>_. None)) p st"

section \<open>Rewriting onto a projection\<close>

text \<open>
  What the rewriting asks DuckDB: the physical row count of a table, the catalog entry of a
  projection table with its physical columns, and the result type of \<^verbatim>\<open>sum\<close> over BIGINT.
\<close>

record rewrite_env =
  total_rows :: "table_ref \<Rightarrow> nat"
  find_table :: "string \<Rightarrow> string \<Rightarrow> string \<Rightarrow> (table_ref \<times> (string \<times> logical_type) list) option"
  sum_type :: "logical_type option"

definition is_count_star :: "expr \<Rightarrow> bool" where
  "is_count_star e \<longleftrightarrow>
     (case e of Agg name cs dst ty \<Rightarrow> name = ''count_star'' \<and> cs = [] \<and> \<not> dst | _ \<Rightarrow> False)"

definition is_column_ref :: "expr \<Rightarrow> bool" where
  "is_column_ref e \<longleftrightarrow> (case e of ColumnRef ty b \<Rightarrow> True | _ \<Rightarrow> False)"

text \<open>The names of the groups, when all are plain columns of the scan.\<close>

fun scanned_groups :: "get_op \<Rightarrow> expr list \<Rightarrow> string list option" where
  "scanned_groups g [] = Some []"
| "scanned_groups g (ColumnRef ty b # es) =
     (if fst b \<noteq> gindex g then None
      else case resolve_get_column g (snd b) of
          None \<Rightarrow> None
        | Some name \<Rightarrow> map_option (\<lambda>names. name # names) (scanned_groups g es))"
| "scanned_groups g (e # es) = None"

text \<open>The physical columns of the projection table by folded name.\<close>

fun projection_columns :: "nat \<Rightarrow> (string \<times> logical_type) list \<Rightarrow> (string \<Rightarrow> nat option) \<Rightarrow> string \<Rightarrow> nat option" where
  "projection_columns i [] m = m"
| "projection_columns i (c # cs) m = projection_columns (Suc i) cs (m(lower (fst c) \<mapsto> i))"

fun column_positions :: "(string \<Rightarrow> nat option) \<Rightarrow> string list \<Rightarrow> nat list option" where
  "column_positions m [] = Some []"
| "column_positions m (name # names) =
     (case m (lower name) of
        None \<Rightarrow> None
      | Some i \<Rightarrow> map_option (\<lambda>ids. i # ids) (column_positions m names))"

definition retarget :: "nat \<Rightarrow> nat \<Rightarrow> expr \<Rightarrow> expr" where
  "retarget t i e = (case e of ColumnRef ty b \<Rightarrow> ColumnRef ty (t, i) | _ \<Rightarrow> e)"

definition add_cast :: "expr \<Rightarrow> logical_type \<Rightarrow> expr" where
  "add_cast e ty = (if return_type e = ty then e else Cast e ty)"

definition recast :: "binding \<Rightarrow> logical_type \<Rightarrow> expr \<Rightarrow> expr" where
  "recast count_binding st e =
     (case e of
        ColumnRef ty b \<Rightarrow> if b = count_binding then add_cast (ColumnRef st b) ty else e
      | _ \<Rightarrow> e)"

text \<open>The registered projection of the table for exactly this group set, if it is fresh.\<close>

definition usable_projection ::
    "rewrite_env \<Rightarrow> stats_cache \<Rightarrow> table_ref \<Rightarrow> string list \<Rightarrow> (table_ref \<times> (string \<times> logical_type) list) option" where
  "usable_projection E st t names =
     (case RBT.lookup (projections st) (table_key t) of
        None \<Rightarrow> None
      | Some j \<Rightarrow>
          if jgroup_set j \<noteq> group_set_name names then None
          else if total_rows E t \<noteq> jbase_rows j then None
          else find_table E (jcatalog j) (jschema j) (jname j))"

text \<open>The positions of the groups and of the count in the projection table.\<close>

definition projection_scan :: "(string \<times> logical_type) list \<Rightarrow> string list \<Rightarrow> nat list option" where
  "projection_scan cols names =
     (let m = projection_columns 0 cols (\<lambda>_. None) in
      case column_positions m names of
        None \<Rightarrow> None
      | Some ids \<Rightarrow> (case m (lower ''count'') of None \<Rightarrow> None | Some c \<Rightarrow> Some (ids @ [c])))"

text \<open>
  \<^verbatim>\<open>TryRewriteToProjection\<close>: whether it rewrote, and the plan it leaves. The groups are
  retargeted before \<^verbatim>\<open>sum\<close> is bound, so they stay so if that fails.
\<close>

definition try_rewrite :: "rewrite_env \<Rightarrow> stats_cache \<Rightarrow> plan \<Rightarrow> bool \<times> plan" where
  "try_rewrite E st p =
     (case p of
        Projection pi es [Aggregate a [Get g gs]] \<Rightarrow>
          (case gtable g of
             None \<Rightarrow> (False, p)
           | Some t \<Rightarrow>
               if gfilters g \<noteq> [] then (False, p)
               else if afuncs a \<noteq> 0 \<or> asets a > 1 \<or> length (aexprs a) \<noteq> 1 \<or> agroups a = [] then (False, p)
               else if \<not> is_count_star (hd (aexprs a)) then (False, p)
               else (case scanned_groups g (agroups a) of
                   None \<Rightarrow> (False, p)
                 | Some names \<Rightarrow>
                     (case usable_projection E st t names of
                        None \<Rightarrow> (False, p)
                      | Some (pt, cols) \<Rightarrow>
                          if \<not> list_all is_column_ref es then (False, p)
                          else (case projection_scan cols names of
                              None \<Rightarrow> (False, p)
                            | Some ids \<Rightarrow>
                                (let new_get = \<lparr>gindex = gindex g, gtable = Some pt, gnames = map fst cols,
                                       gtypes = map snd cols, gcolumns = ids, gfilters = []\<rparr>;
                                     a = a\<lparr>agroups := map (\<lambda>(i, e). retarget (gindex g) i e) (enumerate 0 (agroups a))\<rparr>
                                 in case sum_type E of
                                     None \<Rightarrow> (False, Projection pi es [Aggregate a [Get g gs]])
                                   | Some sty \<Rightarrow>
                                       (let count = Agg ''sum'' [ColumnRef TBigint (gindex g, length names)] False sty
                                        in (True, Projection pi (map (recast (aindex a, 0) sty) es)
                                             [Aggregate (a\<lparr>aexprs := [count]\<rparr>) [Get new_get []]])))))))
      | _ \<Rightarrow> (False, p))"

fun plan_depth :: "plan \<Rightarrow> nat" and plans_depth :: "plan list \<Rightarrow> nat" where
  "plan_depth (Get _ ps) = Suc (plans_depth ps)"
| "plan_depth (Projection _ _ ps) = Suc (plans_depth ps)"
| "plan_depth (Aggregate _ ps) = Suc (plans_depth ps)"
| "plan_depth (OtherOp _ ps) = Suc (plans_depth ps)"
| "plans_depth [] = 0"
| "plans_depth (p # ps) = max (plan_depth p) (plans_depth ps)"

lemma plan_depth_child: "c \<in> set (plan_children p) \<Longrightarrow> plan_depth c < plan_depth p"
proof -
  have "c \<in> set ps \<Longrightarrow> plan_depth c < Suc (plans_depth ps)" for ps
    by (induction ps) (auto simp: less_Suc_eq_le le_max_iff_disj)
  then show "c \<in> set (plan_children p) \<Longrightarrow> plan_depth c < plan_depth p" by (cases p) simp_all
qed

lemma try_rewrite_True:
  assumes "try_rewrite E st p = (True, q)"
  obtains pi es a g gs t names pt cols ids sty where
    "p = Projection pi es [Aggregate a [Get g gs]]" "gtable g = Some t" "gfilters g = []"
    "length (aexprs a) = 1" "is_count_star (hd (aexprs a))" "agroups a \<noteq> []"
    "scanned_groups g (agroups a) = Some names" "usable_projection E st t names = Some (pt, cols)"
    "list_all is_column_ref es" "projection_scan cols names = Some ids" "sum_type E = Some sty"
    "q = Projection pi (map (recast (aindex a, 0) sty) es)
       [Aggregate (a\<lparr>agroups := map (\<lambda>(i, e). retarget (gindex g) i e) (enumerate 0 (agroups a)),
            aexprs := [Agg ''sum'' [ColumnRef TBigint (gindex g, length names)] False sty]\<rparr>)
          [Get \<lparr>gindex = gindex g, gtable = Some pt, gnames = map fst cols, gtypes = map snd cols,
             gcolumns = ids, gfilters = []\<rparr> []]]"
  using assms unfolding try_rewrite_def Let_def
  by (auto split: plan.splits list.splits option.splits if_splits prod.splits)

lemma try_rewrite_False: "sum_type E \<noteq> None \<Longrightarrow> try_rewrite E st p = (False, q) \<Longrightarrow> q = p"
  unfolding try_rewrite_def Let_def
  by (auto split: plan.splits list.splits option.splits if_splits prod.splits)

lemma try_rewrite_depth: "plan_depth (snd (try_rewrite E st p)) \<le> plan_depth p"
  unfolding try_rewrite_def Let_def
  by (simp split: plan.split list.split option.split prod.split)

text \<open>\<^verbatim>\<open>RewriteAggregates\<close>: the root first, then the children of what the root became.\<close>

fun with_children :: "plan list \<Rightarrow> plan \<Rightarrow> plan" where
  "with_children qs (Get g ps) = Get g qs"
| "with_children qs (Projection i es ps) = Projection i es qs"
| "with_children qs (Aggregate a ps) = Aggregate a qs"
| "with_children qs (OtherOp k ps) = OtherOp k qs"

definition rewritten :: "rewrite_env \<Rightarrow> stats_cache \<Rightarrow> plan \<Rightarrow> plan" where
  "rewritten E st p = snd (try_rewrite E st p)"

lemma rewritten_depth: "plan_depth (rewritten E st p) \<le> plan_depth p"
  by (simp add: rewritten_def try_rewrite_depth)

function rewrite_aggregates :: "rewrite_env \<Rightarrow> stats_cache \<Rightarrow> plan \<Rightarrow> plan" where
  "rewrite_aggregates E st p =
     (let q = rewritten E st p
      in with_children (map (rewrite_aggregates E st) (plan_children q)) q)"
  by pat_completeness auto
termination
  by (relation "measure (\<lambda>(E, st, p). plan_depth p)")
    (auto intro: less_le_trans [OF plan_depth_child rewritten_depth])

declare rewrite_aggregates.simps [simp del]

definition pre_optimize_hook :: "session \<Rightarrow> rewrite_env \<Rightarrow> stats_cache \<Rightarrow> plan \<Rightarrow> plan" where
  "pre_optimize_hook conf E st p =
     (if \<not> bool_setting conf ''rawduck_use_projections'' False then p
      else if RBT.is_empty (projections st) then p
      else rewrite_aggregates E st p)"

end
