(* ===== verification/Plans_Spec.thy ===== *)
theory Plans_Spec
  imports Plans
begin

text \<open>
  What the rewriting of \<^verbatim>\<open>raw_optimize.cpp\<close> promises: a typing of plans that it keeps, and
  the answer of an aggregation over a scan, which it does not change when the projection table
  holds the counts of the base table. The answer is the documented meaning of a scan, of
  GROUP BY with \<^verbatim>\<open>count(*)\<close> and \<^verbatim>\<open>sum\<close>, and of a cast to BIGINT, on rows as lists of cells.
\<close>

section \<open>Typing\<close>

text \<open>What an operator produces: its column bindings with their types.\<close>

definition get_outputs :: "get_op \<Rightarrow> (binding \<times> logical_type) list" where
  "get_outputs g = map (\<lambda>(i, c). ((gindex g, i), gtypes g ! c)) (enumerate 0 (gcolumns g))"

definition expr_outputs :: "nat \<Rightarrow> expr list \<Rightarrow> (binding \<times> logical_type) list" where
  "expr_outputs t es = map (\<lambda>(i, e). ((t, i), return_type e)) (enumerate 0 es)"

fun outputs :: "plan \<Rightarrow> (binding \<times> logical_type) list" where
  "outputs (Get g ps) = get_outputs g"
| "outputs (Projection i es ps) = expr_outputs i es"
| "outputs (Aggregate a ps) = expr_outputs (agroup_index a) (agroups a) @ expr_outputs (aindex a) (aexprs a)"
| "outputs (OtherOp k ps) = concat (map outputs ps)"

fun expr_typed :: "(binding \<times> logical_type) set \<Rightarrow> expr \<Rightarrow> bool" where
  "expr_typed B (ColumnRef ty b) \<longleftrightarrow> (b, ty) \<in> B"
| "expr_typed B (Func name cs ty) \<longleftrightarrow> (\<forall>c \<in> set cs. expr_typed B c)"
| "expr_typed B (Agg name cs dst ty) \<longleftrightarrow> (\<forall>c \<in> set cs. expr_typed B c)"
| "expr_typed B (Cast e ty) \<longleftrightarrow> expr_typed B e"
| "expr_typed B (OtherExpr k ty) \<longleftrightarrow> True"

type_synonym catalog = "table_ref \<Rightarrow> (string \<times> logical_type) list"

fun plan_typed :: "catalog \<Rightarrow> plan \<Rightarrow> bool" where
  "plan_typed C (Get g ps) \<longleftrightarrow>
     length (gnames g) = length (gtypes g) \<and>
     (case gtable g of None \<Rightarrow> True | Some t \<Rightarrow> zip (gnames g) (gtypes g) = C t) \<and> (\<forall>c \<in> set (gcolumns g). c < length (gtypes g)) \<and>
     (\<forall>p \<in> set ps. plan_typed C p)"
| "plan_typed C (Projection i es ps) \<longleftrightarrow>
     (\<forall>e \<in> set es. expr_typed (set (concat (map outputs ps))) e) \<and> (\<forall>p \<in> set ps. plan_typed C p)"
| "plan_typed C (Aggregate a ps) \<longleftrightarrow> agroup_index a \<noteq> aindex a \<and>
     (\<forall>e \<in> set (agroups a @ aexprs a). expr_typed (set (concat (map outputs ps))) e) \<and>
     (\<forall>p \<in> set ps. plan_typed C p)"
| "plan_typed C (OtherOp k ps) \<longleftrightarrow> (\<forall>p \<in> set ps. plan_typed C p)"

text \<open>
  The catalog's answer fits the scan it replaces: the projection table has the types of the
  base table's columns and a BIGINT count, and \<^verbatim>\<open>sum\<close> over BIGINT can be bound.
\<close>

definition catalog_typed :: "catalog \<Rightarrow> rewrite_env \<Rightarrow> stats_cache \<Rightarrow> bool" where
  "catalog_typed C E st \<longleftrightarrow> sum_type E \<noteq> None \<and>
     (\<forall>t names pt cols. usable_projection E st t names = Some (pt, cols) \<longrightarrow>
        cols = C pt \<and>
        (\<forall>c \<in> set cols. (\<forall>d \<in> set (C t). lower (fst c) = lower (fst d) \<longrightarrow> snd c = snd d) \<and>
          (lower (fst c) = ''count'' \<longrightarrow> snd c = TBigint)))"

lemma catalog_typedD:
  assumes "catalog_typed C E st" "usable_projection E st t names = Some (pt, cols)"
  shows "cols = C pt"
    and "c \<in> set cols \<Longrightarrow> d \<in> set (C t) \<Longrightarrow> lower (fst c) = lower (fst d) \<Longrightarrow> snd c = snd d"
    and "c \<in> set cols \<Longrightarrow> lower (fst c) = ''count'' \<Longrightarrow> snd c = TBigint"
  using assms unfolding catalog_typed_def by blast+

lemma projection_columns_nth:
  "projection_columns i cols m k = Some j \<Longrightarrow>
     m k = Some j \<or> (i \<le> j \<and> j < i + length cols \<and> lower (fst (cols ! (j - i))) = k)"
proof (induction cols arbitrary: i m)
  case (Cons c cols)
  have "projection_columns (Suc i) cols (m(lower (fst c) \<mapsto> i)) k = Some j" using Cons.prems by simp
  from Cons.IH [OF this] have "(m(lower (fst c) \<mapsto> i)) k = Some j \<or>
      Suc i \<le> j \<and> j < Suc i + length cols \<and> lower (fst (cols ! (j - Suc i))) = k" .
  then show ?case
  proof
    assume "(m(lower (fst c) \<mapsto> i)) k = Some j"
    then show ?thesis by (auto split: if_splits)
  next
    assume j: "Suc i \<le> j \<and> j < Suc i + length cols \<and> lower (fst (cols ! (j - Suc i))) = k"
    then have "j - i = Suc (j - Suc i)" by arith
    with j show ?thesis by simp
  qed
qed simp

lemma column_positions_list:
  "column_positions m names = Some ids \<longleftrightarrow> list_all2 (\<lambda>n i. m (lower n) = Some i) names ids"
  by (induction names arbitrary: ids) (auto simp: list_all2_Cons1 split: option.splits)

lemma projection_scanD:
  assumes "projection_scan cols names = Some ids"
  obtains js c where "ids = js @ [c]" "length js = length names"
    "\<forall>i < length names. js ! i < length cols \<and> lower (fst (cols ! (js ! i))) = lower (names ! i)"
    "c < length cols" "lower (fst (cols ! c)) = ''count''"
proof -
  let ?m = "projection_columns 0 cols (\<lambda>_. None)"
  have low: "lower ''count'' = ''count''" by code_simp
  obtain js c where j: "column_positions ?m names = Some js" "?m ''count'' = Some c" "ids = js @ [c]"
    using assms unfolding projection_scan_def Let_def low by (auto split: option.splits)
  have all: "list_all2 (\<lambda>n i. ?m (lower n) = Some i) names js" using j(1) by (simp add: column_positions_list)
  have at: "i < length cols \<and> lower (fst (cols ! i)) = k" if "?m k = Some i" for k i
    using projection_columns_nth [OF that] by simp
  show ?thesis
    by (rule that [OF j(3)]) (use all at j(2) in \<open>auto simp: list_all2_conv_all_nth\<close>)
qed

lemma scanned_groupsD:
  "scanned_groups g es = Some names \<Longrightarrow>
     length names = length es \<and>
     (\<forall>i < length es. \<exists>ty k. es ! i = ColumnRef ty (gindex g, k) \<and> k < length (gcolumns g) \<and>
        gcolumns g ! k < length (gnames g) \<and> names ! i = gnames g ! (gcolumns g ! k))"
proof (induction g es arbitrary: names rule: scanned_groups.induct)
  case (2 g ty b es)
  then obtain name rest where r: "fst b = gindex g" "resolve_get_column g (snd b) = Some name"
      "scanned_groups g es = Some rest" "names = name # rest"
    by (auto split: if_splits option.splits)
  have "snd b < length (gcolumns g) \<and> gcolumns g ! snd b < length (gnames g) \<and>
      name = gnames g ! (gcolumns g ! snd b)"
    using r(2) by (auto simp: resolve_get_column_def Let_def split: if_splits)
  with r 2(1) [OF _ r(2,3)] show ?case
    by (cases b) (auto simp: nth_Cons split: nat.splits)
qed simp_all

lemma in_get_outputs:
  "(b, ty) \<in> set (get_outputs g) \<longleftrightarrow>
     (\<exists>i < length (gcolumns g). b = (gindex g, i) \<and> ty = gtypes g ! (gcolumns g ! i))"
  by (force simp: get_outputs_def in_set_enumerate_eq)

lemma in_expr_outputs:
  "(b, ty) \<in> set (expr_outputs t es) \<longleftrightarrow> (\<exists>i < length es. b = (t, i) \<and> ty = return_type (es ! i))"
  by (force simp: expr_outputs_def in_set_enumerate_eq)

lemma return_type_recast: "return_type (recast b sty e) = return_type e"
  by (cases e) (auto simp: recast_def add_cast_def)

lemma expr_outputs_types:
  "expr_outputs t es = map (\<lambda>(i, ty). ((t, i), ty)) (zip [0 ..< length es] (map return_type es))"
  by (simp add: expr_outputs_def enumerate_eq_zip zip_map2 case_prod_unfold)

lemma rewritten_outputs:
  assumes "try_rewrite E st p = (True, q)"
  shows "outputs q = outputs p"
proof -
  from assms obtain pi es ps qs sty b where "p = Projection pi es ps" "q = Projection pi (map (recast b sty) es) qs"
    by (rule try_rewrite_True) blast
  moreover have "map return_type (map (recast b sty) es) = map return_type es"
    by (simp add: return_type_recast)
  ultimately show ?thesis by (simp add: expr_outputs_types return_type_recast comp_def)
qed

text \<open>The typing of the rewritten aggregation.\<close>

lemma try_rewrite_typed:
  assumes env: "catalog_typed C E st" and p: "plan_typed C p" and rw: "try_rewrite E st p = (True, q)"
  shows "plan_typed C q"
proof -
  from rw obtain pi es a g gs t names pt cols ids sty where
    e: "p = Projection pi es [Aggregate a [Get g gs]]" "gtable g = Some t"
    "length (aexprs a) = 1" "is_count_star (hd (aexprs a))"
    "scanned_groups g (agroups a) = Some names" "usable_projection E st t names = Some (pt, cols)"
    "list_all is_column_ref es" "projection_scan cols names = Some ids"
    and q: "q = Projection pi (map (recast (aindex a, 0) sty) es)
       [Aggregate (a\<lparr>agroups := map (\<lambda>(i, e). retarget (gindex g) i e) (enumerate 0 (agroups a)),
            aexprs := [Agg ''sum'' [ColumnRef TBigint (gindex g, length names)] False sty]\<rparr>)
          [Get \<lparr>gindex = gindex g, gtable = Some pt, gnames = map fst cols, gtypes = map snd cols,
             gcolumns = ids, gfilters = []\<rparr> []]]"
    by (rule try_rewrite_True)
  from e(8) obtain js c where js: "ids = js @ [c]" "length js = length names"
    "\<forall>i < length names. js ! i < length cols \<and> lower (fst (cols ! (js ! i))) = lower (names ! i)"
    "c < length cols" "lower (fst (cols ! c)) = ''count''"
    by (rule projection_scanD)
  note sg = scanned_groupsD [OF e(5)]
  have gt: "length (gnames g) = length (gtypes g)" using p by (simp add: e(1))
  let ?g = "\<lparr>gindex = gindex g, gtable = Some pt, gnames = map fst cols, gtypes = map snd cols,
    gcolumns = ids, gfilters = []\<rparr>"
  let ?groups = "map (\<lambda>(i, e). retarget (gindex g) i e) (enumerate 0 (agroups a))"
  have at: "?groups ! i = ColumnRef (return_type (agroups a ! i)) (gindex g, i)"
    if "i < length (agroups a)" for i
    using sg that by (auto simp: nth_enumerate_eq retarget_def)
  have groups: "return_type (agroups a ! i) = snd (cols ! (js ! i))" if i: "i < length (agroups a)" for i
  proof -
    obtain ty k where k: "agroups a ! i = ColumnRef ty (gindex g, k)" "k < length (gcolumns g)"
      "gcolumns g ! k < length (gnames g)" "names ! i = gnames g ! (gcolumns g ! k)"
      using sg i by blast
    have "\<forall>x \<in> set (agroups a). expr_typed (set (get_outputs g)) x" using p by (simp add: e(1))
    then have "expr_typed (set (get_outputs g)) (agroups a ! i)" using i by simp
    then have "((gindex g, k), ty) \<in> set (get_outputs g)" by (simp add: k(1))
    then have "ty = gtypes g ! (gcolumns g ! k)" by (auto simp: in_get_outputs)
    moreover have "snd (cols ! (js ! i)) = gtypes g ! (gcolumns g ! k)"
    proof (rule catalog_typedD(2) [OF env e(6), where d = "(names ! i, gtypes g ! (gcolumns g ! k))", simplified])
      show "cols ! (js ! i) \<in> set cols" "lower (fst (cols ! (js ! i))) = lower (names ! i)"
        using js(2,3) sg i by auto
      have "zip (gnames g) (gtypes g) = C t" using p e(2) by (simp add: e(1))
      moreover have "(names ! i, gtypes g ! (gcolumns g ! k)) \<in> set (zip (gnames g) (gtypes g))"
        unfolding in_set_zip using k(3,4) gt by (intro exI [of _ "gcolumns g ! k"]) simp
      ultimately show "(names ! i, gtypes g ! (gcolumns g ! k)) \<in> set (C t)" by simp
    qed
    ultimately show ?thesis by (simp add: k(1))
  qed
  have "plan_typed C (Get ?g [])"
    using js catalog_typedD(1) [OF env e(6)] by (auto simp: in_set_conv_nth zip_map_fst_snd)
  moreover have "expr_typed (set (get_outputs ?g)) e" if "e \<in> set ?groups" for e
  proof -
    from that obtain i where i: "i < length (agroups a)" "e = ?groups ! i"
      by (auto simp: in_set_conv_nth)
    with at groups js sg show ?thesis by (auto simp: in_get_outputs nth_append)
  qed
  moreover have "expr_typed (set (get_outputs ?g)) (Agg ''sum'' [ColumnRef TBigint (gindex g, length names)] False sty)"
    using js catalog_typedD(3) [OF env e(6), of "cols ! c"] by (auto simp: in_get_outputs nth_append)
  moreover have "expr_typed (set (expr_outputs (agroup_index a) ?groups) \<union> {((aindex a, 0), sty)})
      (recast (aindex a, 0) sty x)" if x: "x \<in> set es" for x
  proof -
    have "map return_type ?groups = map return_type (agroups a)"
      using at by (intro nth_equalityI) simp_all
    then have same: "expr_outputs (agroup_index a) ?groups = expr_outputs (agroup_index a) (agroups a)"
      by (simp add: expr_outputs_types)
    obtain ty b where b: "x = ColumnRef ty b"
      using e(7) x by (cases x) (auto simp: list_all_iff is_column_ref_def)
    have "\<forall>x \<in> set es. expr_typed (set (outputs (Aggregate a [Get g gs]))) x" using p by (simp add: e(1))
    with x b have "(b, ty) \<in> set (expr_outputs (agroup_index a) (agroups a)) \<union> set (expr_outputs (aindex a) (aexprs a))"
      by auto
    then have "b = (aindex a, 0) \<or> (b, ty) \<in> set (expr_outputs (agroup_index a) (agroups a))"
      using e(3) by (auto simp: in_expr_outputs)
    then show ?thesis unfolding same by (auto simp: b recast_def add_cast_def)
  qed
  moreover have "set (expr_outputs (aindex a) [Agg f cs d sty]) = {((aindex a, 0), sty)}" for f cs d
    by (simp add: expr_outputs_def)
  moreover have "agroup_index a \<noteq> aindex a" using p by (simp add: e(1))
  ultimately show ?thesis unfolding q plan_typed.simps by auto
qed

lemma rewritten_typed:
  assumes "catalog_typed C E st" "plan_typed C p"
  shows "plan_typed C (rewritten E st p) \<and> outputs (rewritten E st p) = outputs p"
proof (cases "try_rewrite E st p")
  case (Pair b q)
  show ?thesis
  proof (cases b)
    case True
    with Pair assms show ?thesis by (simp add: rewritten_def rewritten_outputs try_rewrite_typed)
  next
    case False
    with Pair assms try_rewrite_False [of E st p q] show ?thesis
      by (simp add: rewritten_def catalog_typed_def)
  qed
qed

lemma with_children_outputs:
  "map outputs qs = map outputs (plan_children p) \<Longrightarrow> outputs (with_children qs p) = outputs p"
  by (cases p) simp_all

lemma with_children_typed:
  "plan_typed C p \<Longrightarrow> map outputs qs = map outputs (plan_children p) \<Longrightarrow> \<forall>q \<in> set qs. plan_typed C q \<Longrightarrow>
     plan_typed C (with_children qs p)"
  by (cases p) simp_all

lemma plan_typed_children: "plan_typed C p \<Longrightarrow> c \<in> set (plan_children p) \<Longrightarrow> plan_typed C c"
  by (cases p) simp_all

section \<open>Answers\<close>

text \<open>
  The visible rows of a table are a parameter. \<open>Huge\<close> is a HUGEINT, \<open>Overflow\<close> a cast that is
  out of range (a runtime error of the query).
\<close>

datatype sqlval = Cell cell | Huge int | Overflow

fun cell_int :: "cell \<Rightarrow> int" where
  "cell_int (CBigint w) = sint w"
| "cell_int _ = 0"

definition scan_rows :: "(table_ref \<Rightarrow> cell list list) \<Rightarrow> get_op \<Rightarrow> cell list list" where
  "scan_rows D g =
     (case gtable g of None \<Rightarrow> [] | Some t \<Rightarrow> map (\<lambda>r. map (\<lambda>c. r ! c) (gcolumns g)) (D t))"

definition scanned :: "cell list \<Rightarrow> expr \<Rightarrow> cell" where
  "scanned r e = (case e of ColumnRef ty b \<Rightarrow> r ! snd b | _ \<Rightarrow> CNull)"

definition agg_value :: "expr \<Rightarrow> cell list list \<Rightarrow> sqlval" where
  "agg_value e rows =
     (if is_count_star e then Cell (CBigint (of_nat (length rows)))
      else case e of
          Agg name [c] dst ty \<Rightarrow>
            if name = ''sum'' \<and> \<not> dst then Huge (sum_list (map (\<lambda>r. cell_int (scanned r c)) rows)) else Overflow
        | _ \<Rightarrow> Overflow)"

definition cast_value :: "logical_type \<Rightarrow> sqlval \<Rightarrow> sqlval" where
  "cast_value ty v =
     (case v of
        Huge n \<Rightarrow> if ty = TBigint \<and> - (2 ^ 63) \<le> n \<and> n < 2 ^ 63 then Cell (CBigint (word_of_int n)) else Overflow
      | _ \<Rightarrow> v)"

fun out_value :: "agg_op \<Rightarrow> cell list \<Rightarrow> sqlval list \<Rightarrow> expr \<Rightarrow> sqlval" where
  "out_value a key vs (ColumnRef ty b) =
     (if fst b = agroup_index a then Cell (key ! snd b) else vs ! snd b)"
| "out_value a key vs (Cast e ty) = cast_value ty (out_value a key vs e)"
| "out_value a key vs e = Overflow"

text \<open>One output row per distinct group key, in no particular order.\<close>

definition aggregate_answer ::
    "(table_ref \<Rightarrow> cell list list) \<Rightarrow> expr list \<Rightarrow> agg_op \<Rightarrow> get_op \<Rightarrow> sqlval list multiset" where
  "aggregate_answer D es a g =
     (let rows = scan_rows D g;
          key = (\<lambda>r. map (scanned r) (agroups a))
      in image_mset
           (\<lambda>k. map (out_value a k (map (\<lambda>e. agg_value e (filter (\<lambda>r. key r = k) rows)) (aexprs a))) es)
           (mset_set (key ` set rows)))"

definition plan_answer :: "(table_ref \<Rightarrow> cell list list) \<Rightarrow> plan \<Rightarrow> sqlval list multiset" where
  "plan_answer D p =
     (case p of Projection pi es [Aggregate a [Get g gs]] \<Rightarrow> aggregate_answer D es a g | _ \<Rightarrow> {#})"

text \<open>The contents \<^verbatim>\<open>SELECT cols, count(*) FROM t GROUP BY ALL\<close> has over the rows of a table.\<close>

definition index_of :: "'a \<Rightarrow> 'a list \<Rightarrow> nat" where
  "index_of x xs = length (takeWhile (\<lambda>y. y \<noteq> x) xs)"

definition project_row :: "string list \<Rightarrow> string list \<Rightarrow> cell list \<Rightarrow> cell list" where
  "project_row names cols r = map (\<lambda>n. r ! index_of n names) cols"

definition counted_rows :: "string list \<Rightarrow> string list \<Rightarrow> cell list list \<Rightarrow> cell list multiset" where
  "counted_rows names cols rows =
     image_mset (\<lambda>k. k @ [CBigint (of_nat (length (filter (\<lambda>r. project_row names cols r = k) rows)))])
       (mset_set (project_row names cols ` set rows))"

text \<open>Joined names determine the names, as long as no name has a comma.\<close>

lemma takeWhile_comma:
  "CHR '','' \<notin> set x \<Longrightarrow> takeWhile (\<lambda>c. c \<noteq> CHR '','') (x @ CHR '','' # ys) = x"
  by (induction x) auto

lemma join_strings_inj:
  assumes "\<forall>x \<in> set xs. CHR '','' \<notin> set x" "\<forall>y \<in> set ys. CHR '','' \<notin> set y" "xs \<noteq> []" "ys \<noteq> []"
    and "join_strings '', '' xs = join_strings '', '' ys"
  shows "xs = ys"
  using assms
proof (induction "'', ''" xs arbitrary: ys rule: join_strings.induct)
  case (2 x)
  then obtain y ys' where ys: "ys = y # ys'" by (cases ys) auto
  show ?case
  proof (cases ys')
    case (Cons z zs)
    with 2 ys have "x = y @ '', '' @ join_strings '', '' ys'" by simp
    then have "CHR '','' \<in> set x" by simp
    with 2 show ?thesis by simp
  qed (use 2 ys in simp)
next
  case (3 x x' xs)
  then obtain y ys' where ys: "ys = y # ys'" by (cases ys) auto
  show ?case
  proof (cases ys')
    case Nil
    with 3 ys have "y = x @ '', '' @ join_strings '', '' (x' # xs)" by simp
    then have "CHR '','' \<in> set y" by simp
    with 3 ys show ?thesis by simp
  next
    case (Cons z zs)
    with 3 ys have eq: "x @ CHR '','' # CHR '' '' # join_strings '', '' (x' # xs) =
        y @ CHR '','' # CHR '' '' # join_strings '', '' ys'" by simp
    have "x = y"
      using arg_cong [OF eq, of "takeWhile (\<lambda>c. c \<noteq> CHR '','')"] 3 ys by (simp add: takeWhile_comma)
    moreover have "x' # xs = ys'"
      by (rule 3(1)) (use eq 3 ys Cons \<open>x = y\<close> in auto)
    ultimately show ?thesis by (simp add: ys)
  qed
qed simp

lemma group_set_name_inj:
  assumes "group_set_name names = group_set_name pnames" "names \<noteq> []" "pnames \<noteq> []"
    and "\<forall>n \<in> set names \<union> set pnames. CHR '','' \<notin> set n"
  shows "mset names = mset pnames"
proof -
  have "sort ns \<noteq> []" if "ns \<noteq> []" for ns :: "string list"
    using that by (metis set_empty set_sort)
  then have "sort names = sort pnames"
    using assms by (intro join_strings_inj) (auto simp: group_set_name_def)
  then show ?thesis by (metis mset_sort)
qed

lemma index_of_nth: "distinct xs \<Longrightarrow> i < length xs \<Longrightarrow> index_of (xs ! i) xs = i"
proof (induction xs arbitrary: i)
  case (Cons x xs)
  then show ?case by (cases i) (auto simp: index_of_def)
qed simp

lemma index_of_less: "x \<in> set xs \<Longrightarrow> index_of x xs < length xs \<and> xs ! index_of x xs = x"
  by (induction xs) (auto simp: index_of_def)

text \<open>The group keys of the query are a rearrangement of those of the projection.\<close>

definition rearrange :: "string list \<Rightarrow> string list \<Rightarrow> cell list \<Rightarrow> cell list" where
  "rearrange pnames names k = map (\<lambda>n. k ! index_of n pnames) names"

lemma rearrange_project:
  "set names \<subseteq> set pnames \<Longrightarrow> rearrange pnames names (project_row bnames pnames r) = project_row bnames names r"
  by (auto simp: rearrange_def project_row_def index_of_less)

lemma project_determined:
  "set pnames \<subseteq> set names \<Longrightarrow> project_row bnames names r = project_row bnames names r' \<Longrightarrow>
     project_row bnames pnames r = project_row bnames pnames r'"
  by (auto simp: project_row_def)

lemma sint_of_nat: "n < 2 ^ 63 \<Longrightarrow> sint (of_nat n :: 64 word) = int n"
  using signed_of_int [of "int n", where 'a = int and 'b = 64] signed_take_bit_int_eq_self [of 63 "int n"]
  by simp

text \<open>
  When the projection table is what was materialized from the rows the base table still has:
  its columns are the registered ones and the count, and its rows are the counts.
\<close>

definition projection_holds ::
    "(table_ref \<Rightarrow> cell list list) \<Rightarrow> rewrite_env \<Rightarrow> stats_cache \<Rightarrow> string list \<Rightarrow> string list \<Rightarrow> table_ref \<Rightarrow> bool" where
  "projection_holds D E st bnames pnames t \<longleftrightarrow>
     (\<forall>j pt cols. RBT.lookup (projections st) (table_key t) = Some j \<longrightarrow>
        find_table E (jcatalog j) (jschema j) (jname j) = Some (pt, cols) \<longrightarrow>
        jgroup_set j = group_set_name pnames \<and> map fst cols = pnames @ [''count''] \<and>
        mset (D pt) = counted_rows bnames pnames (D t)) \<and>
     pnames \<noteq> [] \<and> set pnames \<subseteq> set bnames \<and> distinct (map lower (pnames @ [''count'']))"

definition names_ok :: "string list \<Rightarrow> bool" where
  "names_ok bnames \<longleftrightarrow> distinct bnames \<and> (\<forall>n \<in> set bnames. CHR '','' \<notin> set n)"

lemma list_all2_projection:
  assumes "distinct (map lower (pnames @ [''count'']))" "map fst cols = pnames @ [''count'']" "set names \<subseteq> set pnames"
    and "projection_scan cols names = Some ids"
  shows "ids = map (\<lambda>n. index_of n pnames) names @ [length pnames]"
proof -
  obtain js c where js: "ids = js @ [c]" "length js = length names"
    "\<forall>i < length names. js ! i < length cols \<and> lower (fst (cols ! (js ! i))) = lower (names ! i)"
    "c < length cols" "lower (fst (cols ! c)) = ''count''"
    by (rule projection_scanD [OF assms(4)])
  have len: "length cols = Suc (length pnames)" using arg_cong [OF assms(2), of length] by simp
  have low: "lower ''count'' = ''count''" by code_simp
  have at: "lower (fst (cols ! i)) = map lower (pnames @ [''count'']) ! i" if "i < length cols" for i
    using that len unfolding assms(2) [symmetric] by simp
  have inj: "i = k" if "i < length cols" "k < length cols" "lower (fst (cols ! i)) = lower (fst (cols ! k))" for i k
    using that at assms(1) len nth_eq_iff_index_eq [OF assms(1), of i k] by simp
  have "lower (fst (cols ! length pnames)) = ''count''"
    using at [of "length pnames"] len low by (simp add: nth_append del: lower_Cons)
  then have "c = length pnames" using inj [of c "length pnames"] js(4,5) len by simp
  moreover have "js = map (\<lambda>n. index_of n pnames) names"
  proof (rule nth_equalityI)
    fix i assume "i < length js"
    then have i: "i < length names" "names ! i \<in> set pnames" using js(2) assms(3) by auto
    let ?k = "index_of (names ! i) pnames"
    have k: "?k < length pnames" "pnames ! ?k = names ! i" using index_of_less [OF i(2)] by simp_all
    then have "lower (fst (cols ! ?k)) = lower (names ! i)" using at [of ?k] len by (simp add: nth_append)
    then have "js ! i = ?k" using inj [of "js ! i" ?k] js(3) i(1) k(1) len by simp
    then show "js ! i = map (\<lambda>n. index_of n pnames) names ! i" using i(1) by simp
  qed (simp add: js(2))
  ultimately show ?thesis by (simp add: js(1))
qed

text \<open>The rows of an answer from the group keys and the count of each.\<close>

definition count_answer ::
    "agg_op \<Rightarrow> expr list \<Rightarrow> string list \<Rightarrow> string list \<Rightarrow> cell list list \<Rightarrow> sqlval list multiset" where
  "count_answer a es bnames names rows =
     image_mset
       (\<lambda>k. map (out_value a k [Cell (CBigint (of_nat (length (filter (\<lambda>r. project_row bnames names r = k) rows))))]) es)
       (mset_set (project_row bnames names ` set rows))"

lemma scanned_key:
  assumes "scanned_groups g es = Some names" "distinct (gnames g)"
  shows "map (scanned (map (\<lambda>c. r ! c) (gcolumns g))) es = project_row (gnames g) names r"
proof (rule nth_equalityI)
  note sg = scanned_groupsD [OF assms(1)]
  show "length (map (scanned (map (\<lambda>c. r ! c) (gcolumns g))) es) = length (project_row (gnames g) names r)"
    using sg by (simp add: project_row_def)
  fix i assume "i < length (map (scanned (map (\<lambda>c. r ! c) (gcolumns g))) es)"
  then have i: "i < length es" by simp
  then obtain ty k where k: "es ! i = ColumnRef ty (gindex g, k)" "k < length (gcolumns g)"
    "gcolumns g ! k < length (gnames g)" "names ! i = gnames g ! (gcolumns g ! k)"
    using sg by blast
  with i sg index_of_nth [OF assms(2) k(3)]
  show "map (scanned (map (\<lambda>c. r ! c) (gcolumns g))) es ! i = project_row (gnames g) names r ! i"
    by (simp add: scanned_def project_row_def)
qed

lemma original_answer:
  assumes "scanned_groups g (agroups a) = Some names" "distinct (gnames g)" "gtable g = Some t"
    and "aexprs a = [e]" "is_count_star e"
  shows "aggregate_answer D es a g = count_answer a es (gnames g) names (D t)"
proof -
  let ?S = "\<lambda>r. map (\<lambda>c. r ! c) (gcolumns g)"
  have key: "map (scanned (?S r)) (agroups a) = project_row (gnames g) names r" for r
    by (rule scanned_key [OF assms(1,2)])
  have rows: "scan_rows D g = map ?S (D t)" by (simp add: scan_rows_def assms(3))
  have "length (filter (\<lambda>x. map (scanned x) (agroups a) = k) (map ?S (D t))) =
      length (filter (\<lambda>r. project_row (gnames g) names r = k) (D t))" for k
    by (simp add: filter_map comp_def key)
  moreover have "(\<lambda>x. map (scanned x) (agroups a)) ` set (map ?S (D t)) = project_row (gnames g) names ` set (D t)"
    by (simp add: image_image key)
  ultimately show ?thesis
    unfolding aggregate_answer_def Let_def rows count_answer_def
    by (simp only: assms(4) list.map agg_value_def assms(5) if_True)
qed

text \<open>A sum over the one row of the projection that has the key is the count.\<close>

lemma sum_of_counts:
  assumes "mset P = counted_rows bnames pnames rows" "set pnames \<subseteq> set names" "set names \<subseteq> set pnames"
    and k: "k \<in> project_row bnames names ` set rows" and bound: "length rows < 2 ^ 63"
  shows "sum_list (map (\<lambda>x. cell_int (x ! length pnames)) (filter (\<lambda>x. rearrange pnames names x = k) P)) =
    int (length (filter (\<lambda>r. project_row bnames names r = k) rows))"
proof -
  let ?KP = "project_row bnames pnames" and ?K = "project_row bnames names"
  let ?n = "\<lambda>j. length (filter (\<lambda>r. ?KP r = j) rows)"
  let ?h = "\<lambda>j. j @ [CBigint (of_nat (?n j))]"
  obtain r where r: "r \<in> set rows" "k = ?K r" using k by blast
  have idx: "n \<in> set names \<Longrightarrow> index_of n pnames < length pnames" for n
    using assms(3) index_of_less by fastforce
  have re: "rearrange pnames names (?h (?KP r')) = ?K r'" for r'
  proof -
    have "rearrange pnames names (?h (?KP r')) = rearrange pnames names (?KP r')"
      using idx by (auto simp: rearrange_def nth_append project_row_def)
    then show ?thesis by (simp add: rearrange_project [OF assms(3)])
  qed
  have same: "?K r' = ?K r \<longleftrightarrow> ?KP r' = ?KP r" for r'
    using project_determined [OF assms(2)] project_determined [OF assms(3)] by blast
  have one: "{j \<in> ?KP ` set rows. rearrange pnames names (?h j) = k} = {?KP r}"
    using r same re by auto
  have n: "?n (?KP r) < 2 ^ 63" using bound le_less_trans [OF length_filter_le] by blast
  have "sum_list (map (\<lambda>x. cell_int (x ! length pnames)) (filter (\<lambda>x. rearrange pnames names x = k) P)) =
      sum_mset (image_mset (\<lambda>x. cell_int (x ! length pnames)) (filter_mset (\<lambda>x. rearrange pnames names x = k) (mset P)))"
    by (simp add: sum_mset_sum_list [symmetric] del: sum_mset_sum_list)
  also have "\<dots> = sum_mset (image_mset (\<lambda>j. cell_int (?h j ! length pnames))
      (filter_mset (\<lambda>j. rearrange pnames names (?h j) = k) (mset_set (?KP ` set rows))))"
    unfolding assms(1) counted_rows_def by (simp add: filter_mset_image_mset image_mset.compositionality comp_def)
  also have "filter_mset (\<lambda>j. rearrange pnames names (?h j) = k) (mset_set (?KP ` set rows)) = {#?KP r#}"
    using one by (simp add: filter_mset_mset_set)
  also have "sum_mset (image_mset (\<lambda>j. cell_int (?h j ! length pnames)) {#?KP r#}) = int (?n (?KP r))"
    using sint_of_nat [OF n] by (simp add: nth_append project_row_def)
  also have "?n (?KP r) = length (filter (\<lambda>r'. ?K r' = k) rows)"
    unfolding r(2) same ..
  finally show ?thesis .
qed

text \<open>The answer of the rewritten aggregation, over the scan of the projection table.\<close>

lemma counted_keys:
  assumes "mset P = counted_rows bnames pnames rows" "set names = set pnames"
  shows "rearrange pnames names ` set P = project_row bnames names ` set rows"
proof -
  have "rearrange pnames names (k @ [c]) = rearrange pnames names k"
    if "k \<in> project_row bnames pnames ` set rows" for k c
    using that assms(2) index_of_less by (fastforce simp: rearrange_def project_row_def nth_append)
  then have "rearrange pnames names ` set_mset (counted_rows bnames pnames rows) =
      rearrange pnames names ` project_row bnames pnames ` set rows"
    by (force simp: counted_rows_def image_image)
  then show ?thesis
    using assms unfolding image_image by (simp add: rearrange_project flip: set_mset_mset)
qed

lemma rewritten_answer:
  fixes sty t0 and names :: "string list"
  defines "cnt \<equiv> Agg ''sum'' [ColumnRef TBigint (t0, length names)] False sty"
  assumes sets: "set names = set pnames" "length names = length pnames"
    and ids: "ids = map (\<lambda>n. index_of n pnames) names @ [length pnames]"
    and P: "mset (D pt) = counted_rows bnames pnames rows" and bound: "length rows < 2 ^ 63"
    and groups: "length groups = length names"
      "\<And>i. i < length groups \<Longrightarrow> \<exists>ty. groups ! i = ColumnRef ty (t0, i)"
    and g: "gtable g = Some pt" "gcolumns g = ids"
  shows "aggregate_answer D es (a\<lparr>agroups := groups, aexprs := [cnt]\<rparr>) g =
    image_mset (\<lambda>k. map (out_value (a\<lparr>agroups := groups, aexprs := [cnt]\<rparr>) k
        [Huge (int (length (filter (\<lambda>r. project_row bnames names r = k) rows)))]) es)
      (mset_set (project_row bnames names ` set rows))"
proof -
  let ?S = "\<lambda>x :: cell list. map (\<lambda>c. x ! c) ids"
  have key: "map (scanned (?S x)) groups = rearrange pnames names x" for x
  proof (rule nth_equalityI)
    show "length (map (scanned (?S x)) groups) = length (rearrange pnames names x)"
      by (simp add: groups(1) rearrange_def)
    fix i assume "i < length (map (scanned (?S x)) groups)"
    then have i: "i < length groups" by simp
    with groups(2) obtain ty where "groups ! i = ColumnRef ty (t0, i)" by blast
    with i groups(1) show "map (scanned (?S x)) groups ! i = rearrange pnames names x ! i"
      by (simp add: rearrange_def scanned_def ids nth_append)
  qed
  have keys: "(\<lambda>x. map (scanned x) groups) ` set (map ?S (D pt)) = project_row bnames names ` set rows"
    unfolding set_map image_image key by (rule counted_keys [OF P sets(1)])
  have agg: "agg_value cnt (filter (\<lambda>x. map (scanned x) groups = k) (map ?S (D pt))) =
      Huge (int (length (filter (\<lambda>r. project_row bnames names r = k) rows)))"
    if k: "k \<in> project_row bnames names ` set rows" for k
  proof -
    have "filter (\<lambda>x. map (scanned x) groups = k) (map ?S (D pt)) =
        map ?S (filter (\<lambda>x. rearrange pnames names x = k) (D pt))"
      by (simp only: filter_map comp_def key)
    then have "agg_value cnt (filter (\<lambda>x. map (scanned x) groups = k) (map ?S (D pt))) =
        Huge (sum_list (map (\<lambda>x. cell_int (x ! length pnames)) (filter (\<lambda>x. rearrange pnames names x = k) (D pt))))"
      by (simp add: cnt_def agg_value_def is_count_star_def scanned_def ids nth_append sets(2) comp_def)
    with sum_of_counts [OF P _ _ k bound] sets show ?thesis by simp
  qed
  have rows: "scan_rows D g = map ?S (D pt)" by (simp add: scan_rows_def g)
  show ?thesis
    unfolding aggregate_answer_def Let_def rows using keys agg by (auto intro!: image_mset_cong)
qed

text \<open>An output of the new plan has the value it had in the old one.\<close>

lemma recast_out:
  assumes typed: "plan_typed C (Projection pi es [Aggregate a [Get g gs]])" and "list_all is_column_ref es"
    and ce: "aexprs a = [ce]" "map return_type (aexprs a) = [TBigint]"
    and x: "x \<in> set es" and n: "n < 2 ^ 63"
  shows "out_value (a\<lparr>agroups := gs', aexprs := ae\<rparr>) k [Huge (int n)] (recast (aindex a, 0) THugeint x) =
    out_value a k [Cell (CBigint (of_nat n))] x"
proof -
  obtain ty b where b: "x = ColumnRef ty b"
    using assms(2) x by (cases x) (auto simp: list_all_iff is_column_ref_def)
  have ne: "agroup_index a \<noteq> aindex a" using typed by simp
  have "fst b = agroup_index a \<or> b = (aindex a, 0)"
    using typed x b ce(1) by (force simp: in_expr_outputs)
  moreover have "b = (aindex a, 0) \<Longrightarrow> ty = TBigint"
    using typed x b ce ne by (force simp: in_expr_outputs)
  ultimately show ?thesis using n ne by (auto simp: b recast_def add_cast_def cast_value_def)
qed

section \<open>Properties\<close>



text \<open>
  A table with columns \<open>k\<close> and \<open>v\<close>, the query \<^verbatim>\<open>SELECT k, count(*) ... GROUP BY k\<close> over it, and the
  projection \<^verbatim>\<open>raw_project\<close> registers for it.
\<close>

definition sample_base :: table_ref where
  "sample_base = \<lparr>rcatalog = ''memory'', rschema = ''main'', rname = ''t''\<rparr>"

definition sample_proj :: table_ref where
  "sample_proj = \<lparr>rcatalog = ''memory'', rschema = ''main'', rname = ''t__proj''\<rparr>"

definition sample_get :: get_op where
  "sample_get = \<lparr>gindex = 0, gtable = Some sample_base, gnames = [''k'', ''v''],
     gtypes = [TVarchar, TBigint], gcolumns = [0], gfilters = []\<rparr>"

definition sample_agg :: agg_op where
  "sample_agg = \<lparr>agroup_index = 1, aindex = 2, agroups = [ColumnRef TVarchar (0, 0)],
     aexprs = [Agg ''count_star'' [] False TBigint], asets = 1, afuncs = 0\<rparr>"

definition sample_exprs :: "expr list" where
  "sample_exprs = [ColumnRef TVarchar (1, 0), ColumnRef TBigint (2, 0)]"

definition sample_query :: plan where
  "sample_query = Projection 3 sample_exprs [Aggregate sample_agg [Get sample_get []]]"

definition sample_stats_cache :: stats_cache where
  "sample_stats_cache = empty_stats\<lparr>projections := RBT.insert (table_key sample_base)
     \<lparr>jcatalog = ''memory'', jschema = ''main'', jname = ''t__proj'', jgroup_set = ''k'', jbase_rows = 3\<rparr> RBT.empty\<rparr>"

definition sample_env :: rewrite_env where
  "sample_env = \<lparr>total_rows = (\<lambda>_. 3),
     find_table = (\<lambda>_ _ name. if name = ''t__proj'' then Some (sample_proj, [(''k'', TVarchar), (''count'', TBigint)]) else None),
     sum_type = Some THugeint\<rparr>"

definition sample_rows_of :: "cell list list \<Rightarrow> cell list list \<Rightarrow> table_ref \<Rightarrow> cell list list" where
  "sample_rows_of base proj t = (if t = sample_base then base else if t = sample_proj then proj else [])"

definition kv :: "string \<Rightarrow> 64 word \<Rightarrow> cell list" where
  "kv k v = [CText k, CBigint v]"

definition rewritten_sample :: plan where
  "rewritten_sample = Projection 3 [ColumnRef TVarchar (1, 0), Cast (ColumnRef THugeint (2, 0)) TBigint]
     [Aggregate (sample_agg\<lparr>agroups := [ColumnRef TVarchar (0, 0)],
         aexprs := [Agg ''sum'' [ColumnRef TBigint (0, 1)] False THugeint]\<rparr>)
       [Get \<lparr>gindex = 0, gtable = Some sample_proj, gnames = [''k'', ''count''], gtypes = [TVarchar, TBigint],
          gcolumns = [0, 1], gfilters = []\<rparr> []]]"

definition sample_catalog :: catalog where
  "sample_catalog t =
     (if t = sample_base then [(''k'', TVarchar), (''v'', TBigint)]
      else if t = sample_proj then [(''k'', TVarchar), (''count'', TBigint)] else [])"

lemma sample_rewrites: "try_rewrite sample_env sample_stats_cache sample_query = (True, rewritten_sample)"
  by code_simp

lemma sample_query_typed: "plan_typed sample_catalog sample_query"
  by code_simp

lemma sample_usable:
  "usable_projection sample_env sample_stats_cache t names = Some (pt, cols) \<Longrightarrow>
     table_key t = table_key sample_base \<and> pt = sample_proj \<and> cols = [(''k'', TVarchar), (''count'', TBigint)]"
  by (auto simp: usable_projection_def sample_stats_cache_def sample_env_def empty_stats_def split: if_splits)

text \<open>The sample table, with the counts materialized while it had three rows.\<close>

abbreviation sample_counts :: "cell list list" where
  "sample_counts \<equiv> [[CText ''a'', CBigint 2], [CText ''b'', CBigint 1]]"

lemma sample_counts_hold:
  "mset sample_counts = counted_rows [''k'', ''v''] [''k''] [kv ''a'' 1, kv ''b'' 2, kv ''a'' 3]"
proof -
  have "project_row [''k'', ''v''] [''k''] ` set [kv ''a'' 1, kv ''b'' 2, kv ''a'' 3] = {[CText ''a''], [CText ''b'']}"
    by (auto simp: project_row_def index_of_def kv_def)
  then show ?thesis unfolding counted_rows_def by (simp add: project_row_def index_of_def kv_def)
qed



text \<open>
  The staleness token is the physical row count, which neither an UPDATE nor a DELETE (whose
  rows stay in storage) lowers. After the deletion of one row the rewriting still happens and
  the answer is that of the time the projection was made.
\<close>

theorem deleted_rows_still_counted:
  "let D = sample_rows_of [kv ''a'' 1, kv ''b'' 2] sample_counts
   in try_rewrite sample_env sample_stats_cache sample_query = (True, rewritten_sample) \<and>
      plan_answer D sample_query = {#[Cell (CText ''a''), Cell (CBigint 1)], [Cell (CText ''b''), Cell (CBigint 1)]#} \<and>
      plan_answer D rewritten_sample = {#[Cell (CText ''a''), Cell (CBigint 2)], [Cell (CText ''b''), Cell (CBigint 1)]#}"
proof -
  let ?D = "sample_rows_of [kv ''a'' 1, kv ''b'' 2] sample_counts"
  have "sample_proj \<noteq> sample_base" by code_simp
  then have rows: "?D sample_base = [kv ''a'' 1, kv ''b'' 2]" "?D sample_proj = sample_counts"
    by (simp_all add: sample_rows_of_def)
  have "plan_answer ?D sample_query = {#[Cell (CText ''a''), Cell (CBigint 1)], [Cell (CText ''b''), Cell (CBigint 1)]#}"
    by (simp add: plan_answer_def sample_query_def aggregate_answer_def sample_exprs_def sample_agg_def
        sample_get_def scan_rows_def rows [unfolded kv_def] scanned_def agg_value_def is_count_star_def kv_def)
  moreover have "plan_answer ?D rewritten_sample =
      {#[Cell (CText ''a''), Cell (CBigint 2)], [Cell (CText ''b''), Cell (CBigint 1)]#}"
    by (simp add: plan_answer_def rewritten_sample_def aggregate_answer_def sample_exprs_def sample_agg_def
        scan_rows_def rows [unfolded kv_def] scanned_def agg_value_def is_count_star_def cast_value_def kv_def)
  ultimately show ?thesis using sample_rewrites by simp
qed

end
