(* ===== verification/Sql.thy ===== *)
theory Sql
  imports Prelude
begin

text \<open>
  The SQL text the code builds: quoted identifiers and literals and qualified names
  (\<^verbatim>\<open>raw_ingest.cpp\<close> lines 324 to 343, \<^verbatim>\<open>SQLString\<close> of \<^verbatim>\<open>raw_optimize.cpp\<close>), and a reader of
  quoted tokens and numbers as SQL reads them, against which the text is proved correct.
  \<open>write_quoted\<close> is \<^verbatim>\<open>KeywordHelper::WriteQuoted\<close>: it doubles the quotes inside and adds
  one on either side.
\<close>

section \<open>Writing\<close>

definition write_quoted :: "char \<Rightarrow> string \<Rightarrow> string" where
  "write_quoted q s = [q] @ concat (map (\<lambda>c. if c = q then [q, q] else [c]) s) @ [q]"

definition raw_quote_identifier :: "string \<Rightarrow> string" where
  "raw_quote_identifier name = write_quoted (CHR 0x22) name"

definition quote_literal :: "string \<Rightarrow> string" where
  "quote_literal value = write_quoted (CHR 0x27) value"

definition sql_string :: "string \<Rightarrow> string" where
  "sql_string value = write_quoted (CHR 0x27) value"

text \<open>What \<^verbatim>\<open>QualifiedName::Parse\<close> makes of a target; absent parts are empty.\<close>

record qualified_name =
  qcatalog :: string
  qschema :: string
  qname :: string

definition raw_qualified_target :: "qualified_name \<Rightarrow> string" where
  "raw_qualified_target qualified =
     (let result = [];
          result = (if qcatalog qualified \<noteq> [] then result @ raw_quote_identifier (qcatalog qualified) @ ''.'' else result);
          result = (if qschema qualified \<noteq> [] then result @ raw_quote_identifier (qschema qualified) @ ''.'' else result)
      in result @ raw_quote_identifier (qname qualified))"

text \<open>Whether a text occurs in another one.\<close>

fun contains_text :: "string \<Rightarrow> string \<Rightarrow> bool" where
  "contains_text needle [] = (needle = [])"
| "contains_text needle (c # s) = (take (length needle) (c # s) = needle \<or> contains_text needle s)"

text \<open>A single-quoted word of the SQL the code writes itself.\<close>

abbreviation squoted :: "string \<Rightarrow> string" where
  "squoted w \<equiv> [CHR 0x27] @ w @ [CHR 0x27]"

section \<open>Reading\<close>

fun read_body :: "char \<Rightarrow> string \<Rightarrow> (string \<times> string) option" where
  "read_body q [] = None"
| "read_body q [c] = (if c = q then Some ([], []) else None)"
| "read_body q (c # d # cs) =
     (if c \<noteq> q then map_option (\<lambda>(s, rest). (c # s, rest)) (read_body q (d # cs))
      else if d = q then map_option (\<lambda>(s, rest). (q # s, rest)) (read_body q cs)
      else Some ([], d # cs))"

definition read_quoted :: "char \<Rightarrow> string \<Rightarrow> (string \<times> string) option" where
  "read_quoted q s = (case s of [] \<Rightarrow> None | c # cs \<Rightarrow> if c = q then read_body q cs else None)"

text \<open>An expected piece of text.\<close>

definition read_exact :: "string \<Rightarrow> string \<Rightarrow> string option" where
  "read_exact w s = (if take (length w) s = w then Some (drop (length w) s) else None)"

definition is_digit :: "char \<Rightarrow> bool" where
  "is_digit c \<longleftrightarrow> 48 \<le> (of_char c :: nat) \<and> (of_char c :: nat) \<le> 57"

definition read_number :: "string \<Rightarrow> (nat \<times> string) option" where
  "read_number s =
     (let ds = takeWhile is_digit s
      in if ds = [] then None
         else Some (foldl (\<lambda>n c. n * 10 + (of_char c - 48)) 0 ds, dropWhile is_digit s))"

fun read_dotted :: "nat \<Rightarrow> string \<Rightarrow> string list option" where
  "read_dotted 0 s = None"
| "read_dotted (Suc n) s =
     (case read_quoted (CHR 0x22) s of
        None \<Rightarrow> None
      | Some (x, []) \<Rightarrow> Some [x]
      | Some (x, c # cs) \<Rightarrow> if c = CHR ''.'' then map_option ((#) x) (read_dotted n cs) else None)"

lemma read_exact_append [simp]: "read_exact w (w @ s) = Some s"
  by (simp add: read_exact_def)

lemma read_body_quoted:
  "rest = [] \<or> hd rest \<noteq> q \<Longrightarrow>
     read_body q (concat (map (\<lambda>c. if c = q then [q, q] else [c]) s) @ q # rest) = Some (s, rest)"
proof (induction s)
  case Nil
  then show ?case by (cases rest) auto
next
  case (Cons c s)
  show ?case
  proof (cases "c = q")
    case True
    with Cons show ?thesis by simp
  next
    case False
    have "\<exists>d ds. concat (map (\<lambda>c. if c = q then [q, q] else [c]) s) @ q # rest = d # ds"
      by (cases s) auto
    then obtain d ds where eq: "concat (map (\<lambda>c. if c = q then [q, q] else [c]) s) @ q # rest = d # ds"
      by blast
    with Cons False show ?thesis by simp
  qed
qed

lemma read_write_quoted:
  "rest = [] \<or> hd rest \<noteq> q \<Longrightarrow> read_quoted q (write_quoted q s @ rest) = Some (s, rest)"
  using read_body_quoted [of rest q s] by (simp add: read_quoted_def write_quoted_def)

lemma of_digit_char: "d < 10 \<Longrightarrow> (of_char (digit_char d) :: nat) = 48 + d"
  by (simp add: digit_char_def of_char_of)

lemma dec_string_digits: "\<forall>c \<in> set (dec_string n). is_digit c"
proof (induction n rule: dec_string.induct)
  case (1 n)
  then show ?case
    by (cases "n < 10") (auto simp: dec_string.simps [of n] is_digit_def of_digit_char)
qed

lemma dec_string_value: "foldl (\<lambda>n c. n * 10 + (of_char c - 48)) 0 (dec_string n) = n"
proof (induction n rule: dec_string.induct)
  case (1 n)
  then show ?case
    by (cases "n < 10") (simp_all add: dec_string.simps [of n] of_digit_char)
qed

lemma read_number_dec:
  assumes "rest = [] \<or> \<not> is_digit (hd rest)"
  shows "read_number (dec_string n @ rest) = Some (n, rest)"
proof -
  have all: "\<forall>c \<in> set (dec_string n). is_digit c" by (rule dec_string_digits)
  have stop: "takeWhile is_digit rest = []" "dropWhile is_digit rest = rest"
    using assms by (cases rest; simp)+
  have "takeWhile is_digit (dec_string n @ rest) = dec_string n"
    using all stop(1) by (simp add: takeWhile_append2)
  moreover have "dropWhile is_digit (dec_string n @ rest) = rest"
    using all stop(2) by (simp add: dropWhile_append2)
  ultimately show ?thesis by (simp add: read_number_def Let_def dec_string_value)
qed

section \<open>Properties\<close>

text \<open>
  Property C33: no name can break out of the SQL text it is put in. Whatever characters the
  parts of a target contain, quotes and dots included, reading the qualified name the code
  builds gives back exactly the parts that are not empty, and a quoted literal followed by
  other text is read back as the value and that text.
\<close>

theorem quoted_text_round_trip:
  "read_dotted 3 (raw_qualified_target N) =
     Some (filter (\<lambda>x. x \<noteq> []) [qcatalog N, qschema N] @ [qname N]) \<and>
   read_quoted (CHR 0x27) (quote_literal v @ '')'' @ rest) = Some (v, '')'' @ rest)"
proof
  have id: "read_quoted (CHR 0x22) (raw_quote_identifier x @ CHR ''.'' # s) = Some (x, CHR ''.'' # s)"
    "read_quoted (CHR 0x22) (raw_quote_identifier x) = Some (x, [])" for x s
    using read_write_quoted [of "CHR ''.'' # s" "CHR 0x22" x] read_write_quoted [of "[]" "CHR 0x22" x]
    by (simp_all add: raw_quote_identifier_def)
  show "read_dotted 3 (raw_qualified_target N) =
      Some (filter (\<lambda>x. x \<noteq> []) [qcatalog N, qschema N] @ [qname N])"
    by (simp add: raw_qualified_target_def Let_def id numeral_3_eq_3)
  show "read_quoted (CHR 0x27) (quote_literal v @ '')'' @ rest) = Some (v, '')'' @ rest)"
    by (simp add: quote_literal_def read_write_quoted del: append_Cons)
qed

end
