(* ===== verification/Optimize.thy ===== *)
theory Optimize
  imports Plans_Spec Sql
begin

text \<open>
  The table functions over the statistics (\<^verbatim>\<open>raw_optimize.cpp\<close>, lines 402 to 894):
  \<^verbatim>\<open>raw_stats\<close>, \<^verbatim>\<open>raw_optimize\<close>, \<^verbatim>\<open>raw_projections\<close>, \<^verbatim>\<open>raw_project\<close> and saving and loading
  the statistics. The SQL the code runs is built as the code builds it; what running it does to
  a table is stated on an explicit store below.
\<close>

section \<open>Listings\<close>

definition raw_stats :: "stats_cache \<Rightarrow> (string \<times> string \<times> nat \<times> nat) list" where
  "raw_stats st =
     concat (map (\<lambda>(table, cols). map (\<lambda>(column, u). (table, column, ufilters u, ugroups u)) (RBT.entries cols))
       (RBT.entries (usage st)))"

definition raw_projections :: "stats_cache \<Rightarrow> (string \<times> string \<times> nat \<times> string) list" where
  "raw_projections st =
     concat (map (\<lambda>(table, sets). map (\<lambda>(group_set, n).
         (table, group_set, n,
          (case RBT.lookup (projections st) table of
             None \<Rightarrow> []
           | Some j \<Rightarrow> if jgroup_set j = group_set then jname j else [])))
         (RBT.entries sets))
       (RBT.entries (group_sets st)))"

text \<open>
  A listing is handed out in chunks: each call copies entries from where the last one stopped,
  at most \<^verbatim>\<open>STANDARD_VECTOR_SIZE\<close> of them. An empty chunk ends the scan.
\<close>

definition STANDARD_VECTOR_SIZE :: nat where "STANDARD_VECTOR_SIZE = 2048"

function emit_rows :: "'a list \<Rightarrow> nat \<Rightarrow> nat \<Rightarrow> 'a list \<Rightarrow> 'a list \<times> nat" where
  "emit_rows entries i n out =
     (if i < length entries \<and> n < STANDARD_VECTOR_SIZE
      then emit_rows entries (Suc i) (Suc n) (out @ [entries ! i])
      else (out, i))"
  by pat_completeness auto
termination by (relation "measure (\<lambda>(entries, i, n, out). length entries - i)") auto

declare emit_rows.simps [simp del]

definition emit_chunk :: "'a list \<Rightarrow> nat \<Rightarrow> 'a list \<times> nat" where
  "emit_chunk entries i = emit_rows entries i 0 []"

lemma emit_rows_eq:
  "n \<le> STANDARD_VECTOR_SIZE \<Longrightarrow> i \<le> length entries \<Longrightarrow>
     emit_rows entries i n out =
       (out @ take (STANDARD_VECTOR_SIZE - n) (drop i entries),
        min (length entries) (i + (STANDARD_VECTOR_SIZE - n)))"
proof (induction entries i n out rule: emit_rows.induct)
  case (1 entries i n out)
  show ?case
  proof (cases "i < length entries \<and> n < STANDARD_VECTOR_SIZE")
    case True
    then have "drop i entries = entries ! i # drop (Suc i) entries" by (simp add: Cons_nth_drop_Suc)
    moreover obtain k where k: "STANDARD_VECTOR_SIZE - n = Suc k" "STANDARD_VECTOR_SIZE - Suc n = k"
      using True by (metis Suc_diff_Suc)
    ultimately show ?thesis using 1(1) [OF True] True by (subst emit_rows.simps) (simp add: k)
  next
    case False
    with 1(2,3) show ?thesis by (subst emit_rows.simps) (auto simp: min_def)
  qed
qed

text \<open>The chunks of a scan put together are the listing.\<close>

fun scan_chunks :: "nat \<Rightarrow> 'a list \<Rightarrow> nat \<Rightarrow> 'a list" where
  "scan_chunks 0 entries i = []"
| "scan_chunks (Suc fuel) entries i =
     (case emit_chunk entries i of (chunk, j) \<Rightarrow> if chunk = [] then [] else chunk @ scan_chunks fuel entries j)"

lemma scan_chunks_all:
  "i \<le> length entries \<Longrightarrow> length entries - i < fuel \<Longrightarrow> scan_chunks fuel entries i = drop i entries"
proof (induction fuel arbitrary: i)
  case (Suc fuel)
  let ?n = STANDARD_VECTOR_SIZE
  have e: "emit_chunk entries i = (take ?n (drop i entries), min (length entries) (i + ?n))"
    using Suc.prems by (simp add: emit_chunk_def emit_rows_eq)
  have n: "?n > 0" by (simp add: STANDARD_VECTOR_SIZE_def)
  show ?case
  proof (cases "i = length entries")
    case False
    then have "scan_chunks fuel entries (min (length entries) (i + ?n)) = drop (min (length entries) (i + ?n)) entries"
      using Suc.prems n by (intro Suc.IH) (auto simp: min_def)
    also have "\<dots> = drop ?n (drop i entries)" by (auto simp: min_def add.commute)
    finally have "scan_chunks fuel entries (min (length entries) (i + ?n)) = drop ?n (drop i entries)" .
    then have "scan_chunks (Suc fuel) entries i = take ?n (drop i entries) @ drop ?n (drop i entries)"
      using False Suc.prems n e by simp
    then show ?thesis by (simp only: append_take_drop_id)
  next
    case True
    with e show ?thesis by simp
  qed
qed simp

section \<open>raw_optimize\<close>

text \<open>Columns by weight, heaviest first; equal weights stay in name order.\<close>

definition ranked_columns :: "stats_cache \<Rightarrow> string \<Rightarrow> (string \<times> nat) list" where
  "ranked_columns st key =
     (case RBT.lookup (usage st) key of
        None \<Rightarrow> []
      | Some cols \<Rightarrow>
          sort_key (\<lambda>p. - int (snd p))
            (map (\<lambda>(column, u). (column, 2 * ufilters u + ugroups u)) (RBT.entries cols)))"

fun order_by_text :: "nat \<Rightarrow> (string \<times> nat) list \<Rightarrow> string" where
  "order_by_text i [] = []"
| "order_by_text i (c # cs) =
     (if i \<ge> 2 then [] else (if i > 0 then '', '' else []) @ raw_quote_identifier (fst c) @ order_by_text (Suc i) cs)"

datatype optimize_mode = Noop | Incremental | Full

text \<open>The mode from the remembered row count, the current one and the end of the row ids.\<close>

definition last_optimized :: "stats_cache \<Rightarrow> string \<Rightarrow> string \<Rightarrow> nat" where
  "last_optimized st key order_by =
     (case RBT.lookup (optimized st) key of
        None \<Rightarrow> 0
      | Some prev \<Rightarrow> if oorder_by prev = order_by then orow_count prev else 0)"

definition choose_mode :: "nat \<Rightarrow> nat \<Rightarrow> nat \<Rightarrow> optimize_mode" where
  "choose_mode last_count current_count rowid_end =
     (let append_only = (current_count = rowid_end) in
      if last_count > 0 \<and> append_only \<and> current_count = last_count then Noop
      else if last_count > 0 \<and> append_only \<and> current_count > last_count then Incremental
      else Full)"

text \<open>The statements of a rewrite, and their text.\<close>

datatype optimize_stmt =
    CreateTail nat | DeleteTail nat | InsertTail | DropTail
  | CreateSorted | DropTable | RenameSorted

definition tmp_qualified :: "table_ref \<Rightarrow> string" where
  "tmp_qualified t =
     raw_quote_identifier (rcatalog t) @ ''.'' @ raw_quote_identifier (rschema t) @ ''.'' @
       raw_quote_identifier ''__rawduck_optimize_tmp''"

fun optimize_sql :: "table_ref \<Rightarrow> string \<Rightarrow> string \<Rightarrow> optimize_stmt \<Rightarrow> string" where
  "optimize_sql t qualified order_by (CreateTail n) =
     ''CREATE TEMPORARY TABLE __rawduck_optimize_tail AS SELECT * FROM '' @ qualified @
       '' WHERE rowid >= '' @ dec_string n"
| "optimize_sql t qualified order_by (DeleteTail n) =
     ''DELETE FROM '' @ qualified @ '' WHERE rowid >= '' @ dec_string n"
| "optimize_sql t qualified order_by InsertTail =
     ''INSERT INTO '' @ qualified @ '' SELECT * FROM __rawduck_optimize_tail ORDER BY '' @ order_by"
| "optimize_sql t qualified order_by DropTail = ''DROP TABLE __rawduck_optimize_tail''"
| "optimize_sql t qualified order_by CreateSorted =
     ''CREATE TABLE '' @ tmp_qualified t @ '' AS SELECT * FROM '' @ qualified @ '' ORDER BY '' @ order_by"
| "optimize_sql t qualified order_by DropTable = ''DROP TABLE '' @ qualified"
| "optimize_sql t qualified order_by RenameSorted =
     ''ALTER TABLE '' @ tmp_qualified t @ '' RENAME TO '' @ raw_quote_identifier (rname t)"

fun mode_statements :: "optimize_mode \<Rightarrow> nat \<Rightarrow> optimize_stmt list" where
  "mode_statements Noop last_count = []"
| "mode_statements Incremental last_count = [CreateTail last_count, DeleteTail last_count, InsertTail, DropTail]"
| "mode_statements Full last_count = [CreateSorted, DropTable, RenameSorted]"

text \<open>
  What the statements do: a table is its rows with their row ids in scan order and the next
  row id, with the temporary table beside it. \<open>sort_rows\<close> is DuckDB's ORDER BY. A statement
  may also fail for reasons of its own; \<open>fails\<close> says which.
\<close>

record 'r opt_store =
  stable :: "(nat \<times> 'r) list option"
  snext :: nat
  stail :: "'r list option"
  stmp :: "(nat \<times> 'r) list option"

fun run_statement ::
    "('r list \<Rightarrow> 'r list) \<Rightarrow> optimize_stmt \<Rightarrow> 'r opt_store \<Rightarrow> (nat \<times> 'r opt_store) option" where
  "run_statement srt (CreateTail n) s =
     (case (stable s, stail s) of
        (Some rs, None) \<Rightarrow>
          (let tail = map snd (filter (\<lambda>r. fst r \<ge> n) rs) in Some (length tail, s\<lparr>stail := Some tail\<rparr>))
      | _ \<Rightarrow> None)"
| "run_statement srt (DeleteTail n) s =
     (case stable s of
        Some rs \<Rightarrow> Some (length (filter (\<lambda>r. fst r \<ge> n) rs), s\<lparr>stable := Some (filter (\<lambda>r. fst r < n) rs)\<rparr>)
      | None \<Rightarrow> None)"
| "run_statement srt InsertTail s =
     (case (stable s, stail s) of
        (Some rs, Some tail) \<Rightarrow>
          Some (length tail, s\<lparr>stable := Some (rs @ enumerate (snext s) (srt tail)), snext := snext s + length tail\<rparr>)
      | _ \<Rightarrow> None)"
| "run_statement srt DropTail s = (case stail s of None \<Rightarrow> None | Some tail \<Rightarrow> Some (0, s\<lparr>stail := None\<rparr>))"
| "run_statement srt CreateSorted s =
     (case (stable s, stmp s) of
        (Some rs, None) \<Rightarrow> Some (length rs, s\<lparr>stmp := Some (enumerate 0 (srt (map snd rs)))\<rparr>)
      | _ \<Rightarrow> None)"
| "run_statement srt DropTable s = (case stable s of None \<Rightarrow> None | Some rs \<Rightarrow> Some (0, s\<lparr>stable := None\<rparr>))"
| "run_statement srt RenameSorted s =
     (case (stable s, stmp s) of
        (None, Some rs) \<Rightarrow> Some (0, s\<lparr>stable := Some rs, stmp := None, snext := length rs\<rparr>)
      | _ \<Rightarrow> None)"

text \<open>
  The statements in order, with the row count of the creating or inserting one; any failure,
  of a statement or of COMMIT, rolls everything back and is thrown again.
\<close>

fun counts_rows :: "optimize_stmt \<Rightarrow> bool" where
  "counts_rows InsertTail = True"
| "counts_rows CreateSorted = True"
| "counts_rows _ = False"

fun run_statements ::
    "('r list \<Rightarrow> 'r list) \<Rightarrow> (optimize_stmt \<Rightarrow> bool) \<Rightarrow> optimize_stmt list \<Rightarrow> nat \<Rightarrow> 'r opt_store \<Rightarrow>
       (nat \<times> 'r opt_store) option" where
  "run_statements srt fails [] rows s = Some (rows, s)"
| "run_statements srt fails (x # xs) rows s =
     (if fails x then None
      else case run_statement srt x s of
          None \<Rightarrow> None
        | Some (n, s) \<Rightarrow> run_statements srt fails xs (if counts_rows x then n else rows) s)"

definition run_rewrite ::
    "('r list \<Rightarrow> 'r list) \<Rightarrow> (optimize_stmt \<Rightarrow> bool) \<Rightarrow> bool \<Rightarrow> optimize_mode \<Rightarrow> nat \<Rightarrow> 'r opt_store \<Rightarrow>
       nat result \<times> 'r opt_store" where
  "run_rewrite srt fails commit_fails mode last_count s =
     (if mode = Noop then (Inr 0, s)
      else case run_statements srt fails (mode_statements mode last_count) 0 s of
          None \<Rightarrow> (Inl (TransactionError ''RawDuck: ''), s)
        | Some (rows, s') \<Rightarrow>
            if commit_fails then (Inl (TransactionError ''RawDuck: ''), s) else (Inr rows, s'))"

text \<open>\<^verbatim>\<open>count(*)\<close> and \<^verbatim>\<open>coalesce(max(rowid) + 1, 0)\<close>.\<close>

definition table_shape :: "'r opt_store \<Rightarrow> nat \<times> nat" where
  "table_shape s =
     (case stable s of
        None \<Rightarrow> (0, 0)
      | Some rs \<Rightarrow> (length rs, if rs = [] then 0 else Suc (Max (set (map fst rs)))))"

record optimize_answer =
  aorder_by :: "string option"
  arows :: nat
  amode :: string

fun mode_name :: "optimize_mode \<Rightarrow> string" where
  "mode_name Noop = ''noop''"
| "mode_name Incremental = ''incremental''"
| "mode_name Full = ''full''"

definition raw_optimize ::
    "('r list \<Rightarrow> 'r list) \<Rightarrow> (optimize_stmt \<Rightarrow> bool) \<Rightarrow> bool \<Rightarrow> table_ref \<Rightarrow> stats_cache \<Rightarrow> 'r opt_store \<Rightarrow>
       optimize_answer result \<times> stats_cache \<times> 'r opt_store" where
  "raw_optimize srt fails commit_fails t st s =
     (let ranked = ranked_columns st (table_key t) in
      if ranked = [] then (Inr \<lparr>aorder_by = None, arows = 0, amode = ''noop''\<rparr>, st, s)
      else
        (let order_by = order_by_text 0 ranked;
             last_count = last_optimized st (table_key t) order_by;
             (current_count, rowid_end) = table_shape s;
             mode = choose_mode last_count current_count rowid_end
         in case run_rewrite srt fails commit_fails mode last_count s of
             (Inl e, s) \<Rightarrow> (Inl e, st, s)
           | (Inr rows, s) \<Rightarrow>
               (Inr \<lparr>aorder_by = Some order_by, arows = rows, amode = mode_name mode\<rparr>,
                st\<lparr>optimized := RBT.insert (table_key t) \<lparr>oorder_by = order_by, orow_count = current_count\<rparr>
                     (optimized st)\<rparr>, s)))"

section \<open>raw_project\<close>

text \<open>The group set observed most often, the first in name order among equals.\<close>

fun hottest :: "(string \<times> nat) list \<Rightarrow> string \<times> nat \<Rightarrow> string \<times> nat" where
  "hottest [] best = best"
| "hottest (c # cs) best = hottest cs (if snd c > snd best then c else best)"

definition hottest_group_set :: "stats_cache \<Rightarrow> string \<Rightarrow> string" where
  "hottest_group_set st key =
     (case RBT.lookup (group_sets st) key of
        None \<Rightarrow> []
      | Some sets \<Rightarrow> fst (hottest (RBT.entries sets) ([], 0)))"

fun select_list :: "string list \<Rightarrow> string \<Rightarrow> string" where
  "select_list [] acc = acc"
| "select_list (c # cs) acc = select_list cs (acc @ (if acc = [] then [] else '', '') @ raw_quote_identifier c)"

definition project_sql :: "table_ref \<Rightarrow> string \<Rightarrow> string list \<Rightarrow> string" where
  "project_sql t qualified columns =
     ''CREATE OR REPLACE TABLE '' @ raw_quote_identifier (rcatalog t) @ ''.'' @
       raw_quote_identifier (rschema t) @ ''.'' @ raw_quote_identifier (rname t @ ''__proj'') @
       '' AS SELECT '' @ select_list columns [] @ '', count(*) AS count FROM '' @ qualified @ '' GROUP BY ALL''"

text \<open>
  \<open>split\<close> is \<^verbatim>\<open>StringUtil::Split\<close>, \<open>query\<close> the error of running a statement, if any. The answer
  is the projection's name, its group set and its row count, or nothing when there is no
  observation yet.
\<close>

definition raw_project ::
    "(string \<Rightarrow> string \<Rightarrow> string list) \<Rightarrow> (string \<Rightarrow> raw_error option) \<Rightarrow> nat \<Rightarrow> rewrite_env \<Rightarrow>
       table_ref \<Rightarrow> string \<Rightarrow> stats_cache \<Rightarrow> (string \<times> string \<times> nat) option result \<times> stats_cache" where
  "raw_project split query rows E t qualified st =
     (let group_set = hottest_group_set st (table_key t) in
      if group_set = [] then (Inr None, st)
      else case query (project_sql t qualified (split group_set '', '')) of
          Some e \<Rightarrow> (Inl e, st)
        | None \<Rightarrow>
            (Inr (Some (rname t @ ''__proj'', group_set, rows)),
             st\<lparr>projections := RBT.insert (table_key t)
                 \<lparr>jcatalog = rcatalog t, jschema = rschema t, jname = rname t @ ''__proj'',
                  jgroup_set = group_set, jbase_rows = total_rows E t\<rparr> (projections st)\<rparr>))"

section \<open>Saving and loading\<close>

text \<open>A row of \<^verbatim>\<open>__rawduck_stats\<close>: kind, table, item, filters, groups.\<close>

type_synonym stats_row = "string \<times> string \<times> string \<times> nat \<times> nat"

definition stats_rows :: "stats_cache \<Rightarrow> stats_row list" where
  "stats_rows st =
     concat (map (\<lambda>(table, cols). map (\<lambda>(column, u). (''column'', table, column, ufilters u, ugroups u))
         (RBT.entries cols)) (RBT.entries (usage st))) @
     concat (map (\<lambda>(table, sets). map (\<lambda>(group_set, n). (''group_set'', table, group_set, n, 0))
         (RBT.entries sets)) (RBT.entries (group_sets st)))"

fun row_text :: "stats_row \<Rightarrow> string" where
  "row_text (kind, table, item, f, g) =
     ''('' @ squoted kind @ '', '' @ sql_string table @ '', '' @ sql_string item @ '', '' @
       dec_string f @ '', '' @ dec_string g @ '')''"

text \<open>The statements \<^verbatim>\<open>raw_stats_save\<close> runs, given the quoted name of the database.\<close>

definition stats_table :: "string \<Rightarrow> string" where
  "stats_table name = raw_quote_identifier name @ ''.main.__rawduck_stats''"

definition save_statements :: "string \<Rightarrow> stats_cache \<Rightarrow> string list" where
  "save_statements name st =
     (let rows = map row_text (stats_rows st) in
      (''CREATE OR REPLACE TABLE '' @ stats_table name @
         '' (kind VARCHAR, tbl VARCHAR, item VARCHAR, filters BIGINT, groups BIGINT)'') #
      (if rows = [] then []
       else [''INSERT INTO '' @ stats_table name @ '' VALUES '' @ join_strings '', '' rows]))"

fun load_row :: "stats_row \<Rightarrow> stats_cache \<Rightarrow> stats_cache" where
  "load_row (kind, table, item, f, g) st =
     (if kind = ''column'' then add_usage f g table item st
      else if kind = ''group_set'' then add_group_set f table item st
      else st)"

definition load_rows :: "stats_row list \<Rightarrow> stats_cache \<Rightarrow> stats_cache" where
  "load_rows rows st = fold load_row rows st"

text \<open>Reading a VALUES list as SQL does.\<close>

definition read_row :: "string \<Rightarrow> (stats_row \<times> string) option" where
  "read_row s =
     Option.bind (read_exact ''('' s) (\<lambda>s.
     Option.bind (read_quoted (CHR 0x27) s) (\<lambda>(kind, s).
     Option.bind (read_exact '', '' s) (\<lambda>s.
     Option.bind (read_quoted (CHR 0x27) s) (\<lambda>(table, s).
     Option.bind (read_exact '', '' s) (\<lambda>s.
     Option.bind (read_quoted (CHR 0x27) s) (\<lambda>(item, s).
     Option.bind (read_exact '', '' s) (\<lambda>s.
     Option.bind (read_number s) (\<lambda>(f, s).
     Option.bind (read_exact '', '' s) (\<lambda>s.
     Option.bind (read_number s) (\<lambda>(g, s).
     Option.bind (read_exact '')'' s) (\<lambda>s.
       Some ((kind, table, item, f, g), s))))))))))))"

fun read_rows :: "nat \<Rightarrow> string \<Rightarrow> stats_row list option" where
  "read_rows 0 s = None"
| "read_rows (Suc n) s =
     (case read_row s of
        None \<Rightarrow> None
      | Some (r, []) \<Rightarrow> Some [r]
      | Some (r, c # cs) \<Rightarrow>
          Option.bind (read_exact '', '' (c # cs)) (\<lambda>s. map_option ((#) r) (read_rows n s)))"

section \<open>Lemmas on the rewrite\<close>

definition order_ok :: "('r \<Rightarrow> 'r \<Rightarrow> bool) \<Rightarrow> ('r list \<Rightarrow> 'r list) \<Rightarrow> bool" where
  "order_ok le srt \<longleftrightarrow> (\<forall>xs. mset (srt xs) = mset xs \<and> sorted_wrt le (srt xs))"

definition store_ok :: "'r opt_store \<Rightarrow> bool" where
  "store_ok s \<longleftrightarrow> stail s = None \<and> stmp s = None \<and>
     (\<forall>rs. stable s = Some rs \<longrightarrow> sorted_wrt (<) (map fst rs) \<and> (\<forall>r \<in> set rs. fst r < snext s))"

lemma order_ok_length: "order_ok le srt \<Longrightarrow> length (srt xs) = length xs"
  by (metis order_ok_def size_mset)

lemma map_enumerate: "map fst (enumerate n xs) = [n ..< n + length xs]" "map snd (enumerate n xs) = xs"
  by (simp_all add: enumerate_eq_zip)

lemma dense_ids:
  fixes ids :: "nat list"
  assumes "sorted_wrt (<) ids" "ids \<noteq> []" "Suc (Max (set ids)) = length ids"
  shows "ids = [0 ..< length ids]"
proof (rule sorted_distinct_set_unique)
  have d: "distinct ids" using assms(1) by (simp add: strict_sorted_iff)
  have "x < length ids" if "x \<in> set ids" for x
    using Max_ge [OF _ that] assms(3) by simp
  then have "set ids \<subseteq> {0 ..< length ids}" by auto
  moreover have "card (set ids) = card {0 ..< length ids}" using d by (simp add: distinct_card)
  ultimately show "set ids = set [0 ..< length ids]" by (simp add: card_subset_eq)
  show "sorted ids" "distinct ids" using assms(1) by (simp_all add: strict_sorted_iff)
qed simp_all

lemma filter_dense:
  "map fst rs = [0 ..< length rs] \<Longrightarrow>
     filter (\<lambda>r. fst r < k) rs = take k rs \<and> filter (\<lambda>r. fst r \<ge> k) rs = drop k rs"
proof (induction rs rule: rev_induct)
  case (snoc r rs)
  then have "map fst rs = [0 ..< length rs]" "fst r = length rs" by simp_all
  with snoc.IH show ?case by auto
qed simp

lemma full_rewrite:
  assumes "store_ok s" "stable s = Some rs" "order_ok le srt" "run_rewrite srt fails cf Full k s = (Inr n, s')"
  shows "\<exists>rs'. stable s' = Some rs' \<and> mset (map snd rs') = mset (map snd rs) \<and> sorted_wrt le (map snd rs') \<and>
    store_ok s' \<and> n = length rs"
proof -
  let ?rs = "enumerate 0 (srt (map snd rs))"
  have s': "stable s' = Some ?rs" "stail s' = None" "stmp s' = None" "snext s' = length ?rs" "n = length rs"
    using assms by (auto simp: run_rewrite_def store_ok_def split: if_splits option.splits)
  have "sorted_wrt (<) (map fst ?rs)" "\<forall>r \<in> set ?rs. fst r < length ?rs"
    by (auto simp: map_enumerate in_set_enumerate_eq)
  moreover have "mset (map snd ?rs) = mset (map snd rs)" "sorted_wrt le (map snd ?rs)"
    unfolding map_enumerate using assms(3) by (simp_all only: order_ok_def)
  ultimately show ?thesis using s' by (intro exI [of _ ?rs]) (simp add: store_ok_def del: mset_map)
qed

lemma incremental_rewrite:
  assumes ok: "store_ok s" and rs: "stable s = Some rs" and ord: "order_ok le srt"
    and run: "run_rewrite srt fails cf Incremental k s = (Inr n, s')"
    and dense: "map fst rs = [0 ..< length rs]" "k \<le> length rs"
  shows "\<exists>rs'. stable s' = Some rs' \<and> mset (map snd rs') = mset (map snd rs) \<and> take k rs' = take k rs \<and>
    sorted_wrt le (map snd (drop k rs')) \<and> store_ok s' \<and> n = length rs - k"
proof -
  note fd = filter_dense [OF dense(1), of k]
  let ?tail = "enumerate (snext s) (srt (map snd (drop k rs)))"
  let ?rs = "take k rs @ ?tail"
  have len: "length ?tail = length rs - k" using order_ok_length [OF ord] by simp
  have s': "stable s' = Some ?rs" "stail s' = None" "stmp s' = None" "snext s' = snext s + (length rs - k)"
    "n = length rs - k"
    using ok rs run fd by (auto simp: run_rewrite_def store_ok_def Let_def split: if_splits option.splits)
  have lt: "\<forall>r \<in> set rs. fst r < snext s" and asc: "sorted_wrt (<) (map fst rs)"
    using ok rs by (simp_all add: store_ok_def)
  have "map fst ?rs = take k (map fst rs) @ [snext s ..< snext s + (length rs - k)]"
    using len by (simp add: map_enumerate take_map)
  moreover have "x < snext s" if "x \<in> set (take k (map fst rs))" for x
    using lt in_set_takeD [OF that] by auto
  ultimately have "sorted_wrt (<) (map fst ?rs)"
    using sorted_wrt_take [OF asc, of k] by (fastforce simp: sorted_wrt_append)
  moreover have "fst r < snext s + (length rs - k)" if r: "r \<in> set ?rs" for r
  proof (cases "r \<in> set (take k rs)")
    case True
    then show ?thesis using lt by (fastforce dest: in_set_takeD)
  next
    case False
    then show ?thesis using r len by (auto simp: in_set_enumerate_eq)
  qed
  ultimately have ok': "store_ok s'" using s' by (simp add: store_ok_def)
  have "mset (map snd ?rs) = mset (map snd (take k rs)) + mset (map snd (drop k rs))"
    using ord by (simp add: map_enumerate order_ok_def)
  also have "\<dots> = mset (map snd rs)" by (metis append_take_drop_id map_append mset_append)
  finally have m: "mset (map snd ?rs) = mset (map snd rs)" .
  have "map snd (drop k ?rs) = srt (map snd (drop k rs))"
    using dense(2) by (simp add: map_enumerate)
  then have "sorted_wrt le (map snd (drop k ?rs))" using ord by (simp add: order_ok_def)
  moreover have "take k ?rs = take k rs" using dense(2) by simp
  ultimately show ?thesis using s'(1,5) ok' m by blast
qed

section \<open>Properties\<close>

text \<open>
  Property C28: \<^verbatim>\<open>raw_optimize\<close> never loses, adds or changes a row. When it fails, at whatever
  statement or at the commit, the table and the statistics are as before. When it succeeds the
  table has the same rows: all sorted after a full rewrite; the rows of the last optimize in
  place and the newer ones sorted behind them after an incremental one; untouched otherwise.
\<close>

theorem optimize_keeps_rows:
  assumes ok: "store_ok s" and rs: "stable s = Some rs" and ord: "order_ok le srt"
    and run: "raw_optimize srt fails cf t st s = (r, st', s')"
  shows "case r of
      Inl e \<Rightarrow> s' = s \<and> st' = st
    | Inr a \<Rightarrow> \<exists>rs'. stable s' = Some rs' \<and> mset (map snd rs') = mset (map snd rs) \<and> store_ok s' \<and>
        (amode a = ''full'' \<and> arows a = length rs \<and> sorted_wrt le (map snd rs') \<or>
         amode a = ''incremental'' \<and>
           (\<exists>k > 0. k + arows a = length rs \<and> take k rs' = take k rs \<and> sorted_wrt le (map snd (drop k rs'))) \<or>
         amode a = ''noop'' \<and> arows a = 0 \<and> rs' = rs)"
proof (cases "ranked_columns st (table_key t) = []")
  case True
  with run ok rs show ?thesis by (auto simp: raw_optimize_def)
next
  case False
  define order_by where "order_by = order_by_text 0 (ranked_columns st (table_key t))"
  define k where "k = last_optimized st (table_key t) order_by"
  define mode where "mode = choose_mode k (fst (table_shape s)) (snd (table_shape s))"
  obtain q s1 where q: "run_rewrite srt fails cf mode k s = (q, s1)" by fastforce
  have r: "(r, st', s') = (case q of Inl e \<Rightarrow> (Inl e, st, s1)
      | Inr rows \<Rightarrow> (Inr \<lparr>aorder_by = Some order_by, arows = rows, amode = mode_name mode\<rparr>,
          st\<lparr>optimized := RBT.insert (table_key t)
            \<lparr>oorder_by = order_by, orow_count = fst (table_shape s)\<rparr> (optimized st)\<rparr>, s1))"
    using run q False unfolding raw_optimize_def Let_def order_by_def k_def mode_def
    by (simp add: case_prod_unfold split: sum.splits)
  show ?thesis
  proof (cases q)
    case (Inl e)
    then have "s1 = s" using q by (auto simp: run_rewrite_def split: if_splits option.splits prod.splits)
    with Inl r show ?thesis by simp
  next
    case (Inr n)
    have s': "s' = s1" and a: "r = Inr \<lparr>aorder_by = Some order_by, arows = n, amode = mode_name mode\<rparr>"
      using Inr r by simp_all
    show ?thesis
    proof (cases mode)
      case Noop
      with q Inr ok rs s' a show ?thesis by (simp add: run_rewrite_def)
    next
      case Incremental
      then have m: "k > 0" "k < length rs" "rs \<noteq> []" "Suc (Max (set (map fst rs))) = length rs"
        using rs by (auto simp: mode_def choose_mode_def table_shape_def Let_def split: if_splits)
      have "map fst rs = [0 ..< length rs]"
        using dense_ids [of "map fst rs"] ok rs m by (simp add: store_ok_def)
      with incremental_rewrite [OF ok rs ord q [unfolded Inr Incremental]] m Incremental s' a show ?thesis
        by fastforce
    next
      case Full
      with full_rewrite [OF ok rs ord q [unfolded Inr Full]] s' a show ?thesis by auto
    qed
  qed
qed

section \<open>Round trip\<close>

text \<open>The recorded counts of a column and of a group set; an absent entry counts as zero.\<close>

definition usage_of :: "stats_cache \<Rightarrow> string \<Rightarrow> string \<Rightarrow> nat \<times> nat" where
  "usage_of st key column =
     (case RBT.lookup (usage st) key of
        None \<Rightarrow> (0, 0)
      | Some cols \<Rightarrow> (case RBT.lookup cols column of None \<Rightarrow> (0, 0) | Some u \<Rightarrow> (ufilters u, ugroups u)))"

definition groups_of :: "stats_cache \<Rightarrow> string \<Rightarrow> string \<Rightarrow> nat" where
  "groups_of st key group_set =
     (case RBT.lookup (group_sets st) key of
        None \<Rightarrow> 0
      | Some sets \<Rightarrow> (case RBT.lookup sets group_set of None \<Rightarrow> 0 | Some n \<Rightarrow> n))"

fun pair_plus :: "nat \<times> nat \<Rightarrow> nat \<times> nat \<Rightarrow> nat \<times> nat" where
  "pair_plus (a, b) (c, d) = (a + c, b + d)"

lemma add_usage_of:
  "usage_of (add_usage f g key column st) k c =
     (if k = key \<and> c = column then pair_plus (usage_of st k c) (f, g) else usage_of st k c)"
  "groups_of (add_usage f g key column st) k c = groups_of st k c"
  by (auto simp: usage_of_def groups_of_def add_usage_def no_usage_def split: option.splits)

lemma add_group_set_of:
  "usage_of (add_group_set n key group_set st) k c = usage_of st k c"
  "groups_of (add_group_set n key group_set st) k s =
     (if k = key \<and> s = group_set then groups_of st k s + n else groups_of st k s)"
  by (auto simp: usage_of_def groups_of_def add_group_set_def split: option.splits)

definition row_is :: "string \<Rightarrow> string \<Rightarrow> string \<Rightarrow> stats_row \<Rightarrow> bool" where
  "row_is kind table item r \<longleftrightarrow> fst r = kind \<and> fst (snd r) = table \<and> fst (snd (snd r)) = item"

lemma load_rows_usage:
  "usage_of (load_rows rows st) k c =
     fold (\<lambda>r acc. pair_plus acc (snd (snd (snd r)))) (filter (row_is ''column'' k c) rows) (usage_of st k c)"
  unfolding load_rows_def
  by (induction rows arbitrary: st) (auto simp: row_is_def add_usage_of add_group_set_of)

lemma load_rows_groups:
  "groups_of (load_rows rows st) k c =
     fold (\<lambda>r acc. acc + fst (snd (snd (snd r)))) (filter (row_is ''group_set'' k c) rows) (groups_of st k c)"
  unfolding load_rows_def
  by (induction rows arbitrary: st) (auto simp: row_is_def add_usage_of add_group_set_of)

lemma saved_usage_row:
  "filter (row_is ''column'' k c) (stats_rows st) =
     (case RBT.lookup (usage st) k of
        None \<Rightarrow> []
      | Some cols \<Rightarrow> (case RBT.lookup cols c of
          None \<Rightarrow> [] | Some u \<Rightarrow> [(''column'', k, c, ufilters u, ugroups u)]))"
proof -
  let ?f = "\<lambda>(table, cols). filter (row_is ''column'' k c)
    (map (\<lambda>(column, u). (''column'', table, column, ufilters u, ugroups u)) (RBT.entries cols))"
  have inner: "?f (k, cols) = (case RBT.lookup cols c of
      None \<Rightarrow> [] | Some u \<Rightarrow> [(''column'', k, c, ufilters u, ugroups u)])" for cols
  proof -
    have "?f (k, cols) = map (\<lambda>(column, u). (''column'', k, column, ufilters u, ugroups u))
        (filter (\<lambda>e. fst e = c) (RBT.entries cols))"
      by (auto simp: filter_map row_is_def comp_def case_prod_unfold)
    then show ?thesis by (simp add: entries_of_key split: option.splits)
  qed
  have "filter (row_is ''column'' k c) (stats_rows st) = concat (map ?f (RBT.entries (usage st)))"
    by (auto simp: stats_rows_def filter_concat comp_def case_prod_unfold row_is_def filter_empty_conv)
  also have "\<dots> = (case RBT.lookup (usage st) k of None \<Rightarrow> [] | Some cols \<Rightarrow> ?f (k, cols))"
    by (rule concat_map_one_key) (auto simp: row_is_def filter_empty_conv)
  finally show ?thesis unfolding inner .
qed

lemma saved_group_row:
  "filter (row_is ''group_set'' k c) (stats_rows st) =
     (case RBT.lookup (group_sets st) k of
        None \<Rightarrow> []
      | Some sets \<Rightarrow> (case RBT.lookup sets c of None \<Rightarrow> [] | Some n \<Rightarrow> [(''group_set'', k, c, n, 0)]))"
proof -
  let ?f = "\<lambda>(table, sets). filter (row_is ''group_set'' k c)
    (map (\<lambda>(group_set, n). (''group_set'', table, group_set, n, 0)) (RBT.entries sets))"
  have inner: "?f (k, sets) = (case RBT.lookup sets c of
      None \<Rightarrow> [] | Some n \<Rightarrow> [(''group_set'', k, c, n, 0)])" for sets
  proof -
    have "?f (k, sets) = map (\<lambda>(group_set, n). (''group_set'', k, group_set, n, 0))
        (filter (\<lambda>e. fst e = c) (RBT.entries sets))"
      by (auto simp: filter_map row_is_def comp_def case_prod_unfold)
    then show ?thesis by (simp add: entries_of_key split: option.splits)
  qed
  have "filter (row_is ''group_set'' k c) (stats_rows st) = concat (map ?f (RBT.entries (group_sets st)))"
    by (auto simp: stats_rows_def filter_concat comp_def case_prod_unfold row_is_def filter_empty_conv)
  also have "\<dots> = (case RBT.lookup (group_sets st) k of None \<Rightarrow> [] | Some sets \<Rightarrow> ?f (k, sets))"
    by (rule concat_map_one_key) (auto simp: row_is_def filter_empty_conv)
  finally show ?thesis unfolding inner .
qed

lemma load_saved:
  "usage_of (load_rows (stats_rows saved) st) k c = pair_plus (usage_of st k c) (usage_of saved k c)"
  "groups_of (load_rows (stats_rows saved) st) k g = groups_of st k g + groups_of saved k g"
  by (cases "usage_of st k c", simp add: load_rows_usage saved_usage_row usage_of_def [of saved] split: option.splits)
    (simp add: load_rows_groups saved_group_row groups_of_def [of saved] split: option.splits)

text \<open>The text of the rows is read back as the rows.\<close>

lemma read_squoted:
  "CHR 0x27 \<notin> set w \<Longrightarrow> rest = [] \<or> hd rest \<noteq> CHR 0x27 \<Longrightarrow>
     read_quoted (CHR 0x27) (CHR 0x27 # w @ CHR 0x27 # rest) = Some (w, rest)"
proof -
  assume w: "CHR 0x27 \<notin> set w" and rest: "rest = [] \<or> hd rest \<noteq> CHR 0x27"
  have "concat (map (\<lambda>c. if c = CHR 0x27 then [CHR 0x27, CHR 0x27] else [c]) w) = w"
    using w by (induction w) auto
  with read_body_quoted [OF rest, of w] show ?thesis by (simp add: read_quoted_def)
qed

lemma read_row_text:
  assumes "fst r \<in> {''column'', ''group_set''}"
  shows "read_row (row_text r @ rest) = Some (r, rest)"
proof -
  obtain kind table item f g where r: "r = (kind, table, item, f, g)" by (cases r)
  have k: "CHR 0x27 \<notin> set kind" using assms r by auto
  have exact: "read_exact [c] (c # s) = Some s" "read_exact [c, d] (c # d # s) = Some s" for c d s
    by (simp_all add: read_exact_def)
  have num: "read_number (dec_string n @ c # s) = Some (n, c # s)" if "\<not> is_digit c" for n c s
    using read_number_dec [of "c # s" n] that by simp
  have str: "read_quoted (CHR 0x27) (sql_string x @ c # s) = Some (x, c # s)" if "c \<noteq> CHR 0x27" for x c s
    using read_write_quoted [of "c # s" "CHR 0x27" x] that by (simp add: sql_string_def)
  have d: "\<not> is_digit (CHR '','')" "\<not> is_digit (CHR '')'')" by (simp_all add: is_digit_def)
  show ?thesis
    by (simp add: r read_row_def exact read_squoted [OF k] num [OF d(1)] num [OF d(2)] str)
qed

lemma read_rows_text:
  assumes "rows \<noteq> []" "\<forall>r \<in> set rows. fst r \<in> {''column'', ''group_set''}" "length rows \<le> n"
  shows "read_rows n (join_strings '', '' (map row_text rows)) = Some rows"
  using assms
proof (induction rows arbitrary: n)
  case (Cons r rows)
  then obtain m where n: "n = Suc m" by (cases n) auto
  show ?case
  proof (cases rows)
    case Nil
    with Cons.prems read_row_text [of r "[]"] show ?thesis by (simp add: n)
  next
    case (Cons r' rows')
    let ?rest = "join_strings '', '' (map row_text rows)"
    have "join_strings '', '' (map row_text (r # rows)) = row_text r @ CHR '','' # CHR '' '' # ?rest"
      using Cons by simp
    moreover have "read_exact '', '' (CHR '','' # CHR '' '' # ?rest) = Some ?rest"
      using read_exact_append [of "'', ''" ?rest] by simp
    moreover have "read_rows m ?rest = Some rows"
      using Cons.IH [of m] Cons.prems n Cons by simp
    ultimately show ?thesis using read_row_text [of r] Cons.prems by (simp add: n)
  qed
qed simp

lemma stats_rows_kinds: "\<forall>r \<in> set (stats_rows st). fst r \<in> {''column'', ''group_set''}"
  by (auto simp: stats_rows_def)

text \<open>
  Property C30: statistics survive being saved and loaded. The VALUES list \<^verbatim>\<open>raw_stats_save\<close>
  writes is read back by SQL as exactly the saved rows, whatever characters table and column
  names contain; loading them adds the saved counts to those present for every column and
  every group set, so loading into a fresh database restores them.
\<close>

theorem stats_save_load_round_trip:
  "(stats_rows saved = [] \<or>
      read_rows (length (stats_rows saved)) (join_strings '', '' (map row_text (stats_rows saved))) =
        Some (stats_rows saved)) \<and>
   usage_of (load_rows (stats_rows saved) st) k c = pair_plus (usage_of st k c) (usage_of saved k c) \<and>
   groups_of (load_rows (stats_rows saved) st) k g = groups_of st k g + groups_of saved k g \<and>
   usage_of (load_rows (stats_rows saved) empty_stats) k c = usage_of saved k c \<and>
   groups_of (load_rows (stats_rows saved) empty_stats) k g = groups_of saved k g"
proof -
  have "usage_of empty_stats k c = (0, 0)" "groups_of empty_stats k g = 0"
    by (simp_all add: usage_of_def groups_of_def empty_stats_def)
  moreover have "pair_plus (0, 0) x = x" for x by (cases x) simp
  ultimately show ?thesis
    using read_rows_text [OF _ stats_rows_kinds, of saved "length (stats_rows saved)"] load_saved
    by auto
qed

text \<open>A table of three rows that grew by two since it was sorted.\<close>

definition sample_store :: "nat opt_store" where
  "sample_store = \<lparr>stable = Some [(0, 1), (1, 5), (2, 7), (3, 6), (4, 2)], snext = 5, stail = None, stmp = None\<rparr>"

definition grown_stats :: stats_cache where
  "grown_stats = (add_usage 1 0 (table_key sample_base) ''v'' empty_stats)
     \<lparr>optimized := RBT.insert (table_key sample_base)
        \<lparr>oorder_by = [CHR 0x22] @ ''v'' @ [CHR 0x22], orow_count = 3\<rparr> RBT.empty\<rparr>"

theorem optimize_keeps_rows_witness:
  "\<exists>st' s' a rs'. raw_optimize sort (\<lambda>_. False) False sample_base grown_stats sample_store = (Inr a, st', s') \<and>
     amode a = ''incremental'' \<and> arows a = 2 \<and> stable s' = Some rs' \<and> mset (map snd rs') = {#1, 5, 7, 6, 2#}"
proof -
  obtain r st' s' where run: "raw_optimize sort (\<lambda>_. False) False sample_base grown_stats sample_store = (r, st', s')"
    by (cases "raw_optimize sort (\<lambda>_. False) False sample_base grown_stats sample_store") auto
  have "map_sum id (\<lambda>a. (amode a, arows a)) (fst (raw_optimize sort (\<lambda>_. False) False sample_base grown_stats sample_store)) =
      Inr (''incremental'', 2)"
    by code_simp
  then obtain a where a: "r = Inr a" "amode a = ''incremental''" "arows a = 2"
    using run by (cases r) auto
  have "order_ok (\<le>) (sort :: nat list \<Rightarrow> nat list)" by (simp add: order_ok_def)
  moreover have "store_ok sample_store" by (simp add: store_ok_def sample_store_def)
  ultimately have "\<exists>rs'. stable s' = Some rs' \<and> mset (map snd rs') = {#1, 5, 7, 6, 2#}"
    using optimize_keeps_rows [OF _ _ _ run, of "[(0, 1), (1, 5), (2, 7), (3, 6), (4, 2)]" "(\<le>)"] a(1)
    by (auto simp: sample_store_def)
  with run a show ?thesis by blast
qed

end
