(* ===== verification/Pipeline.thy ===== *)
theory Pipeline
  imports Prelude
begin

text \<open>
  The file pipeline (\<^verbatim>\<open>RawIngestPipeline\<close> and the threads of \<^verbatim>\<open>RawIngestFileFunction\<close>,
  \<^verbatim>\<open>raw_ingest.cpp\<close> lines 1731 to 2014): a reader, parsers and consumers around two bounded
  queues under one lock. Every section under the lock is a step; a wait puts the thread to sleep
  on a condition variable until a notification wakes it, and then it tests its predicate
  again. What \<^verbatim>\<open>notify_one\<close> wakes is part of the step's label, since the standard leaves it open.
  Batches are any values; whether parsing or ingesting one throws is part of the label, too. A
  batch counts as ingested when its consumer has taken it over: the ingest of what a consumer
  holds back to merge with the next batch ends in \<^verbatim>\<open>CFlush\<close>, which fails or succeeds for all of it.
\<close>

section \<open>State\<close>

record 'b pipeline =
  capacity :: nat
  raw_queue :: "'b list"
  queue :: "'b list"
  active_parsers :: nat
  reader_done :: bool
  aborted :: bool
  failed :: bool

text \<open>Where the threads stand. A sleeping thread holds what it is about to push.\<close>

datatype 'b reader_phase = RNext | RPush 'b | RAsleep 'b | RFinish bool | RGone

datatype 'b parser_phase = PPop | PAsleepPop | PParse 'b | PPush 'b | PAsleepPush 'b | PFinish bool | PGone

datatype 'b consumer_phase = CPop | CAsleep | CIngest 'b | CFlush | CAbort | CGone

text \<open>
  The whole: the monitor, the batches the reader has still to push, the threads, and the batches
  ingested and dropped so far.
\<close>

record 'b pipe_system =
  mon :: "'b pipeline"
  batches_left :: "'b list"
  reader :: "'b reader_phase"
  parsers :: "'b parser_phase list"
  consumers :: "'b consumer_phase list"
  ingested :: "'b list"
  dropped :: "'b list"

definition start_pipeline :: "nat \<Rightarrow> nat \<Rightarrow> nat \<Rightarrow> 'b list \<Rightarrow> 'b pipe_system" where
  "start_pipeline depth np nc bs =
     \<lparr>mon = \<lparr>capacity = depth, raw_queue = [], queue = [], active_parsers = np, reader_done = False,
        aborted = False, failed = False\<rparr>,
      batches_left = bs, reader = RNext, parsers = replicate np PPop, consumers = replicate nc CPop,
      ingested = [], dropped = []\<rparr>"

section \<open>Notifications\<close>

fun wake_reader :: "'b reader_phase \<Rightarrow> 'b reader_phase" where
  "wake_reader (RAsleep b) = RPush b"
| "wake_reader r = r"

fun wake_push :: "'b parser_phase \<Rightarrow> 'b parser_phase" where
  "wake_push (PAsleepPush b) = PPush b"
| "wake_push p = p"

fun wake_pop :: "'b parser_phase \<Rightarrow> 'b parser_phase" where
  "wake_pop PAsleepPop = PPop"
| "wake_pop p = p"

fun wake_consumer :: "'b consumer_phase \<Rightarrow> 'b consumer_phase" where
  "wake_consumer CAsleep = CPop"
| "wake_consumer c = c"

text \<open>\<^verbatim>\<open>notify_all\<close> of the three condition variables; the reader and the parsers share one of them.\<close>

definition notify_all_producers :: "'b pipe_system \<Rightarrow> 'b pipe_system" where
  "notify_all_producers s = s\<lparr>reader := wake_reader (reader s), parsers := map wake_push (parsers s)\<rparr>"

definition notify_all_parsers :: "'b pipe_system \<Rightarrow> 'b pipe_system" where
  "notify_all_parsers s = s\<lparr>parsers := map wake_pop (parsers s)\<rparr>"

definition notify_all_consumers :: "'b pipe_system \<Rightarrow> 'b pipe_system" where
  "notify_all_consumers s = s\<lparr>consumers := map wake_consumer (consumers s)\<rparr>"

text \<open>\<^verbatim>\<open>notify_one\<close> wakes the thread the choice names, which must be asleep on that variable.\<close>

datatype choice = Nobody | TheReader | Thread nat

definition can_wake_producer :: "choice \<Rightarrow> 'b pipe_system \<Rightarrow> bool" where
  "can_wake_producer ch s =
     (case ch of
        Nobody \<Rightarrow> \<not> (\<exists>b. reader s = RAsleep b) \<and> (\<forall>p \<in> set (parsers s). \<forall>b. p \<noteq> PAsleepPush b)
      | TheReader \<Rightarrow> (\<exists>b. reader s = RAsleep b)
      | Thread i \<Rightarrow> i < length (parsers s) \<and> (\<exists>b. parsers s ! i = PAsleepPush b))"

definition notify_producer :: "choice \<Rightarrow> 'b pipe_system \<Rightarrow> 'b pipe_system" where
  "notify_producer ch s =
     (case ch of
        Nobody \<Rightarrow> s
      | TheReader \<Rightarrow> s\<lparr>reader := wake_reader (reader s)\<rparr>
      | Thread i \<Rightarrow> s\<lparr>parsers := (parsers s)[i := wake_push (parsers s ! i)]\<rparr>)"

definition can_wake_parser :: "choice \<Rightarrow> 'b pipe_system \<Rightarrow> bool" where
  "can_wake_parser ch s =
     (case ch of
        Nobody \<Rightarrow> PAsleepPop \<notin> set (parsers s)
      | TheReader \<Rightarrow> False
      | Thread i \<Rightarrow> i < length (parsers s) \<and> parsers s ! i = PAsleepPop)"

definition notify_parser :: "choice \<Rightarrow> 'b pipe_system \<Rightarrow> 'b pipe_system" where
  "notify_parser ch s =
     (case ch of Thread i \<Rightarrow> s\<lparr>parsers := (parsers s)[i := wake_pop (parsers s ! i)]\<rparr> | _ \<Rightarrow> s)"

definition can_wake_consumer :: "choice \<Rightarrow> 'b pipe_system \<Rightarrow> bool" where
  "can_wake_consumer ch s =
     (case ch of
        Nobody \<Rightarrow> CAsleep \<notin> set (consumers s)
      | TheReader \<Rightarrow> False
      | Thread j \<Rightarrow> j < length (consumers s) \<and> consumers s ! j = CAsleep)"

definition notify_consumer :: "choice \<Rightarrow> 'b pipe_system \<Rightarrow> 'b pipe_system" where
  "notify_consumer ch s =
     (case ch of Thread j \<Rightarrow> s\<lparr>consumers := (consumers s)[j := wake_consumer (consumers s ! j)]\<rparr> | _ \<Rightarrow> s)"

section \<open>The monitor's operations\<close>

abbreviation set_parser :: "nat \<Rightarrow> 'b parser_phase \<Rightarrow> 'b pipe_system \<Rightarrow> 'b pipe_system" where
  "set_parser i p s \<equiv> s\<lparr>parsers := (parsers s)[i := p]\<rparr>"

abbreviation set_consumer :: "nat \<Rightarrow> 'b consumer_phase \<Rightarrow> 'b pipe_system \<Rightarrow> 'b pipe_system" where
  "set_consumer j c s \<equiv> s\<lparr>consumers := (consumers s)[j := c]\<rparr>"

text \<open>\<^verbatim>\<open>PushRaw\<close>: a batch pushed after an abort is dropped.\<close>

definition push_raw :: "choice \<Rightarrow> 'b \<Rightarrow> 'b pipe_system \<Rightarrow> 'b pipe_system" where
  "push_raw ch b s =
     (let m = mon s in
      if \<not> (length (raw_queue m) < capacity m \<or> aborted m) then s\<lparr>reader := RAsleep b\<rparr>
      else if aborted m then s\<lparr>reader := RNext, dropped := dropped s @ [b]\<rparr>
      else notify_parser ch (s\<lparr>reader := RNext, mon := m\<lparr>raw_queue := raw_queue m @ [b]\<rparr>\<rparr>))"

text \<open>\<^verbatim>\<open>PopRaw\<close> by parser \<open>i\<close>; false ends its loop.\<close>

definition pop_raw :: "choice \<Rightarrow> nat \<Rightarrow> 'b pipe_system \<Rightarrow> 'b pipe_system" where
  "pop_raw ch i s =
     (let m = mon s in
      if \<not> (raw_queue m \<noteq> [] \<or> reader_done m \<or> aborted m) then set_parser i PAsleepPop s
      else if raw_queue m = [] \<or> aborted m then set_parser i (PFinish False) s
      else notify_producer ch
        (set_parser i (PParse (hd (raw_queue m))) (s\<lparr>mon := m\<lparr>raw_queue := tl (raw_queue m)\<rparr>\<rparr>)))"

definition push_parsed :: "choice \<Rightarrow> nat \<Rightarrow> 'b \<Rightarrow> 'b pipe_system \<Rightarrow> 'b pipe_system" where
  "push_parsed ch i b s =
     (let m = mon s in
      if \<not> (length (queue m) < capacity m \<or> aborted m) then set_parser i (PAsleepPush b) s
      else if aborted m then set_parser i PPop (s\<lparr>dropped := dropped s @ [b]\<rparr>)
      else notify_consumer ch (set_parser i PPop (s\<lparr>mon := m\<lparr>queue := queue m @ [b]\<rparr>\<rparr>)))"

definition pop_parsed :: "choice \<Rightarrow> nat \<Rightarrow> 'b pipe_system \<Rightarrow> 'b pipe_system" where
  "pop_parsed ch j s =
     (let m = mon s in
      if \<not> (queue m \<noteq> [] \<or> aborted m \<or> (reader_done m \<and> active_parsers m = 0)) then set_consumer j CAsleep s
      else if aborted m \<or> queue m = [] then set_consumer j CFlush s
      else notify_producer ch
        (set_consumer j (CIngest (hd (queue m))) (s\<lparr>mon := m\<lparr>queue := tl (queue m)\<rparr>\<rparr>)))"

definition finish_reader :: "bool \<Rightarrow> 'b pipe_system \<Rightarrow> 'b pipe_system" where
  "finish_reader err s =
     (let m = mon s; m = (if err then m\<lparr>failed := True\<rparr> else m) in
      notify_all_consumers (notify_all_parsers (s\<lparr>reader := RGone, mon := m\<lparr>reader_done := True\<rparr>\<rparr>)))"

definition finish_parser :: "nat \<Rightarrow> bool \<Rightarrow> 'b pipe_system \<Rightarrow> 'b pipe_system" where
  "finish_parser i err s =
     (let m = mon s;
          s = (if err \<and> \<not> failed m
               then notify_all_producers (notify_all_parsers (s\<lparr>mon := m\<lparr>failed := True, aborted := True\<rparr>\<rparr>))
               else s);
          m = mon s
      in notify_all_consumers (set_parser i PGone (s\<lparr>mon := m\<lparr>active_parsers := active_parsers m - 1\<rparr>\<rparr>)))"

definition abort_pipeline :: "nat \<Rightarrow> 'b pipe_system \<Rightarrow> 'b pipe_system" where
  "abort_pipeline j s =
     notify_all_producers (notify_all_parsers
       (set_consumer j CGone (s\<lparr>mon := (mon s)\<lparr>aborted := True, reader_done := True\<rparr>\<rparr>)))"

section \<open>The threads\<close>

inductive pipe_step :: "'b pipe_system \<Rightarrow> 'b pipe_system \<Rightarrow> bool" where
  read_batch: "reader s = RNext \<Longrightarrow> batches_left s = b # bs \<Longrightarrow>
    pipe_step s (s\<lparr>reader := RPush b, batches_left := bs\<rparr>)"
| read_end: "reader s = RNext \<Longrightarrow> batches_left s = [] \<Longrightarrow> pipe_step s (s\<lparr>reader := RFinish False\<rparr>)"
| read_fails: "reader s = RNext \<Longrightarrow>
    pipe_step s (s\<lparr>reader := RFinish True, batches_left := [], dropped := dropped s @ batches_left s\<rparr>)"
| read_push: "reader s = RPush b \<Longrightarrow> can_wake_parser ch s \<Longrightarrow> pipe_step s (push_raw ch b s)"
| read_finish: "reader s = RFinish err \<Longrightarrow> pipe_step s (finish_reader err s)"
| parse_pop: "i < length (parsers s) \<Longrightarrow> parsers s ! i = PPop \<Longrightarrow> can_wake_producer ch s \<Longrightarrow>
    pipe_step s (pop_raw ch i s)"
| parse: "i < length (parsers s) \<Longrightarrow> parsers s ! i = PParse b \<Longrightarrow> pipe_step s (set_parser i (PPush b) s)"
| parse_fails: "i < length (parsers s) \<Longrightarrow> parsers s ! i = PParse b \<Longrightarrow>
    pipe_step s (set_parser i (PFinish True) (s\<lparr>dropped := dropped s @ [b]\<rparr>))"
| parse_push: "i < length (parsers s) \<Longrightarrow> parsers s ! i = PPush b \<Longrightarrow> can_wake_consumer ch s \<Longrightarrow>
    pipe_step s (push_parsed ch i b s)"
| parse_finish: "i < length (parsers s) \<Longrightarrow> parsers s ! i = PFinish err \<Longrightarrow> pipe_step s (finish_parser i err s)"
| consume_pop: "j < length (consumers s) \<Longrightarrow> consumers s ! j = CPop \<Longrightarrow> can_wake_producer ch s \<Longrightarrow>
    pipe_step s (pop_parsed ch j s)"
| consume: "j < length (consumers s) \<Longrightarrow> consumers s ! j = CIngest b \<Longrightarrow>
    pipe_step s (set_consumer j CPop (s\<lparr>ingested := ingested s @ [b]\<rparr>))"
| consume_fails: "j < length (consumers s) \<Longrightarrow> consumers s ! j = CIngest b \<Longrightarrow>
    pipe_step s (set_consumer j CAbort (s\<lparr>dropped := dropped s @ [b]\<rparr>))"
| consume_flush: "j < length (consumers s) \<Longrightarrow> consumers s ! j = CFlush \<Longrightarrow>
    pipe_step s (set_consumer j CGone s)"
| flush_fails: "j < length (consumers s) \<Longrightarrow> consumers s ! j = CFlush \<Longrightarrow>
    pipe_step s (set_consumer j CAbort s)"
| consume_abort: "j < length (consumers s) \<Longrightarrow> consumers s ! j = CAbort \<Longrightarrow> pipe_step s (abort_pipeline j s)"

inductive_cases pipe_stepE: "pipe_step s s'"

section \<open>The invariant\<close>

text \<open>The batch a thread holds.\<close>

fun reader_holds :: "'b reader_phase \<Rightarrow> 'b list" where
  "reader_holds (RPush b) = [b]"
| "reader_holds (RAsleep b) = [b]"
| "reader_holds r = []"

fun parser_holds :: "'b parser_phase \<Rightarrow> 'b list" where
  "parser_holds (PParse b) = [b]"
| "parser_holds (PPush b) = [b]"
| "parser_holds (PAsleepPush b) = [b]"
| "parser_holds p = []"

fun consumer_holds :: "'b consumer_phase \<Rightarrow> 'b list" where
  "consumer_holds (CIngest b) = [b]"
| "consumer_holds c = []"

definition in_flight_batches :: "'b pipe_system \<Rightarrow> 'b list" where
  "in_flight_batches s =
     reader_holds (reader s) @ raw_queue (mon s) @ concat (map parser_holds (parsers s)) @
     queue (mon s) @ concat (map consumer_holds (consumers s))"

definition places :: "'b pipe_system \<Rightarrow> 'b multiset" where
  "places s = mset (batches_left s) + mset (in_flight_batches s) + mset (ingested s) + mset (dropped s)"

lemma holds_wake [simp]:
  "reader_holds (wake_reader r) = reader_holds r" "parser_holds (wake_push p) = parser_holds p"
  "parser_holds (wake_pop p) = parser_holds p" "consumer_holds (wake_consumer c) = consumer_holds c"
  by (cases r; simp) (cases p; simp; fail | cases c; simp)+

lemma map_update_same: "f y = f (xs ! i) \<Longrightarrow> map f (xs[i := y]) = map f xs"
  by (metis list_update_beyond list_update_id map_update not_le_imp_less)

lemma notify_places [simp]:
  "places (notify_all_producers s) = places s" "places (notify_all_parsers s) = places s"
  "places (notify_all_consumers s) = places s" "places (notify_producer ch s) = places s"
  "places (notify_parser ch s) = places s" "places (notify_consumer ch s) = places s"
  by (cases ch; simp add: places_def in_flight_batches_def notify_all_producers_def notify_all_parsers_def
      notify_all_consumers_def notify_producer_def notify_parser_def notify_consumer_def comp_def
      map_update_same)+

lemma notify_mon [simp]:
  "mon (notify_all_producers s) = mon s" "mon (notify_all_parsers s) = mon s"
  "mon (notify_all_consumers s) = mon s" "mon (notify_producer ch s) = mon s"
  "mon (notify_parser ch s) = mon s" "mon (notify_consumer ch s) = mon s"
  by (cases ch; simp add: notify_all_producers_def notify_all_parsers_def notify_all_consumers_def
      notify_producer_def notify_parser_def notify_consumer_def)+

lemma places_set_parser:
  "i < length (parsers s) \<Longrightarrow>
     places (set_parser i p s) + mset (parser_holds (parsers s ! i)) = places s + mset (parser_holds p)"
  using mset_concat_update [of i "parsers s" parser_holds p]
  by (simp add: places_def in_flight_batches_def ac_simps)

lemma places_set_consumer:
  "j < length (consumers s) \<Longrightarrow>
     places (set_consumer j c s) + mset (consumer_holds (consumers s ! j)) = places s + mset (consumer_holds c)"
  using mset_concat_update [of j "consumers s" consumer_holds c]
  by (simp add: places_def in_flight_batches_def ac_simps)

lemma places_parser_takes:
  assumes "i < length (parsers s)" "parser_holds (parsers s ! i) = []" "raw_queue (mon s) \<noteq> []"
  shows "places (set_parser i (PParse (hd (raw_queue (mon s)))) (s\<lparr>mon := (mon s)\<lparr>raw_queue := tl (raw_queue (mon s))\<rparr>\<rparr>)) = places s"
  using assms mset_concat_update [OF assms(1), of parser_holds "PParse (hd (raw_queue (mon s)))"]
  by (cases "raw_queue (mon s)") (simp_all add: places_def in_flight_batches_def)

lemma places_consumer_takes:
  assumes "j < length (consumers s)" "consumer_holds (consumers s ! j) = []" "queue (mon s) \<noteq> []"
  shows "places (set_consumer j (CIngest (hd (queue (mon s)))) (s\<lparr>mon := (mon s)\<lparr>queue := tl (queue (mon s))\<rparr>\<rparr>)) = places s"
  using assms mset_concat_update [OF assms(1), of consumer_holds "CIngest (hd (queue (mon s)))"]
  by (cases "queue (mon s)") (simp_all add: places_def in_flight_batches_def)

lemma places_same_parser:
  "i < length (parsers s) \<Longrightarrow> mset (parser_holds p) = mset (parser_holds (parsers s ! i)) \<Longrightarrow>
     places (set_parser i p s) = places s"
  using places_set_parser [of i s p] by simp

lemma places_same_consumer:
  "j < length (consumers s) \<Longrightarrow> mset (consumer_holds c) = mset (consumer_holds (consumers s ! j)) \<Longrightarrow>
     places (set_consumer j c s) = places s"
  using places_set_consumer [of j s c] by simp

text \<open>A parser or consumer gives up its batch to the queue, to the ingest or to nobody.\<close>

lemma places_parser_gives:
  assumes "i < length (parsers s)" "parser_holds (parsers s ! i) = [b]" "parser_holds p = []"
  shows "places (set_parser i p (s\<lparr>mon := (mon s)\<lparr>queue := queue (mon s) @ [b]\<rparr>\<rparr>)) = places s"
    and "places (set_parser i p (s\<lparr>dropped := dropped s @ [b]\<rparr>)) = places s"
  using assms mset_concat_update [OF assms(1), of parser_holds p]
  by (simp_all add: places_def in_flight_batches_def)

lemma places_consumer_gives:
  assumes "j < length (consumers s)" "consumer_holds (consumers s ! j) = [b]" "consumer_holds c = []"
  shows "places (set_consumer j c (s\<lparr>ingested := ingested s @ [b]\<rparr>)) = places s"
    and "places (set_consumer j c (s\<lparr>dropped := dropped s @ [b]\<rparr>)) = places s"
  using assms mset_concat_update [OF assms(1), of consumer_holds c]
  by (simp_all add: places_def in_flight_batches_def)

lemma places_mon:
  "raw_queue m = raw_queue (mon s) \<Longrightarrow> queue m = queue (mon s) \<Longrightarrow> places (s\<lparr>mon := m\<rparr>) = places s"
  by (simp add: places_def in_flight_batches_def)

lemma finish_parser_places:
  assumes "i < length (parsers s)" "parser_holds (parsers s ! i) = []"
  shows "places (finish_parser i err s) = places s"
proof -
  let ?t = "notify_all_producers (notify_all_parsers (s\<lparr>mon := (mon s)\<lparr>failed := True, aborted := True\<rparr>\<rparr>))"
  have "places ?t = places (s\<lparr>mon := (mon s)\<lparr>failed := True, aborted := True\<rparr>\<rparr>)" by (simp only: notify_places)
  then have t: "i < length (parsers ?t)" "parser_holds (parsers ?t ! i) = []" "places ?t = places s"
    using assms by (simp_all add: places_mon) (simp_all add: notify_all_producers_def notify_all_parsers_def)
  have "places (set_parser i PGone (u\<lparr>mon := (mon u)\<lparr>active_parsers := n\<rparr>\<rparr>)) = places u"
    if "i < length (parsers u)" "parser_holds (parsers u ! i) = []" for u :: "'a pipe_system" and n
    using places_same_parser [of i "u\<lparr>mon := (mon u)\<lparr>active_parsers := n\<rparr>\<rparr>" PGone] that by (simp add: places_mon)
  with t assms show ?thesis by (simp add: finish_parser_def Let_def)
qed

lemma pipe_step_places:
  assumes "pipe_step s s'"
  shows "places s' = places s"
  using assms
proof cases
  case (read_push b ch)
  then show ?thesis by (simp add: push_raw_def Let_def) (simp add: places_def in_flight_batches_def)
next
  case (parse_pop i ch)
  then show ?thesis
    by (simp add: pop_raw_def Let_def places_same_parser places_parser_takes [simplified])
next
  case (parse_push i b ch)
  then show ?thesis
    by (simp add: push_parsed_def Let_def places_same_parser places_parser_gives [simplified])
next
  case (consume_pop j ch)
  then show ?thesis
    by (simp add: pop_parsed_def Let_def places_same_consumer places_consumer_takes [simplified])
next
  case (parse_finish i err)
  then show ?thesis by (simp add: finish_parser_places)
next
  case (read_finish err)
  then show ?thesis
    by (simp add: finish_reader_def Let_def) (simp add: places_def in_flight_batches_def)
next
  case (consume_abort j)
  have "places (set_consumer j CGone (s\<lparr>mon := (mon s)\<lparr>aborted := True, reader_done := True\<rparr>\<rparr>)) = places s"
    using places_same_consumer [of j "s\<lparr>mon := (mon s)\<lparr>aborted := True, reader_done := True\<rparr>\<rparr>" CGone] consume_abort
    by (simp add: places_mon)
  then show ?thesis by (simp add: consume_abort(1) abort_pipeline_def)
qed (simp_all add: places_same_parser places_same_consumer places_parser_gives [simplified] places_consumer_gives [simplified],
    simp_all add: places_def in_flight_batches_def)

text \<open>Who is still there, who has ended, and why a batch may have been dropped.\<close>

definition alive :: "'b parser_phase list \<Rightarrow> nat" where
  "alive ps = length (filter (\<lambda>p. p \<noteq> PGone) ps)"

definition parser_ended :: "'b parser_phase list \<Rightarrow> bool" where
  "parser_ended ps \<longleftrightarrow> PFinish False \<in> set ps \<or> PGone \<in> set ps"

definition consumer_ended :: "'b consumer_phase list \<Rightarrow> bool" where
  "consumer_ended cs \<longleftrightarrow> CFlush \<in> set cs \<or> CGone \<in> set cs"

definition excused :: "'b pipe_system \<Rightarrow> bool" where
  "excused s \<longleftrightarrow> failed (mon s) \<or> aborted (mon s) \<or> PFinish True \<in> set (parsers s) \<or>
     reader s = RFinish True \<or> CAbort \<in> set (consumers s)"

definition pipe_inv :: "'b pipe_system \<Rightarrow> bool" where
  "pipe_inv s \<longleftrightarrow>
     length (raw_queue (mon s)) \<le> capacity (mon s) \<and> length (queue (mon s)) \<le> capacity (mon s) \<and>
     active_parsers (mon s) = alive (parsers s) \<and>
     (reader s = RGone \<longrightarrow> reader_done (mon s)) \<and>
     (reader_done (mon s) \<longrightarrow> aborted (mon s) \<or> reader s = RGone) \<and>
     (reader s \<in> {RFinish False, RFinish True, RGone} \<longrightarrow> batches_left s = []) \<and>
     (parser_ended (parsers s) \<longrightarrow>
        aborted (mon s) \<or> failed (mon s) \<or> reader_done (mon s) \<and> raw_queue (mon s) = []) \<and>
     (consumer_ended (consumers s) \<longrightarrow> aborted (mon s) \<or> CAbort \<in> set (consumers s) \<or>
        reader_done (mon s) \<and> alive (parsers s) = 0 \<and> queue (mon s) = []) \<and>
     (dropped s \<noteq> [] \<longrightarrow> excused s)"

lemma wake_iff [simp]:
  "wake_reader r = RGone \<longleftrightarrow> r = RGone" "wake_reader r = RFinish e \<longleftrightarrow> r = RFinish e"
  "PGone = wake_push p \<longleftrightarrow> p = PGone" "PGone = wake_pop p \<longleftrightarrow> p = PGone"
  "wake_push p = PGone \<longleftrightarrow> p = PGone" "wake_pop p = PGone \<longleftrightarrow> p = PGone"
  "PFinish e = wake_push p \<longleftrightarrow> p = PFinish e" "PFinish e = wake_pop p \<longleftrightarrow> p = PFinish e"
  "CFlush = wake_consumer c \<longleftrightarrow> c = CFlush" "CGone = wake_consumer c \<longleftrightarrow> c = CGone"
  "CAbort = wake_consumer c \<longleftrightarrow> c = CAbort"
  by (cases r; simp; fail | cases p; auto; fail | cases c; simp; fail)+

lemma in_update: "i < length xs \<Longrightarrow> xs ! i \<noteq> x \<Longrightarrow> x \<in> set (xs[i := y]) \<longleftrightarrow> x = y \<or> x \<in> set xs"
proof (induction xs arbitrary: i)
  case (Cons z zs)
  then show ?case by (cases i) auto
qed simp

lemma alive_update:
  "i < length xs \<Longrightarrow> xs ! i \<noteq> PGone \<Longrightarrow> alive (xs[i := y]) = (if y = PGone then alive xs - 1 else alive xs) \<and> alive xs > 0"
proof (induction xs arbitrary: i)
  case (Cons z zs)
  show ?case
  proof (cases i)
    case (Suc j)
    with Cons.IH [of j] Cons.prems have "alive (zs[j := y]) = (if y = PGone then alive zs - 1 else alive zs)" "alive zs > 0"
      by auto
    with Suc show ?thesis by (auto simp: alive_def)
  qed (use Cons.prems in \<open>auto simp: alive_def\<close>)
qed simp

lemma notify_all_views [simp]:
  "alive (map wake_push ps) = alive ps" "alive (map wake_pop ps) = alive ps"
  "parser_ended (map wake_push ps) = parser_ended ps" "parser_ended (map wake_pop ps) = parser_ended ps"
  "consumer_ended (map wake_consumer cs) = consumer_ended cs"
  "PFinish e \<in> wake_push ` set ps \<longleftrightarrow> PFinish e \<in> set ps" "PFinish e \<in> wake_pop ` set ps \<longleftrightarrow> PFinish e \<in> set ps"
  "CAbort \<in> wake_consumer ` set cs \<longleftrightarrow> CAbort \<in> set cs"
  by (auto simp: alive_def parser_ended_def consumer_ended_def filter_map comp_def image_iff)

lemma pipe_inv_notify_all [simp]:
  "pipe_inv (notify_all_producers s) = pipe_inv s" "pipe_inv (notify_all_parsers s) = pipe_inv s"
  "pipe_inv (notify_all_consumers s) = pipe_inv s"
  by (simp_all add: notify_all_producers_def notify_all_parsers_def notify_all_consumers_def pipe_inv_def excused_def
      comp_def)

lemma pipe_invI:
  assumes "length (raw_queue (mon s)) \<le> capacity (mon s)" "length (queue (mon s)) \<le> capacity (mon s)"
    and "active_parsers (mon s) = alive (parsers s)" "reader s = RGone \<Longrightarrow> reader_done (mon s)"
    and "reader_done (mon s) \<Longrightarrow> aborted (mon s) \<or> reader s = RGone"
    and "reader s \<in> {RFinish False, RFinish True, RGone} \<Longrightarrow> batches_left s = []"
    and "parser_ended (parsers s) \<Longrightarrow> aborted (mon s) \<or> failed (mon s) \<or> reader_done (mon s) \<and> raw_queue (mon s) = []"
    and "consumer_ended (consumers s) \<Longrightarrow> aborted (mon s) \<or> CAbort \<in> set (consumers s) \<or>
        reader_done (mon s) \<and> alive (parsers s) = 0 \<and> queue (mon s) = []"
    and "dropped s \<noteq> [] \<Longrightarrow> excused s"
  shows "pipe_inv s"
  unfolding pipe_inv_def using assms by blast

lemma pipe_invD:
  assumes "pipe_inv s"
  shows "length (raw_queue (mon s)) \<le> capacity (mon s)" "length (queue (mon s)) \<le> capacity (mon s)"
    "active_parsers (mon s) = alive (parsers s)" "reader s = RGone \<Longrightarrow> reader_done (mon s)"
    "reader_done (mon s) \<Longrightarrow> aborted (mon s) \<or> reader s = RGone"
    "reader s \<in> {RFinish False, RFinish True, RGone} \<Longrightarrow> batches_left s = []"
    "parser_ended (parsers s) \<Longrightarrow> aborted (mon s) \<or> failed (mon s) \<or> reader_done (mon s) \<and> raw_queue (mon s) = []"
    "consumer_ended (consumers s) \<Longrightarrow> aborted (mon s) \<or> CAbort \<in> set (consumers s) \<or>
        reader_done (mon s) \<and> alive (parsers s) = 0 \<and> queue (mon s) = []"
    "dropped s \<noteq> [] \<Longrightarrow> excused s"
  using assms unfolding pipe_inv_def by blast+

text \<open>Replacing a parser's or a consumer's phase by one that matters no more than the old one.\<close>

lemma pipe_inv_parser:
  assumes inv: "pipe_inv s" and i: "i < length (parsers s)" "parsers s ! i \<noteq> PGone" "\<And>e. parsers s ! i \<noteq> PFinish e"
    and p: "p \<noteq> PGone"
      "p = PFinish False \<Longrightarrow> aborted (mon s) \<or> failed (mon s) \<or> reader_done (mon s) \<and> raw_queue (mon s) = []"
  shows "pipe_inv (set_parser i p s)"
proof -
  have u: "x \<in> set ((parsers s)[i := p]) \<longleftrightarrow> p = x \<or> x \<in> set (parsers s)" if "parsers s ! i \<noteq> x" for x
    using in_update [OF i(1) that] by auto
  have e: "parser_ended ((parsers s)[i := p]) \<longleftrightarrow> p = PFinish False \<or> parser_ended (parsers s)"
    "excused s \<Longrightarrow> excused (set_parser i p s)"
    using i p by (auto simp: parser_ended_def excused_def u)
  have al: "alive ((parsers s)[i := p]) = alive (parsers s)"
    using alive_update [OF i(1,2), of p] p by simp
  show ?thesis
  proof (rule pipe_invI, goal_cases)
    case 7
    with pipe_invD(7) [OF inv] p(2) show ?case by (auto simp: e)
  next
    case 9
    with pipe_invD(9) [OF inv] e(2) show ?case by simp
  qed (simp_all add: al, (rule pipe_invD [OF inv]; simp)+)
qed

lemma pipe_inv_consumer:
  assumes inv: "pipe_inv s" and j: "j < length (consumers s)" "consumers s ! j \<noteq> CAbort"
    and c: "c = CFlush \<or> c = CGone \<Longrightarrow> aborted (mon s) \<or> CAbort \<in> set (consumers s) \<or>
      reader_done (mon s) \<and> alive (parsers s) = 0 \<and> queue (mon s) = []"
  shows "pipe_inv (set_consumer j c s)"
proof -
  have e: "consumer_ended ((consumers s)[j := c]) \<Longrightarrow> c = CFlush \<or> c = CGone \<or> consumer_ended (consumers s)"
    using set_update_subset_insert [of "consumers s" j c] by (auto simp: consumer_ended_def)
  have ab: "CAbort \<in> set (consumers s) \<Longrightarrow> CAbort \<in> set ((consumers s)[j := c])"
    using in_update [OF j] by blast
  show ?thesis
  proof (rule pipe_invI, goal_cases)
    case 8
    with pipe_invD(8) [OF inv] c e ab show ?case by auto
  next
    case 9
    with pipe_invD(9) [OF inv] ab show ?case by (auto simp: excused_def)
  qed (simp_all, (rule pipe_invD [OF inv]; simp)+)
qed

lemma pipe_inv_drop:
  "pipe_inv s \<Longrightarrow> excused s \<Longrightarrow> pipe_inv (s\<lparr>dropped := d\<rparr>)" "pipe_inv (s\<lparr>ingested := d\<rparr>) = pipe_inv s"
  by (simp_all add: pipe_inv_def excused_def)

lemma pipe_inv_notify_one [simp]:
  assumes "pipe_inv s"
  shows "can_wake_producer ch s \<Longrightarrow> pipe_inv (notify_producer ch s)"
    and "can_wake_parser ch s \<Longrightarrow> pipe_inv (notify_parser ch s)"
    and "can_wake_consumer ch s \<Longrightarrow> pipe_inv (notify_consumer ch s)"
proof -
  show "pipe_inv (notify_producer ch s)" if "can_wake_producer ch s"
  proof (cases ch)
    case TheReader
    with assms show ?thesis by (simp add: notify_producer_def pipe_inv_def excused_def)
  next
    case (Thread i)
    with that obtain b where "i < length (parsers s)" "parsers s ! i = PAsleepPush b"
      by (auto simp: can_wake_producer_def)
    with pipe_inv_parser [OF assms, of i "PPush b"] Thread show ?thesis by (simp add: notify_producer_def)
  qed (use assms in \<open>simp add: notify_producer_def\<close>)
  show "pipe_inv (notify_parser ch s)" if "can_wake_parser ch s"
    using that pipe_inv_parser [OF assms, of _ PPop] assms
    by (cases ch) (auto simp: notify_parser_def can_wake_parser_def)
  show "pipe_inv (notify_consumer ch s)" if "can_wake_consumer ch s"
    using that pipe_inv_consumer [OF assms, of _ CPop] assms
    by (cases ch) (auto simp: notify_consumer_def can_wake_consumer_def)
qed

lemma alive_pos: "i < length ps \<Longrightarrow> ps ! i \<noteq> PGone \<Longrightarrow> alive ps > 0"
  using alive_update [of i ps PGone] by simp

lemma can_wake_kept:
  "can_wake_parser ch (s\<lparr>reader := r, mon := m\<rparr>) = can_wake_parser ch s"
  "can_wake_producer ch s \<Longrightarrow> i < length (parsers s) \<Longrightarrow> (\<And>b. parsers s ! i \<noteq> PAsleepPush b) \<Longrightarrow>
     (\<And>b. p \<noteq> PAsleepPush b) \<Longrightarrow> can_wake_producer ch (s\<lparr>mon := m, parsers := (parsers s)[i := p]\<rparr>)"
  "can_wake_producer ch (s\<lparr>mon := m, consumers := cs\<rparr>) = can_wake_producer ch s"
  "can_wake_consumer ch (s\<lparr>mon := m, parsers := ps\<rparr>) = can_wake_consumer ch s"
  by (auto simp: can_wake_producer_def can_wake_parser_def can_wake_consumer_def nth_list_update split: choice.splits
      dest!: subsetD [OF set_update_subset_insert])

lemma push_raw_inv:
  assumes inv: "pipe_inv s" and r: "reader s = RPush b" and ch: "can_wake_parser ch s"
  shows "pipe_inv (push_raw ch b s)"
proof -
  let ?m = "mon s"
  have rn: "\<not> reader_done ?m \<or> aborted ?m" using pipe_invD(5) [OF inv] r by auto
  have "pipe_inv (s\<lparr>reader := RAsleep b\<rparr>)" using inv r by (simp add: pipe_inv_def excused_def)
  moreover have "pipe_inv (s\<lparr>reader := RNext, dropped := dropped s @ [b]\<rparr>)" if "aborted ?m"
    using inv r that by (simp add: pipe_inv_def excused_def)
  moreover have "pipe_inv (notify_parser ch (s\<lparr>reader := RNext, mon := ?m\<lparr>raw_queue := raw_queue ?m @ [b]\<rparr>\<rparr>))"
    if "length (raw_queue ?m) < capacity ?m" "\<not> aborted ?m"
    by (rule pipe_inv_notify_one(2)) (use inv r rn that ch in \<open>auto simp: pipe_inv_def excused_def can_wake_kept\<close>)
  ultimately show ?thesis by (simp add: push_raw_def Let_def)
qed

lemma pop_raw_inv:
  assumes inv: "pipe_inv s" and i: "i < length (parsers s)" "parsers s ! i = PPop" and ch: "can_wake_producer ch s"
  shows "pipe_inv (pop_raw ch i s)"
proof -
  let ?m = "mon s"
  have "pipe_inv (set_parser i PAsleepPop s)" by (rule pipe_inv_parser [OF inv i(1)]) (simp_all add: i)
  moreover have "pipe_inv (set_parser i (PFinish False) s)"
    if "raw_queue ?m = [] \<or> aborted ?m" "reader_done ?m \<or> aborted ?m"
    by (rule pipe_inv_parser [OF inv i(1)]) (use i that in auto)
  moreover have "pipe_inv (notify_producer ch (set_parser i (PParse (hd (raw_queue ?m)))
      (s\<lparr>mon := ?m\<lparr>raw_queue := tl (raw_queue ?m)\<rparr>\<rparr>)))"
    if "raw_queue ?m \<noteq> []" "\<not> aborted ?m"
  proof (rule pipe_inv_notify_one(1), rule pipe_inv_parser)
    show "pipe_inv (s\<lparr>mon := ?m\<lparr>raw_queue := tl (raw_queue ?m)\<rparr>\<rparr>)"
      using inv that by (auto simp: pipe_inv_def excused_def)
    show "can_wake_producer ch (set_parser i (PParse (hd (raw_queue ?m))) (s\<lparr>mon := ?m\<lparr>raw_queue := tl (raw_queue ?m)\<rparr>\<rparr>))"
      using can_wake_kept(2) [OF ch i(1)] i(2) by simp
  qed (use i in simp_all)
  ultimately show ?thesis by (simp add: pop_raw_def Let_def)
qed

lemma push_parsed_inv:
  assumes inv: "pipe_inv s" and i: "i < length (parsers s)" "parsers s ! i = PPush b" and ch: "can_wake_consumer ch s"
  shows "pipe_inv (push_parsed ch i b s)"
proof -
  let ?m = "mon s"
  have al: "alive (parsers s) > 0" using alive_pos [OF i(1)] i(2) by simp
  have "pipe_inv (set_parser i (PAsleepPush b) s)" by (rule pipe_inv_parser [OF inv i(1)]) (simp_all add: i)
  moreover have "pipe_inv (set_parser i PPop (s\<lparr>dropped := dropped s @ [b]\<rparr>))" if "aborted ?m"
    by (rule pipe_inv_parser [OF pipe_inv_drop(1) [OF inv]]) (use i that in \<open>simp_all add: excused_def\<close>)
  moreover have "pipe_inv (notify_consumer ch (set_parser i PPop (s\<lparr>mon := ?m\<lparr>queue := queue ?m @ [b]\<rparr>\<rparr>)))"
    if "length (queue ?m) < capacity ?m" "\<not> aborted ?m"
  proof (rule pipe_inv_notify_one(3), rule pipe_inv_parser)
    show "pipe_inv (s\<lparr>mon := ?m\<lparr>queue := queue ?m @ [b]\<rparr>\<rparr>)"
      using inv that al by (auto simp: pipe_inv_def excused_def)
    show "can_wake_consumer ch (set_parser i PPop (s\<lparr>mon := ?m\<lparr>queue := queue ?m @ [b]\<rparr>\<rparr>))"
      using ch by (simp add: can_wake_kept)
  qed (use i in simp_all)
  ultimately show ?thesis by (simp add: push_parsed_def Let_def)
qed

lemma pop_parsed_inv:
  assumes inv: "pipe_inv s" and j: "j < length (consumers s)" "consumers s ! j = CPop" and ch: "can_wake_producer ch s"
  shows "pipe_inv (pop_parsed ch j s)"
proof -
  let ?m = "mon s"
  have "pipe_inv (set_consumer j CAsleep s)" by (rule pipe_inv_consumer [OF inv j(1)]) (simp_all add: j)
  moreover have "pipe_inv (set_consumer j CFlush s)"
    if "queue ?m = [] \<or> aborted ?m" "aborted ?m \<or> reader_done ?m \<and> active_parsers ?m = 0"
    by (rule pipe_inv_consumer [OF inv j(1)]) (use j that pipe_invD(3) [OF inv] in auto)
  moreover have "pipe_inv (notify_producer ch (set_consumer j (CIngest (hd (queue ?m)))
      (s\<lparr>mon := ?m\<lparr>queue := tl (queue ?m)\<rparr>\<rparr>)))"
    if "queue ?m \<noteq> []" "\<not> aborted ?m"
  proof (rule pipe_inv_notify_one(1), rule pipe_inv_consumer)
    show "pipe_inv (s\<lparr>mon := ?m\<lparr>queue := tl (queue ?m)\<rparr>\<rparr>)"
      using inv that by (auto simp: pipe_inv_def excused_def)
    show "can_wake_producer ch (set_consumer j (CIngest (hd (queue ?m))) (s\<lparr>mon := ?m\<lparr>queue := tl (queue ?m)\<rparr>\<rparr>))"
      using ch by (simp add: can_wake_kept)
  qed (use j in simp_all)
  ultimately show ?thesis by (simp add: pop_parsed_def Let_def)
qed

lemma finish_parser_inv:
  assumes inv: "pipe_inv s" and i: "i < length (parsers s)" "parsers s ! i = PFinish err"
  shows "pipe_inv (finish_parser i err s)"
proof -
  have last: "pipe_inv (set_parser i PGone (u\<lparr>mon := (mon u)\<lparr>active_parsers := active_parsers (mon u) - 1\<rparr>\<rparr>))"
    if u: "pipe_inv u" "i < length (parsers u)" "parsers u ! i = PFinish err"
      and ok: "err \<Longrightarrow> failed (mon u)" for u :: "'a pipe_system"
  proof (rule pipe_invI, goal_cases)
    case 3
    show ?case using alive_update [OF u(2), of PGone] u(3) pipe_invD(3) [OF u(1)] by simp
  next
    case 7
    have "parser_ended (parsers u) \<or> failed (mon u)"
      using ok u(2,3) by (cases err) (auto simp: parser_ended_def in_set_conv_nth)
    with pipe_invD(7) [OF u(1)] show ?case by auto
  next
    case 8
    then show ?case using pipe_invD(8) [OF u(1)] alive_pos [OF u(2)] u(3) by auto
  next
    case 9
    then have "excused u" using pipe_invD(9) [OF u(1)] by simp
    moreover have "PFinish True \<in> set (parsers u) \<Longrightarrow> failed (mon u) \<or> PFinish True \<in> set ((parsers u)[i := PGone])"
      using ok u(3) in_update [OF u(2), of "PFinish True" PGone] by (cases err) auto
    ultimately show ?case by (auto simp: excused_def)
  qed (simp_all, (rule pipe_invD [OF u(1)]; simp)+)
  show ?thesis
  proof (cases "err \<and> \<not> failed (mon s)")
    case True
    let ?t = "notify_all_producers (notify_all_parsers (s\<lparr>mon := (mon s)\<lparr>failed := True, aborted := True\<rparr>\<rparr>))"
    have "pipe_inv (s\<lparr>mon := (mon s)\<lparr>failed := True, aborted := True\<rparr>\<rparr>)"
      using inv by (simp add: pipe_inv_def excused_def)
    then have "pipe_inv ?t" by simp
    moreover have "i < length (parsers ?t)" "parsers ?t ! i = PFinish err" "failed (mon ?t)"
      using i by (simp_all add: notify_all_producers_def notify_all_parsers_def)
    ultimately show ?thesis using True last [of ?t] by (simp add: finish_parser_def Let_def)
  next
    case False
    with last [OF inv i] show ?thesis by (auto simp add: finish_parser_def Let_def)
  qed
qed

lemma pipe_inv_step:
  assumes inv: "pipe_inv s" and step: "pipe_step s s'"
  shows "pipe_inv s'"
  using step
proof cases
  case (read_batch b bs)
  with inv show ?thesis by (simp add: pipe_inv_def excused_def)
next
  case read_end
  with inv show ?thesis by (simp add: pipe_inv_def excused_def)
next
  case read_fails
  with inv show ?thesis by (simp add: pipe_inv_def excused_def)
next
  case (read_push b ch)
  with push_raw_inv [OF inv] show ?thesis by simp
next
  case (read_finish err)
  have "pipe_inv (s\<lparr>reader := RGone, mon := (if err then (mon s)\<lparr>failed := True\<rparr> else mon s)\<lparr>reader_done := True\<rparr>\<rparr>)"
  proof (rule pipe_invI, goal_cases)
    case 7
    then show ?case using pipe_invD(5,7) [OF inv] read_finish(2) by auto
  next
    case 8
    then show ?case using pipe_invD(8) [OF inv] by auto
  next
    case 9
    then show ?case using pipe_invD(9) [OF inv] read_finish(2) by (auto simp: excused_def)
  next
    case 6
    show ?case using pipe_invD(6) [OF inv] read_finish(2) by (cases err) simp_all
  qed (simp_all add: pipe_invD(1-3) [OF inv])
  with read_finish show ?thesis by (simp add: finish_reader_def Let_def)
next
  case (parse_pop i ch)
  with pop_raw_inv [OF inv] show ?thesis by simp
next
  case (parse i b)
  with pipe_inv_parser [OF inv, of i "PPush b"] show ?thesis by simp
next
  case (parse_fails i b)
  have "pipe_inv (set_parser i (PFinish True) s)"
    by (rule pipe_inv_parser [OF inv]) (simp_all add: parse_fails)
  moreover have "excused (set_parser i (PFinish True) s)"
    using parse_fails(2) by (simp add: excused_def set_update_memI)
  moreover have "s' = (set_parser i (PFinish True) s)\<lparr>dropped := dropped s @ [b]\<rparr>"
    by (cases s) (simp add: parse_fails(1))
  ultimately show ?thesis using pipe_inv_drop(1) by metis
next
  case (parse_push i b ch)
  with push_parsed_inv [OF inv] show ?thesis by simp
next
  case (parse_finish i err)
  with finish_parser_inv [OF inv] show ?thesis by simp
next
  case (consume_pop j ch)
  with pop_parsed_inv [OF inv] show ?thesis by simp
next
  case (consume j b)
  have "pipe_inv (s\<lparr>ingested := ingested s @ [b]\<rparr>)" using inv by (simp add: pipe_inv_drop(2))
  from pipe_inv_consumer [OF this, of j CPop] consume show ?thesis by simp
next
  case (consume_fails j b)
  have "pipe_inv (set_consumer j CAbort s)"
    by (rule pipe_inv_consumer [OF inv]) (simp_all add: consume_fails)
  moreover have "excused (set_consumer j CAbort s)"
    using consume_fails(2) by (simp add: excused_def set_update_memI)
  moreover have "s' = (set_consumer j CAbort s)\<lparr>dropped := dropped s @ [b]\<rparr>"
    by (cases s) (simp add: consume_fails(1))
  ultimately show ?thesis using pipe_inv_drop(1) by metis
next
  case (consume_flush j)
  have "consumer_ended (consumers s)" using consume_flush by (auto simp: consumer_ended_def in_set_conv_nth)
  with pipe_inv_consumer [OF inv, of j CGone] pipe_invD(8) [OF inv] consume_flush show ?thesis by simp
next
  case (flush_fails j)
  with pipe_inv_consumer [OF inv, of j CAbort] show ?thesis by simp
next
  case (consume_abort j)
  have "pipe_inv (set_consumer j CGone (s\<lparr>mon := (mon s)\<lparr>aborted := True, reader_done := True\<rparr>\<rparr>))"
    using inv by (simp add: pipe_inv_def excused_def)
  then show ?thesis by (simp add: consume_abort(1) abort_pipeline_def)
qed

text \<open>What stays from the start: the batches, the number of threads and the depth.\<close>

definition pipe_ok :: "'b multiset \<Rightarrow> nat \<Rightarrow> nat \<Rightarrow> nat \<Rightarrow> 'b pipe_system \<Rightarrow> bool" where
  "pipe_ok M depth np nc s \<longleftrightarrow> pipe_inv s \<and> places s = M \<and> capacity (mon s) = depth \<and>
     length (parsers s) = np \<and> length (consumers s) = nc"

lemma notify_lengths [simp]:
  "length (parsers (notify_all_producers s)) = length (parsers s)"
  "length (parsers (notify_all_parsers s)) = length (parsers s)"
  "length (parsers (notify_all_consumers s)) = length (parsers s)"
  "length (parsers (notify_producer ch s)) = length (parsers s)"
  "length (parsers (notify_parser ch s)) = length (parsers s)"
  "length (parsers (notify_consumer ch s)) = length (parsers s)"
  "length (consumers (notify_all_producers s)) = length (consumers s)"
  "length (consumers (notify_all_parsers s)) = length (consumers s)"
  "length (consumers (notify_all_consumers s)) = length (consumers s)"
  "length (consumers (notify_producer ch s)) = length (consumers s)"
  "length (consumers (notify_parser ch s)) = length (consumers s)"
  "length (consumers (notify_consumer ch s)) = length (consumers s)"
  by (cases ch; simp add: notify_all_producers_def notify_all_parsers_def notify_all_consumers_def
      notify_producer_def notify_parser_def notify_consumer_def)+

lemma pipe_step_shape:
  "pipe_step s s' \<Longrightarrow> capacity (mon s') = capacity (mon s) \<and> length (parsers s') = length (parsers s) \<and>
     length (consumers s') = length (consumers s)"
  by (erule pipe_step.cases)
    (simp_all add: push_raw_def pop_raw_def push_parsed_def pop_parsed_def finish_reader_def finish_parser_def
      abort_pipeline_def Let_def)

lemma alive_start: "alive (replicate n PPop) = n"
  by (simp add: alive_def)

interpretation pipes: inductive_invariant "(=) (start_pipeline depth np nc bs)" pipe_step
  "pipe_ok (mset bs) depth np nc" for depth np nc bs
proof
  fix s assume s: "start_pipeline depth np nc bs = s"
  have "concat (map parser_holds (replicate np PPop)) = []" "concat (map consumer_holds (replicate nc CPop)) = []" by simp_all
  then show "pipe_ok (mset bs) depth np nc s"
    unfolding s [symmetric] pipe_ok_def
    by (auto simp: start_pipeline_def pipe_inv_def places_def in_flight_batches_def parser_ended_def consumer_ended_def
      alive_start)
next
  fix s t assume "pipe_ok (mset bs) depth np nc s" "pipe_step s t"
  then show "pipe_ok (mset bs) depth np nc t"
    using pipe_inv_step pipe_step_places pipe_step_shape unfolding pipe_ok_def by metis
qed

section \<open>Small pipelines\<close>

text \<open>A pipeline of depth one with one parser and one consumer whose reader is done.\<close>

definition narrow_end ::
    "nat \<Rightarrow> 'b list \<Rightarrow> 'b list \<Rightarrow> 'b reader_phase \<Rightarrow> 'b parser_phase \<Rightarrow> 'b consumer_phase \<Rightarrow> 'b list \<Rightarrow> 'b pipe_system" where
  "narrow_end act raw q r p c ing =
     \<lparr>mon = \<lparr>capacity = 1, raw_queue = raw, queue = q, active_parsers = act, reader_done = True,
        aborted = False, failed = False\<rparr>,
      batches_left = [], reader = r, parsers = [p], consumers = [c], ingested = ing, dropped = []\<rparr>"

text \<open>A pipeline of depth one with one parser and one consumer.\<close>

definition narrow ::
    "'b list \<Rightarrow> 'b list \<Rightarrow> 'b list \<Rightarrow> 'b reader_phase \<Rightarrow> 'b parser_phase \<Rightarrow> 'b consumer_phase \<Rightarrow> 'b list \<Rightarrow> 'b pipe_system" where
  "narrow left raw q r p c ing =
     \<lparr>mon = \<lparr>capacity = 1, raw_queue = raw, queue = q, active_parsers = 1, reader_done = False,
        aborted = False, failed = False\<rparr>,
      batches_left = left, reader = r, parsers = [p], consumers = [c], ingested = ing, dropped = []\<rparr>"

lemma narrow_reader:
  "pipe_step (narrow (b # bs) raw q RNext p c ing) (narrow bs raw q (RPush b) p c ing)"
  "p \<noteq> PAsleepPop \<Longrightarrow> pipe_step (narrow bs [] q (RPush b) p c ing) (narrow bs [b] q RNext p c ing)"
  "p \<noteq> PAsleepPop \<Longrightarrow> pipe_step (narrow bs [x] q (RPush b) p c ing) (narrow bs [x] q (RAsleep b) p c ing)"
proof -
  show "pipe_step (narrow (b # bs) raw q RNext p c ing) (narrow bs raw q (RPush b) p c ing)"
    using pipe_step.read_batch [of "narrow (b # bs) raw q RNext p c ing"] by (simp add: narrow_def)
  assume "p \<noteq> PAsleepPop"
  then have ch: "can_wake_parser Nobody (narrow bs raw q r p c ing)" for raw r
    by (auto simp: can_wake_parser_def narrow_def)
  show "pipe_step (narrow bs [] q (RPush b) p c ing) (narrow bs [b] q RNext p c ing)"
    using pipe_step.read_push [OF _ ch, of "[]" "RPush b" b]
    by (simp add: push_raw_def notify_parser_def narrow_def)
  show "pipe_step (narrow bs [x] q (RPush b) p c ing) (narrow bs [x] q (RAsleep b) p c ing)"
    using pipe_step.read_push [OF _ ch, of "[x]" "RPush b" b]
    by (simp add: push_raw_def narrow_def)
qed

lemma narrow_parser:
  "(\<And>x. r \<noteq> RAsleep x) \<Longrightarrow> pipe_step (narrow bs [b] q r PPop c ing) (narrow bs [] q r (PParse b) c ing)"
  "pipe_step (narrow bs raw q r (PParse b) c ing) (narrow bs raw q r (PPush b) c ing)"
  "c \<noteq> CAsleep \<Longrightarrow> pipe_step (narrow bs raw [] r (PPush b) c ing) (narrow bs raw [b] r PPop c ing)"
  "c \<noteq> CAsleep \<Longrightarrow> pipe_step (narrow bs raw [x] r (PPush b) c ing) (narrow bs raw [x] r (PAsleepPush b) c ing)"
proof -
  show "pipe_step (narrow bs raw q r (PParse b) c ing) (narrow bs raw q r (PPush b) c ing)"
    using pipe_step.parse [of 0 "narrow bs raw q r (PParse b) c ing" b] by (simp add: narrow_def)
  show "pipe_step (narrow bs [b] q r PPop c ing) (narrow bs [] q r (PParse b) c ing)" if "\<And>x. r \<noteq> RAsleep x"
    using pipe_step.parse_pop [of 0 "narrow bs [b] q r PPop c ing" Nobody] that
    by (simp add: pop_raw_def notify_producer_def can_wake_producer_def narrow_def)
  assume "c \<noteq> CAsleep"
  then have ch: "can_wake_consumer Nobody (narrow bs raw q r p c ing)" for q p
    by (auto simp: can_wake_consumer_def narrow_def)
  show "pipe_step (narrow bs raw [] r (PPush b) c ing) (narrow bs raw [b] r PPop c ing)"
    using pipe_step.parse_push [OF _ _ ch, of 0 "[]" "PPush b" b]
    by (simp add: push_parsed_def notify_consumer_def narrow_def)
  show "pipe_step (narrow bs raw [x] r (PPush b) c ing) (narrow bs raw [x] r (PAsleepPush b) c ing)"
    using pipe_step.parse_push [OF _ _ ch, of 0 "[x]" "PPush b" b]
    by (simp add: push_parsed_def narrow_def)
qed

text \<open>The consumer makes room in its queue, and the notification goes to the reader.\<close>

lemma narrow_consumer:
  "pipe_step (narrow bs raw [x] (RAsleep b) p CPop ing) (narrow bs raw [] (RPush b) p (CIngest x) ing)"
  "pipe_step (narrow bs raw q r p (CIngest x) ing) (narrow bs raw q r p CPop (ing @ [x]))"
  "pipe_step (narrow bs raw [] (RAsleep b) p CPop ing) (narrow bs raw [] (RAsleep b) p CAsleep ing)"
proof -
  show "pipe_step (narrow bs raw q r p (CIngest x) ing) (narrow bs raw q r p CPop (ing @ [x]))"
    using pipe_step.consume [of 0 "narrow bs raw q r p (CIngest x) ing" x] by (simp add: narrow_def)
  show "pipe_step (narrow bs raw [x] (RAsleep b) p CPop ing) (narrow bs raw [] (RPush b) p (CIngest x) ing)"
    using pipe_step.consume_pop [of 0 "narrow bs raw [x] (RAsleep b) p CPop ing" TheReader]
    by (simp add: pop_parsed_def notify_producer_def can_wake_producer_def narrow_def)
  show "pipe_step (narrow bs raw [] (RAsleep b) p CPop ing) (narrow bs raw [] (RAsleep b) p CAsleep ing)"
    using pipe_step.consume_pop [of 0 "narrow bs raw [] (RAsleep b) p CPop ing" TheReader]
    by (simp add: pop_parsed_def can_wake_producer_def narrow_def)
qed

lemma narrow_stuck: "\<not> pipe_step (narrow bs raw q (RAsleep b) (PAsleepPush x) CAsleep ing) t"
  by (auto elim!: pipe_step.cases simp: narrow_def)

text \<open>One batch goes through and every thread ends.\<close>

lemma narrow_run: "pipe_step\<^sup>*\<^sup>* (start_pipeline 1 1 1 [b]) (narrow_end 0 [] [] RGone PGone CGone [b])"
proof -
  note defs = narrow_def narrow_end_def push_raw_def pop_raw_def push_parsed_def pop_parsed_def finish_reader_def
    finish_parser_def notify_producer_def notify_parser_def notify_consumer_def can_wake_producer_def
    can_wake_parser_def can_wake_consumer_def notify_all_parsers_def notify_all_consumers_def start_pipeline_def
  have "start_pipeline 1 1 1 [b] = narrow [b] [] [] RNext PPop CPop []" by (simp add: defs)
  also have "pipe_step\<^sup>*\<^sup>* (narrow [b] [] [] RNext PPop CPop []) (narrow [] [] [] (RPush b) PPop CPop [])"
    by (intro r_into_rtranclp narrow_reader)
  also have "pipe_step (narrow [] [] [] (RPush b) PPop CPop []) (narrow [] [b] [] RNext PPop CPop [])"
    by (rule narrow_reader) simp
  also have "pipe_step (narrow [] [b] [] RNext PPop CPop []) (narrow [] [b] [] (RFinish False) PPop CPop [])"
    using pipe_step.read_end [of "narrow [] [b] [] RNext PPop CPop []"] by (simp add: defs)
  also have "pipe_step (narrow [] [b] [] (RFinish False) PPop CPop []) (narrow_end 1 [b] [] RGone PPop CPop [])"
    using pipe_step.read_finish [of "narrow [] [b] [] (RFinish False) PPop CPop []" False] by (simp add: defs)
  also have "pipe_step (narrow_end 1 [b] [] RGone PPop CPop []) (narrow_end 1 [] [] RGone (PParse b) CPop [])"
    using pipe_step.parse_pop [of 0 "narrow_end 1 [b] [] RGone PPop CPop []" Nobody] by (simp add: defs)
  also have "pipe_step (narrow_end 1 [] [] RGone (PParse b) CPop []) (narrow_end 1 [] [] RGone (PPush b) CPop [])"
    using pipe_step.parse [of 0 "narrow_end 1 [] [] RGone (PParse b) CPop []"] by (simp add: defs)
  also have "pipe_step (narrow_end 1 [] [] RGone (PPush b) CPop []) (narrow_end 1 [] [b] RGone PPop CPop [])"
    using pipe_step.parse_push [of 0 "narrow_end 1 [] [] RGone (PPush b) CPop []" b Nobody] by (simp add: defs)
  also have "pipe_step (narrow_end 1 [] [b] RGone PPop CPop []) (narrow_end 1 [] [b] RGone (PFinish False) CPop [])"
    using pipe_step.parse_pop [of 0 "narrow_end 1 [] [b] RGone PPop CPop []" Nobody] by (simp add: defs)
  also have "pipe_step (narrow_end 1 [] [b] RGone (PFinish False) CPop []) (narrow_end 0 [] [b] RGone PGone CPop [])"
    using pipe_step.parse_finish [of 0 "narrow_end 1 [] [b] RGone (PFinish False) CPop []" False] by (simp add: defs)
  also have "pipe_step (narrow_end 0 [] [b] RGone PGone CPop []) (narrow_end 0 [] [] RGone PGone (CIngest b) [])"
    using pipe_step.consume_pop [of 0 "narrow_end 0 [] [b] RGone PGone CPop []" Nobody] by (simp add: defs)
  also have "pipe_step (narrow_end 0 [] [] RGone PGone (CIngest b) []) (narrow_end 0 [] [] RGone PGone CPop [b])"
    using pipe_step.consume [of 0 "narrow_end 0 [] [] RGone PGone (CIngest b) []"] by (simp add: defs)
  also have "pipe_step (narrow_end 0 [] [] RGone PGone CPop [b]) (narrow_end 0 [] [] RGone PGone CFlush [b])"
    using pipe_step.consume_pop [of 0 "narrow_end 0 [] [] RGone PGone CPop [b]" Nobody] by (simp add: defs)
  also have "pipe_step (narrow_end 0 [] [] RGone PGone CFlush [b]) (narrow_end 0 [] [] RGone PGone CGone [b])"
    using pipe_step.consume_flush [of 0 "narrow_end 0 [] [] RGone PGone CFlush [b]"] by (simp add: defs)
  finally show ?thesis .
qed

section \<open>Properties\<close>

text \<open>
  Property C24: the file pipeline loses no batch and duplicates none. However the threads
  interleave and whichever waiters are notified, every batch is at every moment in one place,
  the two queues never exceed the depth, and once all threads are gone without an error or an
  abort every batch has been ingested exactly once.
\<close>

theorem pipeline_ingests_every_batch:
  assumes "pipe_step\<^sup>*\<^sup>* (start_pipeline depth np nc bs) s"
  shows "mset (batches_left s) + mset (in_flight_batches s) + mset (ingested s) + mset (dropped s) = mset bs \<and>
    length (raw_queue (mon s)) \<le> depth \<and> length (queue (mon s)) \<le> depth \<and>
    (np > 0 \<longrightarrow> nc > 0 \<longrightarrow> reader s = RGone \<longrightarrow> set (parsers s) = {PGone} \<longrightarrow> set (consumers s) = {CGone} \<longrightarrow>
       \<not> failed (mon s) \<longrightarrow> \<not> aborted (mon s) \<longrightarrow> mset (ingested s) = mset bs)"
proof -
  have "pipe_ok (mset bs) depth np nc s" by (rule pipes.inv_reachable [OF refl assms])
  then have inv: "pipe_inv s" and p: "places s = mset bs" and cap: "capacity (mon s) = depth"
    by (simp_all add: pipe_ok_def)
  have "mset (ingested s) = mset bs"
    if "reader s = RGone" "set (parsers s) = {PGone}" "set (consumers s) = {CGone}" "\<not> failed (mon s)" "\<not> aborted (mon s)"
  proof -
    have "dropped s = []" using pipe_invD(9) [OF inv] that by (auto simp: excused_def)
    moreover have "batches_left s = []" using pipe_invD(6) [OF inv] that(1) by simp
    moreover have "raw_queue (mon s) = []" "queue (mon s) = []"
      using pipe_invD(7,8) [OF inv] that by (auto simp: parser_ended_def consumer_ended_def)
    moreover have "concat (map parser_holds (parsers s)) = []" "concat (map consumer_holds (consumers s)) = []"
      using that(2,3) by auto
    ultimately have "in_flight_batches s = []"
      unfolding in_flight_batches_def by (simp only: that(1) reader_holds.simps append.simps)
    with p \<open>dropped s = []\<close> \<open>batches_left s = []\<close> show ?thesis by (simp add: places_def)
  qed
  then show ?thesis using p cap pipe_invD(1,2) [OF inv] by (simp add: places_def)
qed

theorem pipeline_ingests_every_batch_witness:
  "\<exists>s. pipe_step\<^sup>*\<^sup>* (start_pipeline 1 1 1 [''a'']) s \<and> reader s = RGone \<and> set (parsers s) = {PGone} \<and>
     set (consumers s) = {CGone} \<and> \<not> failed (mon s) \<and> \<not> aborted (mon s) \<and> mset (ingested s) = {#''a''#}"
proof (intro exI conjI)
  let ?s = "narrow_end 0 [] [] RGone PGone CGone [''a'']"
  show run: "pipe_step\<^sup>*\<^sup>* (start_pipeline 1 1 1 [''a'']) ?s" by (rule narrow_run)
  show "reader ?s = RGone" "set (parsers ?s) = {PGone}" "set (consumers ?s) = {CGone}"
      "\<not> failed (mon ?s)" "\<not> aborted (mon ?s)"
    by (simp_all add: narrow_end_def)
  then show "mset (ingested ?s) = {#''a''#}" using pipeline_ingests_every_batch [OF run] by simp
qed

text \<open>
  The pipeline can stop for ever. The reader and the parsers wait on one condition
  variable for different queues, and a pop notifies one of them only. With depth one and one
  parser, a wake-up meant for the parser can go to the reader, which finds its own queue still
  full: then every thread sleeps though the parsed queue is empty, no error was met, and
  batches are left.
\<close>

theorem pipeline_can_stall:
  "\<exists>s. pipe_step\<^sup>*\<^sup>* (start_pipeline 1 1 1 [b1, b2, b3, b4]) s \<and> (\<nexists>s'. pipe_step s s') \<and>
     queue (mon s) = [] \<and> ingested s = [b1] \<and> in_flight_batches s = [b4, b3, b2] \<and>
     \<not> failed (mon s) \<and> \<not> aborted (mon s)"
proof -
  note run = rtranclp.rtrancl_into_rtrancl [of pipe_step]
  let ?s = "narrow [] [b3] [] (RAsleep b4) (PAsleepPush b2) CAsleep [b1]"
  have "start_pipeline 1 1 1 [b1, b2, b3, b4] = narrow [b1, b2, b3, b4] [] [] RNext PPop CPop []"
    by (simp add: start_pipeline_def narrow_def)
  then have "pipe_step\<^sup>*\<^sup>* (start_pipeline 1 1 1 [b1, b2, b3, b4]) (narrow [b1, b2, b3, b4] [] [] RNext PPop CPop [])"
    by simp
  from run [OF run [OF run [OF run [OF run [OF this narrow_reader(1)] narrow_reader(2)] narrow_parser(1)]
        narrow_parser(2)] narrow_parser(3)]
  have "pipe_step\<^sup>*\<^sup>* (start_pipeline 1 1 1 [b1, b2, b3, b4]) (narrow [b2, b3, b4] [] [b1] RNext PPop CPop [])"
    by simp
  from run [OF run [OF run [OF run [OF run [OF this narrow_reader(1)] narrow_reader(2)] narrow_parser(1)]
        narrow_parser(2)] narrow_parser(4)]
  have "pipe_step\<^sup>*\<^sup>* (start_pipeline 1 1 1 [b1, b2, b3, b4]) (narrow [b3, b4] [] [b1] RNext (PAsleepPush b2) CPop [])"
    by simp
  from run [OF run [OF run [OF run [OF this narrow_reader(1)] narrow_reader(2)] narrow_reader(1)] narrow_reader(3)]
  have "pipe_step\<^sup>*\<^sup>* (start_pipeline 1 1 1 [b1, b2, b3, b4]) (narrow [] [b3] [b1] (RAsleep b4) (PAsleepPush b2) CPop [])"
    by simp
  from run [OF run [OF run [OF run [OF this narrow_consumer(1)] narrow_reader(3)] narrow_consumer(2)] narrow_consumer(3)]
  have "pipe_step\<^sup>*\<^sup>* (start_pipeline 1 1 1 [b1, b2, b3, b4]) ?s" by simp
  moreover have "queue (mon ?s) = [] \<and> ingested ?s = [b1] \<and> in_flight_batches ?s = [b4, b3, b2] \<and>
      \<not> failed (mon ?s) \<and> \<not> aborted (mon ?s)"
    by (simp add: narrow_def in_flight_batches_def)
  ultimately show ?thesis using narrow_stuck [of "[]" "[b3]" "[]" b4 b2 "[b1]"] by (intro exI [of _ ?s]) blast
qed

end
