(* ===== verification/Transforms.thy ===== *)
theory Transforms
  imports Payload "HOL-Library.RBT" "HOL-Library.List_Lexorder" "HOL-Library.Char_ord"
begin

text \<open>
  Ingest-time transforms (\<^verbatim>\<open>raw_json.cpp\<close>, lines 593 to 626, and
  \<^verbatim>\<open>raw_transforms.cpp\<close>): the built-in names, the registry of user-defined ones (a
  \<^verbatim>\<open>std::map\<close> from folded name to dotted path) and the resolution of both.
\<close>

section \<open>Built-in transforms\<close>

definition raw_builtin_transforms :: "(string \<times> string) list" where
  "raw_builtin_transforms =
     [(''cloudwatch-logs'', ''logEvents''),
      (''cloudtrail'', ''Records''),
      (''firehose'', ''records''),
      (''otlp-traces'', ''resourceSpans.scopeSpans.spans''),
      (''otlp-logs'', ''resourceLogs.scopeLogs.logRecords''),
      (''otlp-metrics'', ''resourceMetrics.scopeMetrics.metrics'')]"

definition resolve_builtin_transform :: "string \<Rightarrow> string option" where
  "resolve_builtin_transform name = map_of raw_builtin_transforms (lower name)"

definition starts_with :: "string \<Rightarrow> string \<Rightarrow> bool" where
  "starts_with s prefix \<longleftrightarrow> take (length prefix) s = prefix"

definition raw_transform_is_otlp :: "string \<Rightarrow> bool" where
  "raw_transform_is_otlp name \<longleftrightarrow> starts_with (lower name) ''otlp-''"

text \<open>
  \<^verbatim>\<open>StringUtil::Split\<close> reads pieces with \<^verbatim>\<open>std::getline\<close>: nothing follows a delimiter at
  the end of the text.
\<close>

fun split_string :: "char \<Rightarrow> string \<Rightarrow> string list" where
  "split_string d [] = []"
| "split_string d (c # cs) =
     (if c = d then [] # split_string d cs
      else case split_string d cs of
        [] \<Rightarrow> [[c]]
      | p # ps \<Rightarrow> (c # p) # ps)"

definition raw_explode_options :: "string \<Rightarrow> parse_options" where
  "raw_explode_options path =
     (if path \<noteq> [] then default_options\<lparr>explode_path := split_string (CHR ''.'') path\<rparr>
      else default_options)"

section \<open>The registry\<close>

type_synonym registry = "(string, string) rbt"

definition resolve_transform :: "registry \<Rightarrow> string \<Rightarrow> string \<Rightarrow> parse_options result" where
  "resolve_transform reg transform explode =
     (if transform \<noteq> [] \<and> explode \<noteq> []
      then Inl (InvalidInput ''specify either transform or explode, not both'')
      else
        let is_otlp = (transform \<noteq> [] \<and> raw_transform_is_otlp transform) in
        bind_result
          (if transform = [] then Inr explode
           else case resolve_builtin_transform transform of
             Some path \<Rightarrow> Inr path
           | None \<Rightarrow>
               (case RBT.lookup reg (lower transform) of
                  None \<Rightarrow> Inl (InvalidInput ''unknown transform'')
                | Some path \<Rightarrow> Inr path))
          (\<lambda>path. Inr ((raw_explode_options path)\<lparr>otlp := is_otlp\<rparr>)))"

text \<open>One row of \<^verbatim>\<open>raw_transform_define\<close>; the result column has the name.\<close>

definition raw_transform_define :: "registry \<Rightarrow> string \<Rightarrow> string \<Rightarrow> (registry \<times> string) result" where
  "raw_transform_define reg name path =
     (if name = [] \<or> path = []
      then Inl (InvalidInput ''transform name and explode path may not be empty'')
      else if resolve_builtin_transform name \<noteq> None
      then Inl (InvalidInput ''built-in transform cannot be redefined'')
      else Inr (RBT.insert (lower name) path reg, name))"

text \<open>\<^verbatim>\<open>raw_transforms()\<close>: the entries and their emission in vectors.\<close>

definition raw_transforms_init :: "registry \<Rightarrow> (string \<times> string \<times> bool) list" where
  "raw_transforms_init reg =
     map (\<lambda>(n, p). (n, p, True)) raw_builtin_transforms
     @ map (\<lambda>(n, p). (n, p, False)) (RBT.entries reg)"

section \<open>Properties\<close>

text \<open>
  A definition takes effect for its own name only. After
  \<^verbatim>\<open>raw_transform_define\<close> succeeds the name resolves, in any case, to the path it was given
  and every other name resolves as before; built-in names resolve to their paths always.
\<close>

theorem define_then_resolve:
  assumes "raw_transform_define reg name path = Inr (reg', shown)"
  shows "\<forall>n e. resolve_transform reg' n e =
    (if lower n = lower name \<and> e = []
     then Inr ((raw_explode_options path)\<lparr>otlp := raw_transform_is_otlp name\<rparr>)
     else resolve_transform reg n e)"
proof (intro allI)
  fix n e
  have reg': "reg' = RBT.insert (lower name) path reg" and name: "name \<noteq> []"
    and builtin: "map_of raw_builtin_transforms (lower name) = None"
    using assms by (auto simp: raw_transform_define_def resolve_builtin_transform_def split: if_splits)
  have empty: "lower n = [] \<longleftrightarrow> n = []" for n by (simp add: lower_def)
  show "resolve_transform reg' n e =
    (if lower n = lower name \<and> e = []
     then Inr ((raw_explode_options path)\<lparr>otlp := raw_transform_is_otlp name\<rparr>)
     else resolve_transform reg n e)"
  proof (cases "lower n = lower name")
    case True
    then have "n \<noteq> []" using name empty by metis
    with True builtin show ?thesis
      by (simp add: resolve_transform_def reg' resolve_builtin_transform_def raw_transform_is_otlp_def)
  next
    case False
    then have "RBT.lookup reg' (lower n) = RBT.lookup reg (lower n)" by (simp add: reg')
    with False show ?thesis unfolding resolve_transform_def by presburger
  qed
qed

theorem define_then_resolve_witness:
  "resolve_transform (RBT.insert ''logs'' ''a.b'' RBT.empty) ''LOGS'' [] =
     Inr \<lparr>ignore_errors = False, explode_path = [''a'', ''b''], otlp = False\<rparr>"
proof -
  have low: "lower ''Logs'' = ''logs''" "lower ''LOGS'' = ''logs''" by code_simp+
  have "raw_transform_define RBT.empty ''Logs'' ''a.b'' =
      Inr (RBT.insert ''logs'' ''a.b'' RBT.empty, ''Logs'')"
    by (simp only: raw_transform_define_def resolve_builtin_transform_def raw_builtin_transforms_def
        low) simp
  from define_then_resolve [OF this]
  have "resolve_transform (RBT.insert ''logs'' ''a.b'' RBT.empty) ''LOGS'' [] =
      Inr ((raw_explode_options ''a.b'')\<lparr>otlp := raw_transform_is_otlp ''Logs''\<rparr>)"
    by (simp only: low) simp
  moreover have "(raw_explode_options ''a.b'')\<lparr>otlp := raw_transform_is_otlp ''Logs''\<rparr> =
      \<lparr>ignore_errors = False, explode_path = [''a'', ''b''], otlp = False\<rparr>"
    by code_simp
  ultimately show ?thesis by simp
qed

end
