(* ===== verification/Records.thy ===== *)
theory Records
  imports Ingest_Spec Transforms
begin

text \<open>
  \<^verbatim>\<open>raw_records\<close> (\<^verbatim>\<open>raw_records.cpp\<close>) and the scalar functions \<^verbatim>\<open>raw_type\<close> and
  \<^verbatim>\<open>raw_infer\<close> (\<^verbatim>\<open>raw_scalars.cpp\<close>): the rows and the types of a payload without a table. The
  engine calls the table function until it returns no row. How DuckDB writes a type as text is
  a parameter.
\<close>

section \<open>Binding\<close>

text \<open>Named parameters; None when absent or NULL.\<close>

record ingest_parameters =
  ptransform :: "string option"
  pexplode :: "string option"
  pignore_errors :: "bool option"

definition raw_named_string_parameter :: "string option \<Rightarrow> string" where
  "raw_named_string_parameter entry = (case entry of None \<Rightarrow> [] | Some s \<Rightarrow> s)"

definition raw_bind_parse_options :: "registry \<Rightarrow> ingest_parameters \<Rightarrow> parse_options result" where
  "raw_bind_parse_options reg ps =
     bind_result
       (resolve_transform reg (raw_named_string_parameter (ptransform ps)) (raw_named_string_parameter (pexplode ps)))
       (\<lambda>opts. Inr (case pignore_errors ps of None \<Rightarrow> opts | Some b \<Rightarrow> opts\<lparr>ignore_errors := b\<rparr>))"

text \<open>What the bind keeps, and the columns of the result.\<close>

definition raw_records_bind ::
    "lib \<Rightarrow> registry \<Rightarrow> ingest_parameters \<Rightarrow> string option \<Rightarrow> (parsed_payload \<times> (string \<times> logical_type) list) result option" where
  "raw_records_bind L reg ps payload_str =
     (case payload_str of
        None \<Rightarrow> Some (Inl (InvalidInput ''RawDuck: payload may not be NULL''))
      | Some text \<Rightarrow>
          (case raw_bind_parse_options reg ps of
             Inl e \<Rightarrow> Some (Inl e)
           | Inr opts \<Rightarrow>
               map_option (\<lambda>r. bind_result r (\<lambda>p.
                   if pcolumns p = []
                   then Inr (p\<lparr>payload := (payload p)\<lparr>prows := []\<rparr>\<rparr>, [(''value'', TJson)])
                   else Inr (p, map (\<lambda>c. (cname c, ctype c)) (pcolumns p))))
                 (process_payload L opts text)))"

section \<open>Scan\<close>

text \<open>One call from row \<open>next_row\<close> on: the rows it returns and the next row.\<close>

definition records_call :: "lib \<Rightarrow> parsed_payload \<Rightarrow> nat \<Rightarrow> (cell list list \<times> nat) result" where
  "records_call L p next_row =
     (let n = min (length (prows (payload p)) - next_row) STANDARD_VECTOR_SIZE in
      bind_result (extract_batch (proot p) (pcolumns p) (take n (drop next_row (prows (payload p))))) (\<lambda>e.
        map_sum id (\<lambda>chunk. (map (\<lambda>i. map (\<lambda>col. col ! i) chunk) [0..<n], next_row + n))
          (map_result (\<lambda>(c, vals). map_sum id cells (fill_vector L vals (ctype c) (new_vec (ctype c)) 0))
            (zip (pcolumns p) (slots e)))))"

lemma records_call_advances:
  "records_call L p next_row = Inr (out, next') \<Longrightarrow> next' = next_row + length out"
  "records_call L p next_row = Inr (out, next') \<Longrightarrow> length out \<le> length (prows (payload p)) - next_row"
  by (auto simp: records_call_def map_sum_Inr_iff Let_def)

function records_scan :: "lib \<Rightarrow> parsed_payload \<Rightarrow> nat \<Rightarrow> cell list list result" where
  "records_scan L p next_row =
     (case records_call L p next_row of
        Inl e \<Rightarrow> Inl e
      | Inr (out, next') \<Rightarrow> if out = [] then Inr [] else map_sum id (\<lambda>rest. out @ rest) (records_scan L p next'))"
  by pat_completeness auto
termination
proof (relation "measure (\<lambda>(L, p, next_row). length (prows (payload p)) - next_row)", goal_cases)
  case (2 L p next_row r out next')
  then have "records_call L p next_row = Inr (out, next')" by simp
  from records_call_advances [OF this] 2(3) show ?case by (cases out) auto
qed simp

declare records_scan.simps [simp del]

section \<open>Scalar functions\<close>

definition raw_type :: "lib \<Rightarrow> string \<Rightarrow> string" where
  "raw_type L input =
     (case read_json L input of
        None \<Rightarrow> ''String''
      | Some v \<Rightarrow>
          (case v of
             JNull \<Rightarrow> ''Null''
           | JBool b \<Rightarrow> ''Bool''
           | JReal r \<Rightarrow> ''Double''
           | JUint u \<Rightarrow> if unat u > int64_max then ''UInt64'' else ''Int64''
           | JSint i \<Rightarrow> ''Int64''
           | JStr s \<Rightarrow> ''String''
           | JArr vs \<Rightarrow> ''Array''
           | JObj ms \<Rightarrow> ''Object''))"

fun comma_joined :: "string list \<Rightarrow> string" where
  "comma_joined [] = []"
| "comma_joined [x] = x"
| "comma_joined (x # xs) = x @ '', '' @ comma_joined xs"

definition raw_infer :: "lib \<Rightarrow> (logical_type \<Rightarrow> string) \<Rightarrow> string \<Rightarrow> string result" where
  "raw_infer L type_text input =
     (case read_json L input of
        None \<Rightarrow> Inr ''VARCHAR''
      | Some v \<Rightarrow>
          (let root = merge_value L new_node v in
           if nclass root = NC_OBJECT
           then map_sum id (\<lambda>cols. ''OBJECT('' @ comma_joined (map (\<lambda>c. cname c @ '' '' @ type_text (ctype c)) cols) @ '')'')
                  (flatten_schema root False)
           else Inr (type_text (node_to_type root))))"

section \<open>Facts\<close>

text \<open>The cell of a payload row in a column of the payload's own type.\<close>

definition own_cell :: "lib \<Rightarrow> json \<Rightarrow> raw_column \<Rightarrow> cell" where
  "own_cell L row c = projr (cell_in L (ctype c) c row)"

definition own_columns :: "raw_column list \<Rightarrow> tcolumn list" where
  "own_columns cs = map (\<lambda>c. (cname c, ctype c)) cs"

text \<open>A row with a value that cannot be written into a column of the payload's own type.\<close>

definition own_unwritable :: "lib \<Rightarrow> raw_column list \<Rightarrow> json \<Rightarrow> bool" where
  "own_unwritable L cs row \<longleftrightarrow> row_unwritable L (own_columns cs) cs row"

lemma own_unwritable_iff:
  assumes "distinct (map (lower \<circ> cname) cs)"
  shows "own_unwritable L cs row \<longleftrightarrow> (\<exists>c \<in> set cs. \<exists>w. value_at c row = Some w \<and> unwritable L (ctype c) w)"
  using column_named_slot [OF assms _ refl]
  by (force simp: own_unwritable_def row_unwritable_def own_columns_def list_ex_iff split: option.splits)

lemma own_cell_in:
  assumes "raw_fill_supported (ctype c)" "\<forall>w. value_at c row = Some w \<longrightarrow> \<not> unwritable L (ctype c) w"
  shows "cell_in L (ctype c) c row = Inr (own_cell L row c)"
proof -
  have "\<exists>x. cell_in L (ctype c) c row = Inr x"
    unfolding cell_in_filled [OF assms(1)] using assms(2) fill_value_ex [of L "ctype c"]
    by (cases "value_at c row") (simp_all add: fill_value_None)
  then show ?thesis by (auto simp: own_cell_def)
qed

lemma own_rows:
  assumes "\<forall>c \<in> set cs. raw_fill_supported (ctype c)" "distinct (map (lower \<circ> cname) cs)"
    and "\<not> own_unwritable L cs row"
  shows "row_cells L (own_columns cs) cs row = Inr (map (own_cell L row) cs)"
proof -
  have "map_result (\<lambda>c. case column_named cs (cname c) of None \<Rightarrow> Inr CNull | Some d \<Rightarrow> cell_in L (ctype c) d row) cs =
      Inr (map (own_cell L row) cs)"
  proof (rule map_result_Inr)
    fix c assume c: "c \<in> set cs"
    have "cell_in L (ctype c) c row = Inr (own_cell L row c)"
      using assms c own_unwritable_iff [OF assms(2)] by (intro own_cell_in) blast+
    with c column_named_slot [OF assms(2) _ refl] show
      "(case column_named cs (cname c) of None \<Rightarrow> Inr CNull | Some d \<Rightarrow> cell_in L (ctype c) d row) = Inr (own_cell L row c)"
      by simp
  qed
  then show ?thesis by (simp add: row_cells_def own_columns_def map_result_map comp_def)
qed

lemma own_fill:
  "raw_fill_supported (ctype c) \<Longrightarrow>
     map_sum id cells (fill_vector L vals (ctype c) (new_vec (ctype c)) 0) = fill_slot L (ctype c) (ctype c) vals"
  by (simp add: fill_slot_def del: raw_fill_supported.simps)

definition records_chunk :: "parsed_payload \<Rightarrow> nat \<Rightarrow> json list" where
  "records_chunk p k = take (min (length (prows (payload p)) - k) STANDARD_VECTOR_SIZE) (drop k (prows (payload p)))"

lemma records_call_rows:
  assumes "payload_ok p" "\<forall>c \<in> set (pcolumns p). raw_fill_supported (ctype c)"
  shows "records_call L p k =
    (if \<exists>row \<in> set (records_chunk p k). own_unwritable L (pcolumns p) row then Inl serialize_error
     else Inr (map (\<lambda>row. map (own_cell L row) (pcolumns p)) (records_chunk p k), k + length (records_chunk p k)))"
proof -
  let ?rows = "records_chunk p k" and ?cs = "pcolumns p"
  have dc: "distinct (map (lower \<circ> cname) ?cs)" using assms(1) unfolding payload_ok_def by blast
  have len: "length ?rows = min (length (prows (payload p)) - k) STANDARD_VECTOR_SIZE" by (simp add: records_chunk_def)
  obtain e where e: "extract_batch (proot p) ?cs ?rows = Inr e"
      "slots e = map (\<lambda>c. map (value_at c) ?rows) ?cs"
    using assms(1) unfolding payload_ok_def value_at_def by blast
  let ?fill = "\<lambda>c. map_sum id cells (fill_vector L (map (value_at c) ?rows) (ctype c) (new_vec (ctype c)) 0)"
  have call: "records_call L p k = map_sum id
      (\<lambda>chunk. (map (\<lambda>i. map (\<lambda>col. col ! i) chunk) [0..<length ?rows], k + length ?rows)) (map_result ?fill ?cs)"
  proof -
    have "map_result (\<lambda>(c, vals). map_sum id cells (fill_vector L vals (ctype c) (new_vec (ctype c)) 0)) (zip ?cs (slots e)) =
        map_result ?fill ?cs"
      unfolding e(2) by (simp add: zip_map2 map_result_map zip_same_conv_map)
    moreover have "take (length ?rows) (drop k (prows (payload p))) = ?rows"
      unfolding len by (simp add: records_chunk_def)
    ultimately show ?thesis
      using e(1) unfolding records_call_def Let_def len [symmetric] by simp
  qed
  show ?thesis
  proof (cases "\<exists>row \<in> set ?rows. own_unwritable L ?cs row")
    case True
    then obtain row c w where bad: "row \<in> set ?rows" "c \<in> set ?cs" "value_at c row = Some w" "unwritable L (ctype c) w"
      using own_unwritable_iff [OF dc] by blast
    have each: "if \<exists>w. Some w \<in> set (map (value_at c) ?rows) \<and> unwritable L (ctype c) w then ?fill c = Inl serialize_error
        else \<exists>cs. ?fill c = Inr cs" if "c \<in> set ?cs" for c
      using fill_slot_result own_fill assms(2) that by metis
    have "Some w \<in> set (map (value_at c) ?rows)" using bad(1,3) by (force simp: image_iff)
    with each [OF bad(2)] bad(4) have fails: "?fill c = Inl serialize_error" by (metis (no_types, lifting))
    have "\<forall>c \<in> set ?cs. ?fill c = Inl serialize_error \<or> (\<exists>cs. ?fill c = Inr cs)"
      using each by (metis (no_types, lifting))
    from map_result_uniform [OF this] fails bad(2) have "map_result ?fill ?cs = Inl serialize_error" by blast
    with True call show ?thesis by simp
  next
    case False
    have "?fill c = Inr (map (\<lambda>row. own_cell L row c) ?rows)" if c: "c \<in> set ?cs" for c
    proof -
      have "map_result (cell_in L (ctype c) c) ?rows = Inr (map (\<lambda>row. own_cell L row c) ?rows)"
        using False own_unwritable_iff [OF dc] assms(2) c by (intro map_result_Inr own_cell_in) blast+
      from fill_slot_cells [OF this] show ?thesis unfolding value_at_def own_fill [OF bspec [OF assms(2) c]] .
    qed
    then have filled: "map_result ?fill ?cs = Inr (map (\<lambda>c. map (\<lambda>row. own_cell L row c) ?rows) ?cs)"
      by (rule map_result_Inr)
    have "map (\<lambda>i. map (\<lambda>col. col ! i) (map (\<lambda>c. map (\<lambda>row. own_cell L row c) ?rows) ?cs)) [0..<length ?rows] =
        map (\<lambda>row. map (own_cell L row) ?cs) ?rows"
      by (rule nth_equalityI) simp_all
    with False call filled show ?thesis by simp
  qed
qed

lemma records_scan_rows:
  assumes "payload_ok p" "\<forall>c \<in> set (pcolumns p). raw_fill_supported (ctype c)"
  shows "records_scan L p k =
    (if \<exists>row \<in> set (drop k (prows (payload p))). own_unwritable L (pcolumns p) row then Inl serialize_error
     else Inr (map (\<lambda>row. map (own_cell L row) (pcolumns p)) (drop k (prows (payload p)))))"
proof (induction "length (prows (payload p)) - k" arbitrary: k rule: less_induct)
  case less
  let ?rows = "prows (payload p)" and ?n = "length (records_chunk p k)"
  note call = records_call_rows [OF assms, of L k]
  show ?case
  proof (cases "length ?rows \<le> k")
    case True
    then show ?thesis using call by (simp add: records_scan.simps [of L p k] records_chunk_def)
  next
    case False
    then have ne: "records_chunk p k \<noteq> []" and pos: "0 < ?n" by (simp_all add: records_chunk_def STANDARD_VECTOR_SIZE_def)
    have split: "drop k ?rows = records_chunk p k @ drop (k + ?n) ?rows"
    proof -
      have n: "?n = min (length ?rows - k) STANDARD_VECTOR_SIZE" by (simp add: records_chunk_def)
      show ?thesis unfolding n by (simp add: records_chunk_def) (metis append_take_drop_id drop_drop add.commute)
    qed
    have "records_scan L p (k + ?n) =
        (if \<exists>row \<in> set (drop (k + ?n) ?rows). own_unwritable L (pcolumns p) row then Inl serialize_error
         else Inr (map (\<lambda>row. map (own_cell L row) (pcolumns p)) (drop (k + ?n) ?rows)))"
      using False pos by (intro less diff_less_mono2) simp_all
    with call ne show ?thesis unfolding split by (auto simp: records_scan.simps [of L p k])
  qed
qed

section \<open>Properties\<close>



text \<open>\<^verbatim>\<open>raw_infer\<close> of an object lists the columns a payload of that one object gets.\<close>

lemma raw_infer_object:
  assumes "read_json L input = Some v" "nclass (infer_schema L [v]) = NC_OBJECT"
    and "flatten_schema (infer_schema L [v]) False = Inr cols"
  shows "raw_infer L type_text input =
    Inr (''OBJECT('' @ comma_joined (map (\<lambda>c. cname c @ '' '' @ type_text (ctype c)) cols) @ '')'')"
  using assms by (simp add: raw_infer_def infer_schema_def Let_def)

text \<open>The two classifications of a number agree: a value is typed \<^verbatim>\<open>Int64\<close> when it is inferred as BIGINT.\<close>

lemma raw_type_number:
  assumes "read_json L input = Some v" "is_num v"
  shows "raw_type L input = ''Int64'' \<longleftrightarrow> sniff_scalar_kind L v = SK_BIGINT"
  using assms by (cases v) (auto simp: raw_type_def)

end
