(* ===== verification/Fallback.thy ===== *)
theory Fallback
  imports Ingest_Spec Sql
begin

text \<open>
  The SQL fallback of \<^verbatim>\<open>RawIngestor\<close> for catalogs without native storage (\<^verbatim>\<open>raw_ingest.cpp\<close>,
  lines 345 to 351 and 1184 to 1322): the DDL and the INSERT as text over a connection of its own.
  The connection is a parameter: what running a statement does to the database, and what a
  probe of the table answers. So is the text of a type.
\<close>

section \<open>State\<close>

text \<open>A statement gives the database after it and an error message or the rows it changed.\<close>

record 'db connection =
  run_sql :: "string \<Rightarrow> 'db \<Rightarrow> 'db \<times> (string + nat)"
  probe_sql :: "string \<Rightarrow> 'db \<Rightarrow> string + (string \<times> logical_type) list"

text \<open>The fallback members of the ingestor; the type map is read and written at folded names.\<close>

record fallback =
  fopen :: bool
  fexists :: bool
  ftypes :: "string \<Rightarrow> logical_type option"
  fcreated :: bool
  fadded :: nat
  fwidened :: nat
  frows :: nat

text \<open>\<^verbatim>\<open>RunQuery\<close>: the error is thrown with a prefix.\<close>

definition run_query :: "'db connection \<Rightarrow> string \<Rightarrow> 'db \<Rightarrow> 'db \<times> (string + nat)" where
  "run_query C sql db = (case run_sql C sql db of (db, Inl msg) \<Rightarrow> (db, Inl (''RawDuck: '' @ msg)) | ok \<Rightarrow> ok)"

definition set_types :: "raw_column list \<Rightarrow> logical_type list \<Rightarrow> (string \<Rightarrow> logical_type option) \<Rightarrow> string \<Rightarrow> logical_type option" where
  "set_types cs types ft = fold (\<lambda>(c, t) ft. ft(lower (cname c) := Some t)) (zip cs types) ft"

section \<open>Connection\<close>

definition ensure_fallback_connection ::
    "'db connection \<Rightarrow> string \<Rightarrow> string \<Rightarrow> fallback \<Rightarrow> 'db \<Rightarrow> fallback \<times> string option" where
  "ensure_fallback_connection C target qualified st db =
     (if fopen st then (st, None)
      else
        let st = st\<lparr>fopen := True\<rparr> in
        case probe_sql C (''SELECT * FROM '' @ qualified @ '' LIMIT 0'') db of
          Inl error \<Rightarrow>
            (st\<lparr>fexists := False\<rparr>,
             if \<not> contains_text ''does not exist'' error \<and> \<not> contains_text ''not found'' error
             then Some (''RawDuck: cannot describe '' @ target @ '': '' @ error) else None)
        | Inr cols \<Rightarrow>
            (st\<lparr>fexists := True, ftypes := fold (\<lambda>(n, t) ft. ft(lower n := Some t)) cols (ftypes st)\<rparr>, None))"

section \<open>Statements of a batch\<close>

fun comma_list :: "string list \<Rightarrow> string" where
  "comma_list [] = []"
| "comma_list [x] = x"
| "comma_list (x # xs) = x @ '', '' @ comma_list xs"

definition create_statement :: "(logical_type \<Rightarrow> string) \<Rightarrow> string \<Rightarrow> raw_column list \<Rightarrow> string" where
  "create_statement tt qualified cs =
     ''CREATE TABLE '' @ qualified @ '' ('' @
     comma_list (map (\<lambda>c. raw_quote_identifier (cname c) @ '' '' @ tt (ctype c)) cs) @ '')''"

definition needs_rewrite :: "logical_type \<Rightarrow> logical_type \<Rightarrow> bool" where
  "needs_rewrite existing target_type \<longleftrightarrow> is_raw_json_type target_type \<and> \<not> is_raw_json_type existing"

text \<open>The statements for an existing table, the final type of every column, and the counts of DDL.\<close>

fun alter_statements ::
    "(logical_type \<Rightarrow> string) \<Rightarrow> string \<Rightarrow> bool \<Rightarrow> (string \<Rightarrow> logical_type option) \<Rightarrow> raw_column list \<Rightarrow>
     string list \<times> logical_type list \<times> nat \<times> nat" where
  "alter_statements tt qualified allow ft [] = ([], [], 0, 0)"
| "alter_statements tt qualified allow ft (c # cs) =
     (let (sts, types, added, widened) = alter_statements tt qualified allow ft cs in
      case ft (lower (cname c)) of
        None \<Rightarrow>
          ((''ALTER TABLE '' @ qualified @ '' ADD COLUMN '' @ raw_quote_identifier (cname c) @ '' '' @ tt (ctype c)) # sts,
           ctype c # types, Suc added, widened)
      | Some existing \<Rightarrow>
          let target_type = join_column_types existing (ctype c) in
          if target_type = existing then (sts, target_type # types, added, widened)
          else if needs_rewrite existing target_type \<and> \<not> allow then (sts, existing # types, added, widened)
          else
            ((''ALTER TABLE '' @ qualified @ '' ALTER COLUMN '' @ raw_quote_identifier (cname c) @
              '' SET DATA TYPE '' @ tt target_type @
              (if needs_rewrite existing target_type
               then '' USING to_json('' @ raw_quote_identifier (cname c) @ '')'' else [])) # sts,
             target_type # types, added, Suc widened))"

definition select_expr :: "(logical_type \<Rightarrow> string) \<Rightarrow> raw_column \<Rightarrow> logical_type \<Rightarrow> string" where
  "select_expr tt c final =
     (let expr = raw_quote_identifier (cname c);
          incoming_structural = is_raw_json_type (ctype c) \<or> is_list_type (ctype c) in
      if is_raw_json_type final \<and> \<not> is_raw_json_type (ctype c) then ''to_json('' @ expr @ '')''
      else if \<not> is_raw_json_type final \<and> incoming_structural \<and> final \<noteq> ctype c
      then ''to_json('' @ expr @ '')::'' @ tt final else expr)"

definition insert_statement ::
    "(logical_type \<Rightarrow> string) \<Rightarrow> string \<Rightarrow> raw_column list \<Rightarrow> logical_type list \<Rightarrow> string \<Rightarrow> string" where
  "insert_statement tt qualified cs types payload_str =
     ''INSERT INTO '' @ qualified @ '' ('' @ comma_list (map (\<lambda>c. raw_quote_identifier (cname c)) cs) @
     '') SELECT '' @ comma_list (map (\<lambda>(c, t). select_expr tt c t) (zip cs types)) @
     '' FROM raw_records('' @ quote_literal payload_str @ '')''"

section \<open>A batch\<close>

text \<open>Statements in order up to the first error; the count is that of the last one.\<close>

fun run_all :: "'db connection \<Rightarrow> string list \<Rightarrow> 'db \<Rightarrow> nat \<Rightarrow> 'db \<times> (string + nat)" where
  "run_all C [] db n = (db, Inr n)"
| "run_all C (sql # sqls) db n =
     (case run_query C sql db of
        (db, Inl e) \<Rightarrow> (db, Inl e)
      | (db, Inr m) \<Rightarrow> run_all C sqls db m)"

text \<open>The DDL of a batch: statements, final types, columns added and widened.\<close>

definition batch_statements ::
    "(logical_type \<Rightarrow> string) \<Rightarrow> string \<Rightarrow> bool \<Rightarrow> fallback \<Rightarrow> raw_column list \<Rightarrow>
     string list \<times> logical_type list \<times> nat \<times> nat" where
  "batch_statements tt qualified allow st cs =
     (if \<not> fexists st then ([create_statement tt qualified cs], map ctype cs, length cs, 0)
      else alter_statements tt qualified allow (ftypes st) cs)"

text \<open>What runs between BEGIN and COMMIT.\<close>

definition batch_body ::
    "(logical_type \<Rightarrow> string) \<Rightarrow> string \<Rightarrow> string list \<Rightarrow> logical_type list \<Rightarrow> parsed_payload \<Rightarrow> string \<Rightarrow> string list" where
  "batch_body tt qualified sts types parsed payload_str =
     sts @ (if prows (payload parsed) = [] then []
            else [insert_statement tt qualified (pcolumns parsed) types payload_str])"

definition fallback_batch ::
    "'db connection \<Rightarrow> (logical_type \<Rightarrow> string) \<Rightarrow> string \<Rightarrow> parsed_payload \<Rightarrow> string \<Rightarrow> bool \<Rightarrow>
     fallback \<Rightarrow> 'db \<Rightarrow> fallback \<times> 'db \<times> string option" where
  "fallback_batch C tt qualified parsed payload_str allow st db =
     (let (sts, types, added, widened) = batch_statements tt qualified allow st (pcolumns parsed) in
      case run_query C ''BEGIN TRANSACTION'' db of
        (db, Inl e) \<Rightarrow> (st, db, Some e)
      | (db, Inr _) \<Rightarrow>
          (case run_all C (batch_body tt qualified sts types parsed payload_str) db 0 of
             (db, Inl e) \<Rightarrow> (st, fst (run_sql C ''ROLLBACK'' db), Some e)
           | (db, Inr n) \<Rightarrow>
               (case run_query C ''COMMIT'' db of
                  (db, Inl e) \<Rightarrow> (st, fst (run_sql C ''ROLLBACK'' db), Some e)
                | (db, Inr _) \<Rightarrow>
                    (st\<lparr>fcreated := fcreated st \<or> \<not> fexists st, fadded := fadded st + added,
                        fwidened := fwidened st + widened,
                        frows := frows st + (if prows (payload parsed) = [] then 0 else n),
                        fexists := True, ftypes := set_types (pcolumns parsed) types (ftypes st)\<rparr>, db, None))))"

definition ingest_fallback ::
    "'db connection \<Rightarrow> (logical_type \<Rightarrow> string) \<Rightarrow> string \<Rightarrow> string \<Rightarrow> parsed_payload \<Rightarrow> string \<Rightarrow>
     fallback \<Rightarrow> 'db \<Rightarrow> fallback \<times> 'db \<times> string option" where
  "ingest_fallback C tt target qualified parsed payload_str st db =
     (case ensure_fallback_connection C target qualified st db of
        (st, Some e) \<Rightarrow> (st, db, Some e)
      | (st, None) \<Rightarrow>
          if \<not> fexists st \<and> pcolumns parsed = []
          then (st, db, Some (''RawDuck: cannot create table '' @ target @ '' from an empty payload''))
          else if pcolumns parsed = [] then (st, db, None)
          else
            (case fallback_batch C tt qualified parsed payload_str True st db of
               (st, db, Some e) \<Rightarrow>
                 if contains_text ''cannot be modified using an expression'' e
                 then fallback_batch C tt qualified parsed payload_str False st db
                 else (st, db, Some e)
             | ok \<Rightarrow> ok))"

section \<open>Transactions\<close>

text \<open>
  What the code relies on from the connection: a database is what is committed and the state of
  the open transaction, if there is one. A failed COMMIT ends the transaction; a ROLLBACK leaves none
  open, whether it reports an error or not.
\<close>

definition control_statements :: "string set" where
  "control_statements = {''BEGIN TRANSACTION'', ''COMMIT'', ''ROLLBACK''}"

definition transactional :: "('c \<times> 'c option) connection \<Rightarrow> bool" where
  "transactional C \<longleftrightarrow>
     (\<forall>c. fst (run_sql C ''BEGIN TRANSACTION'' (c, None)) =
        (case snd (run_sql C ''BEGIN TRANSACTION'' (c, None)) of Inl _ \<Rightarrow> (c, None) | Inr _ \<Rightarrow> (c, Some c))) \<and>
     (\<forall>c w sql. sql \<notin> control_statements \<longrightarrow>
        (\<exists>w'. fst (run_sql C sql (c, Some w)) = (c, Some w'))) \<and>
     (\<forall>c w. fst (run_sql C ''COMMIT'' (c, Some w)) =
        (case snd (run_sql C ''COMMIT'' (c, Some w)) of Inl _ \<Rightarrow> (c, None) | Inr _ \<Rightarrow> (w, None))) \<and>
     (\<forall>c t. fst (run_sql C ''ROLLBACK'' (c, t)) = (c, None))"

lemma run_query_fst [simp]: "fst (run_query C sql db) = fst (run_sql C sql db)"
  by (simp add: run_query_def split: prod.splits sum.splits)

lemma run_query_ok: "isl (snd (run_query C sql db)) = isl (snd (run_sql C sql db))"
  by (simp add: run_query_def split: prod.splits sum.splits)

lemma transactional_begin:
  "transactional C \<Longrightarrow> run_query C ''BEGIN TRANSACTION'' (c, None) = (db, Inl e) \<Longrightarrow> db = (c, None)"
  "transactional C \<Longrightarrow> run_query C ''BEGIN TRANSACTION'' (c, None) = (db, Inr n) \<Longrightarrow> db = (c, Some c)"
  using run_query_fst [of C "''BEGIN TRANSACTION''" "(c, None)"] run_query_ok [of C "''BEGIN TRANSACTION''" "(c, None)"]
  by (auto simp: transactional_def split: sum.splits)

lemma transactional_commit:
  "transactional C \<Longrightarrow> run_query C ''COMMIT'' (c, Some w) = (db, Inl e) \<Longrightarrow> db = (c, None)"
  "transactional C \<Longrightarrow> run_query C ''COMMIT'' (c, Some w) = (db, Inr n) \<Longrightarrow> db = (w, None)"
  using run_query_fst [of C "''COMMIT''" "(c, Some w)"] run_query_ok [of C "''COMMIT''" "(c, Some w)"]
  by (auto simp: transactional_def split: sum.splits)

lemma transactional_rollback: "transactional C \<Longrightarrow> fst (run_sql C ''ROLLBACK'' (c, t)) = (c, None)"
  by (simp add: transactional_def)

lemma run_all_inside:
  "transactional C \<Longrightarrow> set sqls \<inter> control_statements = {} \<Longrightarrow>
     \<exists>w'. fst (run_all C sqls (c, Some w) n) = (c, Some w')"
proof (induction sqls arbitrary: w n)
  case (Cons sql sqls)
  have "sql \<notin> control_statements" using Cons.prems(2) by auto
  then obtain w' where "fst (run_query C sql (c, Some w)) = (c, Some w')"
    using Cons.prems(1) unfolding run_query_fst transactional_def by blast
  with Cons show ?case by (cases "run_query C sql (c, Some w)") (auto split: sum.splits)
qed simp

lemma alter_statements_text:
  "alter_statements tt qualified allow ft cs = (sts, types, a, w) \<Longrightarrow> sql \<in> set sts \<Longrightarrow> take 5 sql = ''ALTER''"
  by (induction tt "qualified" allow ft cs arbitrary: sts types a w rule: alter_statements.induct)
    (auto simp: Let_def split: prod.splits option.splits if_splits)

lemma body_statements:
  assumes "batch_statements tt qualified allow st cs = (sts, types, a, w)"
  shows "set (batch_body tt qualified sts types p text) \<inter> control_statements = {}"
proof -
  have "take 5 sql \<in> {''ALTER'', ''CREAT'', ''INSER''}" if "sql \<in> set (batch_body tt qualified sts types p text)" for sql
    using that assms alter_statements_text
    by (auto simp: batch_body_def batch_statements_def create_statement_def insert_statement_def split: if_splits)
  moreover have "take 5 sql \<notin> {''ALTER'', ''CREAT'', ''INSER''}" if "sql \<in> control_statements" for sql
    using that by (auto simp: control_statements_def)
  ultimately show ?thesis by blast
qed

lemma fallback_batch_cases:
  assumes C: "transactional C" and run: "fallback_batch C tt qualified p text allow st (c, None) = (st', db', r)"
  obtains (failed) e where "r = Some e" "st' = st" "db' = (c, None)"
  | (committed) sts types a w n c' where "r = None" "db' = (c', None)"
      "batch_statements tt qualified allow st (pcolumns p) = (sts, types, a, w)"
      "run_all C (batch_body tt qualified sts types p text) (c, Some c) 0 = ((c, Some c'), Inr n)"
      "st' = st\<lparr>fcreated := fcreated st \<or> \<not> fexists st, fadded := fadded st + a, fwidened := fwidened st + w,
         frows := frows st + (if prows (payload p) = [] then 0 else n), fexists := True,
         ftypes := set_types (pcolumns p) types (ftypes st)\<rparr>"
proof -
  obtain sts types a w where b: "batch_statements tt qualified allow st (pcolumns p) = (sts, types, a, w)"
    by (cases "batch_statements tt qualified allow st (pcolumns p)") auto
  let ?body = "batch_body tt qualified sts types p text"
  show thesis
  proof (cases "run_query C ''BEGIN TRANSACTION'' (c, None)")
    case (Pair db res)
    show thesis
    proof (cases res)
      case (Inl e)
      then have "r = Some e" "st' = st" "db' = (c, None)"
        using run b Pair transactional_begin(1) [OF C] by (auto simp: fallback_batch_def)
      then show thesis by (rule failed)
    next
      case (Inr m)
      then have db: "db = (c, Some c)" using transactional_begin(2) [OF C] Pair by simp
      obtain v where v: "fst (run_all C ?body (c, Some c) 0) = (c, Some v)"
        using run_all_inside [OF C body_statements [OF b]] by blast
      show thesis
      proof (cases "snd (run_all C ?body (c, Some c) 0)")
        case (Inl e)
        then have "run_all C ?body (c, Some c) 0 = ((c, Some v), Inl e)" using v by (metis prod.collapse)
        then have "r = Some e" "st' = st" "db' = (c, None)"
          using run b Pair Inr db transactional_rollback [OF C] by (auto simp: fallback_batch_def)
        then show thesis by (rule failed)
      next
        case ok: (Inr n)
        then have all: "run_all C ?body (c, Some c) 0 = ((c, Some v), Inr n)" using v by (metis prod.collapse)
        show thesis
        proof (cases "run_query C ''COMMIT'' (c, Some v)")
          case commit: (Pair db2 res2)
          show thesis
          proof (cases res2)
            case (Inl e)
            then have "db2 = (c, None)" using transactional_commit(1) [OF C] commit by simp
            then have "r = Some e" "st' = st" "db' = (c, None)"
              using run b Pair \<open>res = Inr m\<close> db all commit Inl transactional_rollback [OF C]
              by (auto simp: fallback_batch_def)
            then show thesis by (rule failed)
          next
            case (Inr k)
            then have "db2 = (v, None)" using transactional_commit(2) [OF C] commit by simp
            then show thesis using run b Pair \<open>res = Inr m\<close> db all commit Inr
              by (intro committed [of v sts types a w n]) (auto simp: fallback_batch_def)
          qed
        qed
      qed
    qed
  qed
qed

section \<open>The schema\<close>

text \<open>The tracked types are those of a table with the columns.\<close>

definition tracks :: "(string \<Rightarrow> logical_type option) \<Rightarrow> tcolumn list \<Rightarrow> bool" where
  "tracks ft cols \<longleftrightarrow>
     (\<forall>name. ft (lower name) = (if column_exists cols name then Some (column_type cols name) else None))"

definition final_type :: "(string \<Rightarrow> logical_type option) \<Rightarrow> raw_column \<Rightarrow> logical_type" where
  "final_type ft c = (case ft (lower (cname c)) of None \<Rightarrow> ctype c | Some e \<Rightarrow> join_column_types e (ctype c))"

lemma alter_statements_spec:
  "alter_statements tt quali True ft cs = (sts, types, a, w) \<Longrightarrow>
     types = map (final_type ft) cs \<and> a = length (filter (\<lambda>c. ft (lower (cname c)) = None) cs) \<and>
     w = length (filter (\<lambda>c. \<exists>e. ft (lower (cname c)) = Some e \<and> join_column_types e (ctype c) \<noteq> e) cs) \<and>
     length sts = a + w"
proof (induction cs arbitrary: sts types a w)
  case (Cons c cs)
  obtain sts' types' a' w' where rest: "alter_statements tt quali True ft cs = (sts', types', a', w')"
    by (cases "alter_statements tt quali True ft cs") auto
  with Cons.IH [OF rest] Cons.prems show ?case
    by (auto simp: final_type_def Let_def split: option.splits if_splits)
qed simp

lemma set_types_simps:
  "set_types [] types ft = ft"
  "set_types (c # cs) (t # types) ft = set_types cs types (ft(lower (cname c) := Some t))"
  by (simp_all add: set_types_def)

lemma set_types_lookup:
  "distinct (map (lower \<circ> cname) cs) \<Longrightarrow>
     set_types cs (map f cs) ft (lower name) =
       (case column_named cs name of None \<Rightarrow> ft (lower name) | Some c \<Rightarrow> Some (f c))"
proof (induction cs arbitrary: ft)
  case Nil
  then show ?case by (simp add: set_types_simps column_named_def)
next
  case (Cons c cs)
  have "column_named cs name = None" if "lower (cname c) = lower name"
    using Cons.prems that by (intro column_named_None) auto
  moreover have "set_types cs (map f cs) (ft(lower (cname c) := Some (f c))) (lower name) =
      (case column_named cs name of None \<Rightarrow> (ft(lower (cname c) := Some (f c))) (lower name) | Some c \<Rightarrow> Some (f c))"
    by (rule Cons.IH) (use Cons.prems in simp)
  ultimately show ?case by (cases "lower (cname c) = lower name") (simp_all add: set_types_simps column_named_Cons split: option.splits)
qed

lemma evolved_type:
  assumes "distinct (map (lower \<circ> cname) cs)"
  shows "(if column_exists (evolved_columns cols cs) name then Some (column_type (evolved_columns cols cs) name) else None) =
    (case column_named cs name of
       None \<Rightarrow> if column_exists cols name then Some (column_type cols name) else None
     | Some c \<Rightarrow> Some (if column_exists cols name then join_column_types (column_type cols name) (ctype c) else ctype c))"
proof (cases "column_named cs name")
  case (Some c)
  then have c: "c \<in> set cs" "lower (cname c) = lower name" by (auto simp: column_named_def find_Some_iff)
  note same = column_index_lower [OF c(2)]
  from evolved_columns_find [OF assms c(1), of cols] Some show ?thesis
    by (auto simp: column_exists_def column_type_def same)
next
  case None
  then have no: "\<forall>c \<in> set cs. lower (cname c) \<noteq> lower name" by (auto simp: column_named_def find_None_iff)
  have names: "column_index (map (evolved_column cs) cols) name = column_index cols name"
    by (rule column_index_names) (simp add: evolved_column_def)
  have "column_index (fst (compute_delta cols cs)) name = None"
    using no by (auto simp: column_index_None compute_delta_def)
  then have ix: "column_index (evolved_columns cols cs) name = column_index cols name"
    by (simp add: evolved_columns_def column_index_append names split: option.splits)
  show ?thesis
  proof (cases "column_index cols name")
    case (Some i)
    then have i: "i < length cols" "lower (fst (cols ! i)) = lower name" using column_index_Some by blast+
    have "column_named cs (fst (cols ! i)) = None" using no i(2) by (auto simp: column_named_def find_None_iff)
    with i Some None ix show ?thesis
      by (simp add: column_exists_def column_type_def evolved_columns_def nth_append evolved_column_def)
  qed (use None ix in \<open>simp add: column_exists_def\<close>)
qed

section \<open>Properties\<close>


text \<open>A connection that keeps the statements and cannot rewrite a column with an expression.\<close>

definition log_connection :: "(string list \<times> string list option) connection" where
  "log_connection =
     \<lparr>run_sql = (\<lambda>sql (c, t).
        if sql = ''BEGIN TRANSACTION'' then ((c, Some c), Inr 0)
        else if sql = ''COMMIT'' then ((case t of None \<Rightarrow> c | Some w \<Rightarrow> w, None), Inr 0)
        else if sql = ''ROLLBACK'' then ((c, None), Inr 0)
        else if contains_text ''USING'' sql
        then ((c, t), Inl ''the column cannot be modified using an expression'')
        else ((c, map_option (\<lambda>w. w @ [sql]) t), Inr 1)),
      probe_sql = (\<lambda>sql db. Inl ''the table does not exist'')\<rparr>"

lemma log_transactional: "transactional log_connection"
  by (auto simp: transactional_def log_connection_def control_statements_def)

definition list_batch :: parsed_payload where
  "list_batch = projr (infer_and_flatten sample_lib (new_payload\<lparr>prows := [JObj [(''a'', JArr [JUint 1])]]\<rparr>))"

definition open_fallback :: "(string \<Rightarrow> logical_type option) \<Rightarrow> fallback" where
  "open_fallback ft = \<lparr>fopen = True, fexists = True, ftypes = ft, fcreated = False, fadded = 0, fwidened = 0, frows = 0\<rparr>"




end
