(* ===== verification/Async.thy ===== *)
theory Async
  imports Transactions Payload Ordered_Map
begin

text \<open>
  Asynchronous inserts (\<^verbatim>\<open>raw_async.cpp\<close>): payloads are buffered per target, a background
  thread takes the buffers that are due, and every taken buffer is flushed once, in one
  transaction, by a small pool of threads. Time is the steady clock in milliseconds.
\<close>

section \<open>Buffers\<close>

type_synonym async_payload = "string \<times> parse_options"

record async_buffer =
  bpayloads :: "async_payload list"
  bbytes :: nat
  boldest :: nat

definition new_buffer :: async_buffer where
  "new_buffer = \<lparr>bpayloads = [], bbytes = 0, boldest = 0\<rparr>"

type_synonym buffer_map = "(string, async_buffer) rbt"

record async_state =
  abuffers :: buffer_map
  arunning :: bool
  atimeout :: nat
  athreads :: nat
  adue_bytes :: nat

definition new_async :: async_state where
  "new_async = \<lparr>abuffers = RBT.empty, arunning = False, atimeout = 200, athreads = 0,
     adue_bytes = 1024 * 1024\<rparr>"

text \<open>\<^verbatim>\<open>NumericCast<idx_t>\<close> of a 64-bit setting throws when it is negative.\<close>

definition idx_setting :: "session \<Rightarrow> string \<Rightarrow> nat \<Rightarrow> nat result" where
  "idx_setting conf name dflt =
     (case conf name of
        Some (SInt n) \<Rightarrow>
          if n < 0 then Inl (InternalError ''Information loss on integer cast'') else Inr (nat n)
      | _ \<Rightarrow> Inr dflt)"

text \<open>Settings read before the one that throws stay applied.\<close>

definition async_apply_settings :: "session \<Rightarrow> async_state \<Rightarrow> raw_error option \<times> async_state" where
  "async_apply_settings conf s =
     (case idx_setting conf ''rawduck_async_max_data_size'' (adue_bytes s) of
        Inl e \<Rightarrow> (Some e, s)
      | Inr due \<Rightarrow>
          (let s = s\<lparr>adue_bytes := due\<rparr> in
           case idx_setting conf ''rawduck_async_busy_timeout_ms'' (atimeout s) of
             Inl e \<Rightarrow> (Some e, s)
           | Inr busy \<Rightarrow>
               (let s = s\<lparr>atimeout := busy\<rparr> in
                case idx_setting conf ''rawduck_async_flush_threads'' (athreads s) of
                  Inl e \<Rightarrow> (Some e, s)
                | Inr threads \<Rightarrow> (None, s\<lparr>athreads := threads\<rparr>))))"

definition async_enabled :: "session \<Rightarrow> bool" where
  "async_enabled conf = bool_setting conf ''rawduck_async_insert'' False"

definition async_start :: "async_state \<Rightarrow> async_state" where
  "async_start s = s\<lparr>arunning := True\<rparr>"

definition async_shutdown :: "async_state \<Rightarrow> async_state" where
  "async_shutdown s = s\<lparr>arunning := False\<rparr>"

text \<open>\<^verbatim>\<open>Enqueue\<close> at a time; the flag is whether it wakes the flusher.\<close>

definition async_enqueue ::
    "nat \<Rightarrow> string \<Rightarrow> string \<Rightarrow> parse_options \<Rightarrow> nat \<Rightarrow> async_state \<Rightarrow> async_state \<times> bool" where
  "async_enqueue now target body opts max_bytes s =
     (let b = (case RBT.lookup (abuffers s) target of None \<Rightarrow> new_buffer | Some b \<Rightarrow> b);
          b = (if bpayloads b = [] then b\<lparr>boldest := now\<rparr> else b);
          b = b\<lparr>bbytes := bbytes b + length body\<rparr>;
          b = b\<lparr>bpayloads := bpayloads b @ [(body, opts)]\<rparr>
      in (s\<lparr>abuffers := RBT.insert target b (abuffers s)\<rparr>, bbytes b \<ge> max_bytes))"

definition raw_async_enqueue ::
    "session \<Rightarrow> nat \<Rightarrow> string \<Rightarrow> string \<Rightarrow> parse_options \<Rightarrow> async_state \<Rightarrow> bool result \<times> async_state" where
  "raw_async_enqueue conf now target body opts s =
     (case async_apply_settings conf s of
        (Some e, s) \<Rightarrow> (Inl e, s)
      | (None, s) \<Rightarrow>
          (case async_enqueue now target body opts (adue_bytes s) (async_start s) of
             (s, woken) \<Rightarrow> (Inr woken, s)))"

section \<open>Taking buffers\<close>

definition buffer_due :: "async_state \<Rightarrow> nat \<Rightarrow> async_buffer \<Rightarrow> bool" where
  "buffer_due s now b \<longleftrightarrow>
     int now - int (boldest b) \<ge> int (atimeout s) \<or> bbytes b \<ge> adue_bytes s"

text \<open>The flusher's loop over the buffers: a due buffer moves to \<^verbatim>\<open>due\<close>.\<close>

fun move_due ::
    "async_state \<Rightarrow> nat \<Rightarrow> (string \<times> async_buffer) list \<Rightarrow> buffer_map \<Rightarrow> buffer_map \<Rightarrow>
       buffer_map \<times> buffer_map" where
  "move_due s now [] due left = (due, left)"
| "move_due s now ((target, b) # bs) due left =
     (if buffer_due s now b
      then move_due s now bs (RBT.insert target b due) (RBT.delete target left)
      else move_due s now bs due left)"

definition take_due :: "nat \<Rightarrow> async_state \<Rightarrow> buffer_map \<times> async_state" where
  "take_due now s =
     (case move_due s now (RBT.entries (abuffers s)) RBT.empty (abuffers s) of
        (due, left) \<Rightarrow> (due, s\<lparr>abuffers := left\<rparr>))"

text \<open>\<^verbatim>\<open>FlushAll\<close> and the drain after the loop take everything.\<close>

definition take_all :: "async_state \<Rightarrow> buffer_map \<times> async_state" where
  "take_all s = (abuffers s, s\<lparr>abuffers := RBT.empty\<rparr>)"

text \<open>\<^verbatim>\<open>raw_flush\<close>: the buffers it flushes, whose number it reports, or the error of a setting.\<close>

definition raw_flush_take :: "session \<Rightarrow> async_state \<Rightarrow> buffer_map result \<times> async_state" where
  "raw_flush_take conf s =
     (case async_apply_settings conf s of
        (Some e, s) \<Rightarrow> (Inl e, s)
      | (None, s) \<Rightarrow> (case take_all (async_start s) of (taken, s) \<Rightarrow> (Inr taken, s)))"

definition flush_targets :: "buffer_map \<Rightarrow> nat" where
  "flush_targets taken = length (RBT.entries taken)"

section \<open>Flushing one buffer\<close>

text \<open>
  \<open>ingest\<close> is what \<^verbatim>\<open>RawIngestPayload\<close> does to the database: its row count and the
  database after it, or an error.
\<close>

type_synonym 'db ingest_payload = "string \<Rightarrow> async_payload \<Rightarrow> 'db \<Rightarrow> (nat \<times> 'db) result"

fun flush_payloads ::
    "'db ingest_payload \<Rightarrow> string \<Rightarrow> async_payload list \<Rightarrow> nat \<Rightarrow> 'db \<Rightarrow> (nat \<times> 'db) result" where
  "flush_payloads ingest target [] flushed db = Inr (flushed, db)"
| "flush_payloads ingest target (p # ps) flushed db =
     bind_result (ingest target p db) (\<lambda>(n, db).
       flush_payloads ingest target ps (flushed + n) db)"

text \<open>
  \<^verbatim>\<open>FlushBuffer\<close> on a fresh connection: the rows it reports and the database it leaves. An
  error is an exception that leaves the function, thrown by the rollback of the handler.
\<close>

definition flush_buffer ::
    "'db ingest_payload \<Rightarrow> commit_answer \<Rightarrow> bool \<Rightarrow> string \<Rightarrow> async_buffer \<Rightarrow> 'db \<Rightarrow> nat result \<times> 'db" where
  "flush_buffer ingest ans db_alive target b db =
     (if \<not> db_alive then (Inr 0, db)
      else
        (case raw_begin_transaction \<lparr>auto_commit = True, invalidated = False\<rparr> of
           (Some e, c) \<Rightarrow> (Inl e, db)
         | (None, c) \<Rightarrow>
             (case (case flush_payloads ingest target (bpayloads b) 0 db of
                      Inl e \<Rightarrow> (Inl e, c)
                    | Inr (flushed, db') \<Rightarrow>
                        (case raw_commit_transaction ans c of
                           (Some e, c) \<Rightarrow> (Inl e, c)
                         | (None, c) \<Rightarrow> (Inr (flushed, db'), c))) of
                (Inr (flushed, db'), c) \<Rightarrow> (Inr flushed, db')
              | (Inl e, c) \<Rightarrow>
                  (case raw_rollback_transaction c of
                     (Some e, c) \<Rightarrow> (Inl e, db)
                   | (None, c) \<Rightarrow> (Inr 0, db)))))"

section \<open>Flushing in parallel\<close>

definition MAX_ASYNC_FLUSH_THREADS :: nat where "MAX_ASYNC_FLUSH_THREADS = 16"

definition flush_worker_count :: "32 word \<Rightarrow> async_state \<Rightarrow> nat \<Rightarrow> nat" where
  "flush_worker_count hw s n =
     (let configured = (if athreads s > 0 then athreads s else max 1 (unat (hw div 2)))
      in min n (min configured MAX_ASYNC_FLUSH_THREADS))"

text \<open>
  The workers of \<^verbatim>\<open>FlushDueParallel\<close>: each claims the next entry with an atomic increment,
  flushes it, adds its rows to the total and goes on until no entry is left. \<open>pclaims\<close>
  records which entries were flushed and how many rows each gave.
\<close>

datatype flush_phase = Claiming | Flushing nat | Finished

record flush_pool =
  pentries :: nat
  pnext :: nat
  ptotal :: nat
  pworkers :: "flush_phase list"
  pflushed :: "(nat \<times> nat) list"

definition start_flush :: "nat \<Rightarrow> nat \<Rightarrow> flush_pool" where
  "start_flush k n =
     \<lparr>pentries = n, pnext = 0, ptotal = 0, pworkers = replicate k Claiming, pflushed = []\<rparr>"

definition claim_entry :: "nat \<Rightarrow> flush_pool \<Rightarrow> flush_pool" where
  "claim_entry w P =
     (let i = pnext P in
      P\<lparr>pnext := Suc i,
        pworkers := (pworkers P)[w := if i \<ge> pentries P then Finished else Flushing i]\<rparr>)"

definition add_flushed :: "nat \<Rightarrow> nat \<Rightarrow> nat \<Rightarrow> flush_pool \<Rightarrow> flush_pool" where
  "add_flushed w i rows P =
     P\<lparr>ptotal := ptotal P + rows, pworkers := (pworkers P)[w := Claiming],
       pflushed := pflushed P @ [(i, rows)]\<rparr>"

inductive flush_step :: "flush_pool \<Rightarrow> flush_pool \<Rightarrow> bool" where
  claim: "w < length (pworkers P) \<Longrightarrow> pworkers P ! w = Claiming \<Longrightarrow> flush_step P (claim_entry w P)"
| flushed: "w < length (pworkers P) \<Longrightarrow> pworkers P ! w = Flushing i \<Longrightarrow>
    flush_step P (add_flushed w i rows P)"

inductive_cases flush_stepE: "flush_step P Q"

section \<open>The whole buffer\<close>

text \<open>
  Every section under the lock is a step: enqueueing, one round of the flusher, \<^verbatim>\<open>raw_flush\<close> and
  the drain at shutdown. \<open>staken\<close> lists the buffers taken, in order, each to be flushed once;
  \<open>sent\<close> lists what was enqueued.
\<close>

record async_system =
  sasync :: async_state
  sclock :: nat
  staken :: "(string \<times> async_buffer) list"
  sent :: "(string \<times> async_payload) list"

definition start_async :: async_system where
  "start_async = \<lparr>sasync = new_async, sclock = 0, staken = [], sent = []\<rparr>"

datatype async_event =
    Enqueue session string string parse_options
  | FlushRound
  | FlushAll session
  | Shutdown
  | Passes nat

definition take_into :: "buffer_map \<times> async_state \<Rightarrow> async_system \<Rightarrow> async_system" where
  "take_into r S = S\<lparr>sasync := snd r, staken := staken S @ RBT.entries (fst r)\<rparr>"

inductive async_step :: "async_system \<Rightarrow> async_event \<Rightarrow> async_system \<Rightarrow> bool" where
  enqueue: "raw_async_enqueue conf (sclock S) target body opts (sasync S) = (Inr woken, s) \<Longrightarrow>
    async_step S (Enqueue conf target body opts)
      (S\<lparr>sasync := s, sent := sent S @ [(target, (body, opts))]\<rparr>)"
| rejected: "raw_async_enqueue conf (sclock S) target body opts (sasync S) = (Inl err, s) \<Longrightarrow>
    async_step S (Enqueue conf target body opts) (S\<lparr>sasync := s\<rparr>)"
| flush_round: "arunning (sasync S) \<Longrightarrow>
    async_step S FlushRound (take_into (take_due (sclock S) (sasync S)) S)"
| flush_all: "raw_flush_take conf (sasync S) = (Inr taken, s) \<Longrightarrow>
    async_step S (FlushAll conf) (take_into (taken, s) S)"
| refused: "raw_flush_take conf (sasync S) = (Inl err, s) \<Longrightarrow>
    async_step S (FlushAll conf) (S\<lparr>sasync := s\<rparr>)"
| shutdown: "arunning (sasync S) \<Longrightarrow>
    async_step S Shutdown (take_into (take_all (async_shutdown (sasync S))) S)"
| passes: "async_step S (Passes d) (S\<lparr>sclock := sclock S + d\<rparr>)"

inductive_cases async_stepE: "async_step S e S'"

text \<open>The payloads of one target in the three places.\<close>

definition enqueued_for :: "string \<Rightarrow> async_system \<Rightarrow> async_payload list" where
  "enqueued_for T S = map snd (filter (\<lambda>e. fst e = T) (sent S))"

definition taken_for :: "string \<Rightarrow> async_system \<Rightarrow> async_payload list" where
  "taken_for T S = concat (map (bpayloads \<circ> snd) (filter (\<lambda>e. fst e = T) (staken S)))"

definition buffered_for :: "string \<Rightarrow> async_state \<Rightarrow> async_payload list" where
  "buffered_for T s = (case RBT.lookup (abuffers s) T of None \<Rightarrow> [] | Some b \<Rightarrow> bpayloads b)"

definition buffer_ok :: "nat \<Rightarrow> async_buffer \<Rightarrow> bool" where
  "buffer_ok now b \<longleftrightarrow>
     bpayloads b \<noteq> [] \<and> bbytes b = sum_list (map (length \<circ> fst) (bpayloads b)) \<and> boldest b \<le> now"

definition async_inv :: "async_system \<Rightarrow> bool" where
  "async_inv S \<longleftrightarrow>
     (\<forall>T. enqueued_for T S = taken_for T S @ buffered_for T (sasync S)) \<and>
     (\<forall>T b. RBT.lookup (abuffers (sasync S)) T = Some b \<longrightarrow> buffer_ok (sclock S) b) \<and>
     (\<forall>(T, b) \<in> set (staken S). buffer_ok (sclock S) b)"

definition async_moves :: "async_system \<Rightarrow> async_system \<Rightarrow> bool" where
  "async_moves S S' \<longleftrightarrow> (\<exists>e. async_step S e S')"

section \<open>Lemmas\<close>

lemma move_due_lookup:
  "distinct (map fst bs) \<Longrightarrow> move_due s now bs due left = (due', left') \<Longrightarrow>
     RBT.lookup due' T =
       (case map_of bs T of Some b \<Rightarrow> if buffer_due s now b then Some b else RBT.lookup due T
         | None \<Rightarrow> RBT.lookup due T) \<and>
     RBT.lookup left' T =
       (case map_of bs T of Some b \<Rightarrow> if buffer_due s now b then None else RBT.lookup left T
         | None \<Rightarrow> RBT.lookup left T)"
proof (induction s now bs due left rule: move_due.induct)
  case (2 s now target b bs due left)
  have fresh: "map_of bs target = None" using "2.prems"(1) by (simp add: map_of_eq_None_iff)
  show ?case
  proof (cases "buffer_due s now b")
    case True
    with "2.prems" fresh "2.IH"(1) show ?thesis
      by (cases "T = target") (auto split: option.splits)
  next
    case False
    with "2.prems" fresh "2.IH"(2) show ?thesis
      by (cases "T = target") (auto split: option.splits)
  qed
qed simp

lemma take_due_lookup:
  assumes "take_due now s = (due, s')"
  shows "RBT.lookup due T =
      (case RBT.lookup (abuffers s) T of Some b \<Rightarrow> if buffer_due s now b then Some b else None | None \<Rightarrow> None)"
    and "RBT.lookup (abuffers s') T =
      (case RBT.lookup (abuffers s) T of Some b \<Rightarrow> if buffer_due s now b then None else Some b | None \<Rightarrow> None)"
    and "s' = s\<lparr>abuffers := abuffers s'\<rparr>"
proof -
  obtain left where m: "move_due s now (RBT.entries (abuffers s)) RBT.empty (abuffers s) = (due, left)"
      and s': "s' = s\<lparr>abuffers := left\<rparr>"
    using assms by (auto simp: take_due_def split: prod.splits)
  note lu = move_due_lookup [OF distinct_entries m, of T]
  show "RBT.lookup due T =
      (case RBT.lookup (abuffers s) T of Some b \<Rightarrow> if buffer_due s now b then Some b else None | None \<Rightarrow> None)"
    using lu by (simp add: map_of_entries split: option.splits)
  show "RBT.lookup (abuffers s') T =
      (case RBT.lookup (abuffers s) T of Some b \<Rightarrow> if buffer_due s now b then None else Some b | None \<Rightarrow> None)"
    using lu by (simp add: s' map_of_entries split: option.splits)
  show "s' = s\<lparr>abuffers := abuffers s'\<rparr>" by (simp add: s')
qed

lemma taken_into:
  "taken_for T (take_into r S) =
     taken_for T S @ (case RBT.lookup (fst r) T of None \<Rightarrow> [] | Some b \<Rightarrow> bpayloads b)"
  by (simp add: taken_for_def take_into_def entries_of_key split: option.splits)

lemma taken_into_ok:
  "(\<forall>(T, b) \<in> set (staken (take_into r S)). P b) \<longleftrightarrow>
     (\<forall>(T, b) \<in> set (staken S). P b) \<and> (\<forall>T b. RBT.lookup (fst r) T = Some b \<longrightarrow> P b)"
  unfolding lookup_in_tree by (auto simp: take_into_def)

lemma apply_settings_buffers: "async_apply_settings conf s = (r, s') \<Longrightarrow> abuffers s' = abuffers s"
  by (auto simp: async_apply_settings_def Let_def split: sum.splits)

lemma enqueue_lookup:
  assumes "raw_async_enqueue conf now target body opts s = (Inr w, s')"
  shows "RBT.lookup (abuffers s') T =
    (if T = target
     then Some (case RBT.lookup (abuffers s) T of
         None \<Rightarrow> \<lparr>bpayloads = [(body, opts)], bbytes = length body, boldest = now\<rparr>
       | Some b \<Rightarrow> b\<lparr>bpayloads := bpayloads b @ [(body, opts)], bbytes := bbytes b + length body,
                      boldest := if bpayloads b = [] then now else boldest b\<rparr>)
     else RBT.lookup (abuffers s) T)"
proof -
  obtain x where x: "async_apply_settings conf s = (None, x)"
      "s' = fst (async_enqueue now target body opts (adue_bytes x) (async_start x))"
    using assms by (auto simp: raw_async_enqueue_def split: prod.splits option.splits)
  from apply_settings_buffers [OF x(1)] show ?thesis
    by (simp add: x(2) async_enqueue_def async_start_def new_buffer_def Let_def split: option.splits)
qed

lemma rejected_buffers:
  "raw_async_enqueue conf now target body opts s = (Inl err, s') \<Longrightarrow> abuffers s' = abuffers s"
  by (auto simp: raw_async_enqueue_def apply_settings_buffers split: prod.splits option.splits)

lemma raw_flush_take_buffers:
  "raw_flush_take conf s = (Inr taken, s') \<Longrightarrow> taken = abuffers s \<and> abuffers s' = RBT.empty"
  "raw_flush_take conf s = (Inl err, s') \<Longrightarrow> abuffers s' = abuffers s"
  by (auto simp: raw_flush_take_def take_all_def async_start_def apply_settings_buffers
      split: prod.splits option.splits)

lemma buffer_ok_later: "buffer_ok now b \<Longrightarrow> now \<le> later \<Longrightarrow> buffer_ok later b"
  by (simp add: buffer_ok_def)

lemma async_invD:
  assumes "async_inv S"
  shows "enqueued_for T S = taken_for T S @ buffered_for T (sasync S)"
    and "RBT.lookup (abuffers (sasync S)) T = Some b \<Longrightarrow> buffer_ok (sclock S) b"
    and "(T, b) \<in> set (staken S) \<Longrightarrow> buffer_ok (sclock S) b"
  using assms by (auto simp: async_inv_def)

text \<open>Taking some of the buffers and leaving the others keeps the invariant.\<close>

lemma take_keeps_inv:
  assumes inv: "async_inv S"
    and split: "\<And>T. (RBT.lookup (fst r) T = RBT.lookup (abuffers (sasync S)) T \<and>
        RBT.lookup (abuffers (snd r)) T = None) \<or>
      (RBT.lookup (fst r) T = None \<and>
        RBT.lookup (abuffers (snd r)) T = RBT.lookup (abuffers (sasync S)) T)"
  shows "async_inv (take_into r S)"
proof -
  have "enqueued_for T (take_into r S) =
      taken_for T (take_into r S) @ buffered_for T (sasync (take_into r S))" for T
  proof -
    have "enqueued_for T (take_into r S) = enqueued_for T S" by (simp add: enqueued_for_def take_into_def)
    moreover have "sasync (take_into r S) = snd r" by (simp add: take_into_def)
    ultimately show ?thesis
      using async_invD(1) [OF inv, of T] split [of T]
      by (auto simp: taken_into buffered_for_def split: option.splits)
  qed
  moreover have "buffer_ok (sclock S) b" if "RBT.lookup (abuffers (snd r)) T = Some b" for T b
    using async_invD(2) [OF inv, of T b] split [of T] that by auto
  moreover have "buffer_ok (sclock S) b" if "RBT.lookup (fst r) T = Some b" for T b
    using async_invD(2) [OF inv, of T b] split [of T] that by auto
  moreover have "sclock (take_into r S) = sclock S" "sasync (take_into r S) = snd r"
    by (simp_all add: take_into_def)
  ultimately show ?thesis
    using inv unfolding async_inv_def taken_into_ok by simp
qed

lemma async_inv_step:
  assumes inv: "async_inv S" and step: "async_step S e S'"
  shows "async_inv S'"
  using step
proof (cases rule: async_step.cases)
  case (enqueue conf target body opts woken s)
  note lu = enqueue_lookup [OF enqueue(3)]
  have b: "buffered_for T s = buffered_for T (sasync S) @ (if T = target then [(body, opts)] else [])" for T
    by (simp add: buffered_for_def lu split: option.splits)
  have "enqueued_for T S' = taken_for T S' @ buffered_for T (sasync S')" for T
    using async_invD(1) [OF inv, of T] b [of T]
    by (simp add: enqueue(2) enqueued_for_def taken_for_def)
  moreover have "buffer_ok (sclock S) c" if "RBT.lookup (abuffers s) T = Some c" for T c
    using that async_invD(2) [OF inv, of T]
    by (auto simp: lu buffer_ok_def split: if_splits option.splits)
  ultimately show ?thesis using inv by (simp add: async_inv_def enqueue(2))
next
  case (rejected conf target body opts err s)
  from inv rejected_buffers [OF rejected(3)] show ?thesis
    by (simp add: rejected(2) async_inv_def enqueued_for_def taken_for_def buffered_for_def)
next
  case (refused conf err s)
  from inv raw_flush_take_buffers(2) [OF refused(3)] show ?thesis
    by (simp add: refused(2) async_inv_def enqueued_for_def taken_for_def buffered_for_def)
next
  case flush_round
  obtain due s where t: "take_due (sclock S) (sasync S) = (due, s)" by fastforce
  show ?thesis unfolding flush_round(2)
    by (rule take_keeps_inv [OF inv])
      (simp add: t take_due_lookup(1,2) [OF t] split: option.splits)
next
  case (flush_all conf taken s)
  show ?thesis unfolding flush_all(2)
    by (rule take_keeps_inv [OF inv]) (simp add: raw_flush_take_buffers(1) [OF flush_all(3)])
next
  case shutdown
  show ?thesis unfolding shutdown(2)
    by (rule take_keeps_inv [OF inv]) (simp add: take_all_def async_shutdown_def)
next
  case (passes d)
  show ?thesis
    using inv by (auto simp: passes(2) async_inv_def enqueued_for_def taken_for_def
        intro: buffer_ok_later [of "sclock S"])
qed

interpretation buffers: inductive_invariant "(=) start_async" async_moves async_inv
proof
  fix S assume "start_async = S"
  then show "async_inv S"
    by (auto simp: start_async_def new_async_def async_inv_def enqueued_for_def taken_for_def buffered_for_def)
qed (auto simp: async_moves_def intro: async_inv_step)

text \<open>The workers of one flush.\<close>

fun in_flight :: "flush_phase \<Rightarrow> nat list" where
  "in_flight (Flushing i) = [i]"
| "in_flight _ = []"

fun phase_left :: "flush_phase \<Rightarrow> nat" where
  "phase_left Claiming = 1"
| "phase_left (Flushing i) = 2"
| "phase_left Finished = 0"

definition flush_left :: "flush_pool \<Rightarrow> nat" where
  "flush_left P = 2 * (pentries P - pnext P) + sum_list (map phase_left (pworkers P))"

definition flush_inv :: "flush_pool \<Rightarrow> bool" where
  "flush_inv P \<longleftrightarrow>
     mset (map fst (pflushed P)) + mset (concat (map in_flight (pworkers P))) =
       mset [0 ..< min (pnext P) (pentries P)] \<and>
     ptotal P = sum_list (map snd (pflushed P)) \<and>
     (Finished \<in> set (pworkers P) \<longrightarrow> pentries P \<le> pnext P)"

lemma phase_left_le: "w < length ws \<Longrightarrow> phase_left (ws ! w) \<le> sum_list (map phase_left ws)"
  by (rule member_le_sum_list) simp_all

lemma flush_inv_step:
  assumes inv: "flush_inv P" and step: "flush_step P Q"
  shows "flush_inv Q \<and> flush_left Q < flush_left P \<and> pentries Q = pentries P \<and>
    length (pworkers Q) = length (pworkers P)"
  using step
proof (cases rule: flush_step.cases)
  case (claim w)
  note m = mset_concat_update [OF claim(2), of in_flight] and s = sum_list_update [of w "map phase_left (pworkers P)"]
  have pos: "sum_list (map phase_left (pworkers P)) \<ge> 1"
    using phase_left_le [OF claim(2)] claim(3) by simp
  show ?thesis
  proof (cases "pentries P \<le> pnext P")
    case True
    with inv claim m [of Finished] s pos show ?thesis
      by (simp add: flush_inv_def flush_left_def claim_entry_def Let_def map_update)
  next
    case False
    have "Finished \<notin> set (pworkers P)" using False inv by (simp add: flush_inv_def)
    then have "Finished \<notin> set ((pworkers P)[w := Flushing (pnext P)])"
      using set_update_subset_insert [of "pworkers P" w "Flushing (pnext P)"] by auto
    with False inv claim m [of "Flushing (pnext P)"] s pos show ?thesis
      by (simp add: flush_inv_def flush_left_def claim_entry_def Let_def map_update min_def)
  qed
next
  case (flushed w i)
  note m = mset_concat_update [OF flushed(2), of in_flight] and s = sum_list_update [of w "map phase_left (pworkers P)"]
  have pos: "sum_list (map phase_left (pworkers P)) \<ge> 2"
    using phase_left_le [OF flushed(2)] flushed(3) by simp
  have m': "mset (concat (map in_flight (pworkers P))) =
      add_mset i (mset (concat (map in_flight ((pworkers P)[w := Claiming]))))"
    using m [of Claiming] flushed(3) by (simp add: map_update)
  have "Finished \<in> set (pworkers Q) \<Longrightarrow> Finished \<in> set (pworkers P)"
    using set_update_subset_insert [of "pworkers P" w Claiming] by (auto simp: flushed(1) add_flushed_def)
  with inv m' flushed(2,3) s pos show ?thesis
    by (auto simp: flushed(1) flush_inv_def flush_left_def add_flushed_def map_update)
qed

interpretation flushing: terminating flush_inv flush_step flush_left
  by unfold_locales (use flush_inv_step in blast)+

section \<open>Properties\<close>

text \<open>
  Property C27: no payload handed to the asynchronous buffer is lost, taken twice or reordered.
  However enqueues, rounds of the flusher, \<^verbatim>\<open>raw_flush\<close> and the passing of time interleave, the
  payloads taken for a target followed by those still buffered are the payloads enqueued for
  it, in order. After a round of the flusher nothing that is left is due, and after a \<^verbatim>\<open>raw_flush\<close>
  that was not refused, or a shutdown, nothing is left at all.
\<close>

theorem async_payloads_taken_in_order:
  assumes "async_moves\<^sup>*\<^sup>* start_async S"
  shows "enqueued_for T S = taken_for T S @ buffered_for T (sasync S) \<and>
    (async_step S FlushRound S' \<longrightarrow>
       (\<forall>b. RBT.lookup (abuffers (sasync S')) T = Some b \<longrightarrow>
          sclock S < boldest b + atimeout (sasync S) \<and> bbytes b < adue_bytes (sasync S))) \<and>
    (async_step S Shutdown S' \<longrightarrow> taken_for T S' = enqueued_for T S) \<and>
    (raw_flush_take conf (sasync S) = (Inr taken, s) \<longrightarrow>
       taken_for T (take_into (taken, s) S) = enqueued_for T S)"
proof (intro conjI impI allI)
  have inv: "async_inv S" by (rule buffers.inv_reachable [OF refl assms])
  then show "enqueued_for T S = taken_for T S @ buffered_for T (sasync S)" by (rule async_invD)
  {
    assume "async_step S FlushRound S'"
    then have S': "S' = take_into (take_due (sclock S) (sasync S)) S" by (auto elim: async_stepE)
    obtain due s where t: "take_due (sclock S) (sasync S) = (due, s)" by fastforce
    fix b assume b: "RBT.lookup (abuffers (sasync S')) T = Some b"
    then have "RBT.lookup (abuffers (sasync S)) T = Some b" "\<not> buffer_due (sasync S) (sclock S) b"
      by (auto simp: S' t take_into_def take_due_lookup(2) [OF t] split: option.splits if_splits)
    then show "sclock S < boldest b + atimeout (sasync S)" "bbytes b < adue_bytes (sasync S)"
      by (auto simp: buffer_due_def)
  }
  {
    assume step: "async_step S Shutdown S'"
    then have "abuffers (sasync S') = RBT.empty" "sent S' = sent S"
      by (auto elim!: async_stepE simp: take_into_def take_all_def)
    with async_invD(1) [OF async_inv_step [OF inv step], of T] show "taken_for T S' = enqueued_for T S"
      by (simp add: buffered_for_def enqueued_for_def)
  }
  assume take: "raw_flush_take conf (sasync S) = (Inr taken, s)"
  have "async_inv (take_into (taken, s) S)" by (rule async_inv_step [OF inv async_step.flush_all [OF take]])
  from async_invD(1) [OF this, of T] raw_flush_take_buffers(1) [OF take]
  show "taken_for T (take_into (taken, s) S) = enqueued_for T S"
    by (simp add: buffered_for_def enqueued_for_def take_into_def)
qed

text \<open>One payload enqueued under the default settings, then taken by \<^verbatim>\<open>raw_flush\<close>.\<close>

theorem async_payloads_taken_in_order_witness:
  "\<exists>S taken s. raw_flush_take (\<lambda>_. None) (sasync S) = (Inr taken, s) \<and>
     taken_for ''t'' (take_into (taken, s) S) = [(''{}'', default_options)]"
proof -
  let ?conf = "\<lambda>_. None :: setting option"
  define s where "s = fst (async_enqueue 0 ''t'' ''{}'' default_options (1024 * 1024) (async_start new_async))"
  have s: "raw_async_enqueue ?conf 0 ''t'' ''{}'' default_options new_async = (Inr False, s)"
    by (simp add: s_def raw_async_enqueue_def async_apply_settings_def idx_setting_def new_async_def
        async_enqueue_def new_buffer_def async_start_def Let_def)
  define S where "S = start_async\<lparr>sasync := s, sent := [(''t'', (''{}'', default_options))]\<rparr>"
  have "async_step start_async (Enqueue ?conf ''t'' ''{}'' default_options) S"
    using async_step.enqueue [of ?conf start_async "''t''" "''{}''" default_options False s] s
    by (simp add: S_def start_async_def)
  then have run: "async_moves\<^sup>*\<^sup>* start_async S"
    unfolding async_moves_def by (blast intro: r_into_rtranclp)
  obtain taken s' where take: "raw_flush_take ?conf (sasync S) = (Inr taken, s')"
    by (simp add: raw_flush_take_def async_apply_settings_def idx_setting_def take_all_def)
  have "enqueued_for ''t'' S = [(''{}'', default_options)]" by (simp add: S_def enqueued_for_def)
  with take async_payloads_taken_in_order [OF run, of "''t''" _ ?conf taken s'] show ?thesis by metis
qed



text \<open>The payloads of a buffer ingested one after the other, with the rows of each.\<close>

inductive ingest_chain ::
    "'db ingest_payload \<Rightarrow> string \<Rightarrow> async_payload list \<Rightarrow> nat list \<Rightarrow> 'db \<Rightarrow> 'db \<Rightarrow> bool"
  for ingest T where
  stop: "ingest_chain ingest T [] [] db db"
| next_payload: "ingest T p db = Inr (n, db') \<Longrightarrow> ingest_chain ingest T ps ns db' db'' \<Longrightarrow>
    ingest_chain ingest T (p # ps) (n # ns) db db''"

inductive_cases ingest_chainE: "ingest_chain ingest T (p # ps) ns db db'"

lemma flush_payloads_chain:
  "flush_payloads ingest T ps k db = Inr (m, db') \<longleftrightarrow>
     (\<exists>ns. ingest_chain ingest T ps ns db db' \<and> m = k + sum_list ns)"
proof (induction ingest T ps k db rule: flush_payloads.induct)
  case (1 ingest T k db)
  then show ?case by (auto intro: ingest_chain.stop elim: ingest_chain.cases)
next
  case (2 ingest T p ps k db)
  show ?case
  proof (cases "ingest T p db")
    case (Inl e)
    then show ?thesis by (auto elim: ingest_chainE)
  next
    case (Inr r)
    obtain n db1 where r: "r = (n, db1)" by (cases r)
    have "(\<exists>ns. ingest_chain ingest T (p # ps) ns db db' \<and> m = k + sum_list ns) \<longleftrightarrow>
        (\<exists>ns. ingest_chain ingest T ps ns db1 db' \<and> m = k + n + sum_list ns)"
      using Inr r by (force elim: ingest_chainE intro: ingest_chain.next_payload)
    with "2.IH" [of n db1] Inr r show ?thesis by simp
  qed
qed

text \<open>
  Property C31: a buffer is flushed as a whole or not at all. Either its payloads were ingested
  in order and the rows reported are the sum of theirs, or the database is as before and no
  row is reported. An exception leaves the flush, ending the process when it runs in the
  background thread, exactly when every payload was ingested and the commit then failed after
  DuckDB had ended the transaction.
\<close>

theorem async_flush_all_or_nothing:
  "case flush_buffer ingest ans alive T b db of (r, db') \<Rightarrow>
     ((\<exists>ns. ingest_chain ingest T (bpayloads b) ns db db' \<and> r = Inr (sum_list ns)) \<or>
      (db' = db \<and> r = Inr 0) \<or> (db' = db \<and> isl r)) \<and>
     (isl r \<longleftrightarrow> alive \<and> fst ans \<noteq> None \<and> snd ans \<and>
        (\<exists>ns db1. ingest_chain ingest T (bpayloads b) ns db db1))"
proof (cases "flush_payloads ingest T (bpayloads b) 0 db")
  case (Inl e)
  then have "\<nexists>ns db1. ingest_chain ingest T (bpayloads b) ns db db1"
    using flush_payloads_chain [of ingest T "bpayloads b" 0 db] by auto
  with Inl show ?thesis by (auto simp: flush_buffer_def txn_defs)
next
  case (Inr r)
  obtain m db1 where r: "r = (m, db1)" by (cases r)
  then obtain ns where "ingest_chain ingest T (bpayloads b) ns db db1" "m = sum_list ns"
    using Inr flush_payloads_chain [of ingest T "bpayloads b" 0 db m db1] by auto
  with Inr r show ?thesis
    by (auto simp: flush_buffer_def txn_defs split: option.splits)
qed

end
