(* ===== verification/Api.thy ===== *)
theory Api
  imports Process Transforms Async Sql Transactions
begin

text \<open>
  The HTTP API (\<^verbatim>\<open>raw_api.cpp\<close>) and the protobuf error body of \<^verbatim>\<open>raw_otlp_pb.cpp\<close>: the token
  check, the handlers, the routes and the life of the server. A handler is a function of the
  request, the response so far and the world; the exception that leaves it is a value. The HTTP
  server, the JSON reader and writer, protobuf, the SQL engine and the group commit are parameters.
\<close>

unbundle bit_operations_syntax

section \<open>Token check\<close>

text \<open>\<^verbatim>\<open>RawTokenEquals\<close>: all bytes are read before the answer; \<open>acc\<close> is an \<^verbatim>\<open>unsigned char\<close>.\<close>

definition raw_token_equals :: "string \<Rightarrow> string \<Rightarrow> bool" where
  "raw_token_equals provided expected =
     (if length provided \<noteq> length expected then False
      else fold (\<lambda>i acc. acc OR (of_char (provided ! i) XOR of_char (expected ! i)))
             [0..<length provided] (0 :: 8 word) = 0)"

section \<open>Protobuf status\<close>

text \<open>The loop of \<^verbatim>\<open>RawOtlpStatusBytes\<close> that writes the length, seven bits to a byte.\<close>

function length_bytes :: "64 word \<Rightarrow> 8 word list" where
  "length_bytes len =
     (let byte = ucast (len AND 0x7F);
          len = drop_bit 7 len
      in if len \<noteq> 0 then (byte OR 0x80) # length_bytes len else [byte])"
  by pat_completeness auto

lemma unat_drop_7: "unat (drop_bit 7 (w :: 64 word)) = unat w div 128"
  using unat_drop_bit_eq [of 7 w] by (simp only: drop_bit_eq_div) simp

termination length_bytes
proof (relation "measure unat")
  fix len :: "64 word" and byte :: "8 word" and l :: "64 word"
  assume "l = drop_bit 7 len" "l \<noteq> 0"
  then have "unat l = unat len div 128" using unat_drop_7 by simp
  moreover have "unat l \<noteq> 0" using \<open>l \<noteq> 0\<close> by (simp only: unsigned_eq_0_iff) simp
  ultimately have "unat l < unat len" by (cases "unat len = 0") simp_all
  then show "(l, len) \<in> measure unat" by simp
qed simp

declare length_bytes.simps [simp del]

definition raw_otlp_status_bytes :: "string \<Rightarrow> string" where
  "raw_otlp_status_bytes message =
     char_of (0x12 :: nat) # map (\<lambda>byte. char_of (unat byte)) (length_bytes (of_nat (length message))) @ message"

section \<open>Server, requests and responses\<close>

text \<open>\<^verbatim>\<open>RawApiServer\<close>, without the thread and the database handle.\<close>

record api_server =
  api_host :: string
  api_port :: int
  api_token :: string
  api_async :: bool
  api_running :: bool

text \<open>What the code reads of a request: absent headers and parameters are None.\<close>

record http_request =
  hmethod :: string
  hpath :: string
  hheader :: "string \<Rightarrow> string option"
  hparam :: "string \<Rightarrow> string option"
  hbody :: string

text \<open>A response has no status until a handler sets one; the server then answers 200.\<close>

record http_response =
  hstatus :: "nat option"
  hcontent :: string
  hcontent_type :: string

definition no_response :: http_response where
  "no_response = \<lparr>hstatus = None, hcontent = [], hcontent_type = []\<rparr>"

text \<open>
  A value of a query result: its type and what \<^verbatim>\<open>IsNull\<close>, \<^verbatim>\<open>GetValue<T>\<close> and \<^verbatim>\<open>ToString\<close>
  answer.
\<close>

record api_value =
  vtype :: logical_type
  vnull :: bool
  vbool :: bool
  vint64 :: "64 word"
  vdouble :: "64 word"
  vtext :: string

record query_result =
  qnames :: "string list"
  qtypes :: "string list"
  qrows :: "api_value list list"

text \<open>The database, and what a new connection sees of settings, transforms and the async buffers.\<close>

record 'd api_world =
  wdatabase :: 'd
  walive :: bool
  wregistry :: registry
  wsession :: session
  wasync :: async_state
  wnow :: nat

text \<open>
  The code around the API: the reader of query bodies and the writer of answers, the names
  \<^verbatim>\<open>QualifiedName::Parse\<close> finds, a statement on a fresh connection, the seconds it took, the
  group commit, and the protobuf support of the build.
\<close>

record 'd api_env =
  eread :: "string \<Rightarrow> json option"
  ewrite :: "json \<Rightarrow> string option"
  eparse_name :: "string \<Rightarrow> qualified_name result"
  equery :: "string \<Rightarrow> 'd api_world \<Rightarrow> 'd api_world \<times> (string + query_result)"
  eelapsed :: "string \<Rightarrow> 'd api_world \<Rightarrow> 64 word"
  ecommit :: "string \<Rightarrow> parsed_payload \<Rightarrow> string \<Rightarrow> parse_options \<Rightarrow> 'd api_world \<Rightarrow> 'd api_world \<times> ingest_stats result"
  eproto :: bool
  eproto_json :: "string \<Rightarrow> string \<Rightarrow> string + string"
  eproto_response :: "string \<Rightarrow> nat \<Rightarrow> string \<Rightarrow> string"

text \<open>
  What a handler gives: the world after it and its response or the exception that leaves it;
  None stands for the payloads \<open>process_payload\<close> leaves undescribed.
\<close>

type_synonym 'd outcome = "('d api_world \<times> http_response result) option"

text \<open>\<^verbatim>\<open>JsonDoc::Write\<close>: a document the writer refuses is answered as an empty object.\<close>

definition json_doc_write :: "'d api_env \<Rightarrow> json \<Rightarrow> string" where
  "json_doc_write E root = (case ewrite E root of Some data \<Rightarrow> data | None \<Rightarrow> ''{}'')"

definition respond :: "'d api_env \<Rightarrow> nat \<Rightarrow> json \<Rightarrow> http_response \<Rightarrow> http_response" where
  "respond E status root res =
     res\<lparr>hstatus := Some status, hcontent := json_doc_write E root, hcontent_type := ''application/json''\<rparr>"

definition respond_error :: "'d api_env \<Rightarrow> nat \<Rightarrow> string \<Rightarrow> http_response \<Rightarrow> http_response" where
  "respond_error E status message res =
     respond E status (JObj [(''error'', JStr message), (''message'', JStr message), (''hint'', JStr [])]) res"

definition respond_otlp_status :: "nat \<Rightarrow> string \<Rightarrow> http_response \<Rightarrow> http_response" where
  "respond_otlp_status status message res =
     res\<lparr>hstatus := Some status, hcontent := raw_otlp_status_bytes message,
       hcontent_type := ''application/x-protobuf''\<rparr>"

section \<open>Helpers\<close>

definition api_type_names :: "(string \<times> string) list" where
  "api_type_names =
     [(''VARCHAR'', ''String''), (''BIGINT'', ''Int64''), (''INTEGER'', ''Int32''), (''INT32'', ''Int32''),
      (''DOUBLE'', ''Float64''), (''BOOLEAN'', ''Bool''), (''TIMESTAMP'', ''DateTime''),
      (''TIMESTAMP WITH TIME ZONE'', ''DateTime''), (''DATE'', ''Date''), (''JSON'', ''Json''),
      (''UBIGINT'', ''UInt64''), (''UINTEGER'', ''UInt32''), (''FLOAT'', ''Float32''), (''BLOB'', ''Bytes'')]"

definition api_type_name :: "string \<Rightarrow> string" where
  "api_type_name duckdb_type = (case map_of api_type_names duckdb_type of Some name \<Rightarrow> name | None \<Rightarrow> duckdb_type)"

definition API_CREATED_AT_PLACEHOLDER :: string where
  "API_CREATED_AT_PLACEHOLDER = ''1970-01-01T00:00:00Z''"

text \<open>\<^verbatim>\<open>RawQualifiedTarget\<close> of a target as written: parsing the name may throw.\<close>

definition qualified_text :: "'d api_env \<Rightarrow> string \<Rightarrow> string result" where
  "qualified_text E table = bind_result (eparse_name E table) (\<lambda>n. Inr (raw_qualified_target n))"

text \<open>Row count and estimated bytes, both 64-bit: the product wraps.\<close>

definition api_table_stats :: "'d api_env \<Rightarrow> string \<Rightarrow> 'd api_world \<Rightarrow> 'd api_world \<times> (64 word \<times> 64 word) result" where
  "api_table_stats E table w =
     (case qualified_text E table of
        Inl e \<Rightarrow> (w, Inl e)
      | Inr target \<Rightarrow>
          (case equery E (''SELECT COUNT(*)::UBIGINT FROM '' @ target) w of
             (w, Inr result) \<Rightarrow>
               (let total_rows = (case qrows result of [] \<Rightarrow> 0 | row # _ \<Rightarrow> vint64 (row ! 0))
                in (w, Inr (total_rows, total_rows * 64)))
           | (w, Inl _) \<Rightarrow> (w, Inr (0, 0))))"

definition project_organization :: "(string \<times> json) list" where
  "project_organization =
     [(''project'', JObj [(''name'', JStr ''default'')]), (''organization'', JObj [(''name'', JStr ''default'')])]"

definition infer_otlp_transform :: "string \<Rightarrow> string" where
  "infer_otlp_transform body =
     (if contains_text ''\"resourceSpans\"'' body then ''otlp-traces''
      else if contains_text ''\"resourceLogs\"'' body then ''otlp-logs''
      else if contains_text ''\"resourceMetrics\"'' body then ''otlp-metrics''
      else [])"

fun request_header :: "http_request \<Rightarrow> string list \<Rightarrow> string" where
  "request_header req [] = []"
| "request_header req (name # names) =
     (case hheader req name of Some v \<Rightarrow> v | None \<Rightarrow> request_header req names)"

definition header_value :: "http_request \<Rightarrow> string \<Rightarrow> string" where
  "header_value req name = (case hheader req name of Some v \<Rightarrow> v | None \<Rightarrow> [])"

definition param_value :: "http_request \<Rightarrow> string \<Rightarrow> string" where
  "param_value req name = (case hparam req name of Some v \<Rightarrow> v | None \<Rightarrow> [])"

definition value_to_json :: "api_value \<Rightarrow> json" where
  "value_to_json v =
     (if vnull v then JNull
      else case ltype_id (vtype v) of
        ID_BOOLEAN \<Rightarrow> JBool (vbool v)
      | ID_TINYINT \<Rightarrow> JSint (vint64 v)
      | ID_SMALLINT \<Rightarrow> JSint (vint64 v)
      | ID_INTEGER \<Rightarrow> JSint (vint64 v)
      | ID_BIGINT \<Rightarrow> JSint (vint64 v)
      | ID_UTINYINT \<Rightarrow> JSint (vint64 v)
      | ID_USMALLINT \<Rightarrow> JSint (vint64 v)
      | ID_UINTEGER \<Rightarrow> JSint (vint64 v)
      | ID_FLOAT \<Rightarrow> JReal (vdouble v)
      | ID_DOUBLE \<Rightarrow> JReal (vdouble v)
      | _ \<Rightarrow> JStr (vtext v))"

definition authorized :: "'d api_env \<Rightarrow> api_server \<Rightarrow> http_request \<Rightarrow> http_response \<Rightarrow> bool \<times> http_response" where
  "authorized E S req res =
     (if api_token S = [] then (True, res)
      else if raw_token_equals (header_value req ''Authorization'') (''Bearer '' @ api_token S) then (True, res)
      else (False, respond_error E 401 ''missing or invalid bearer token'' res))"

definition request_parse_options :: "registry \<Rightarrow> http_request \<Rightarrow> string \<Rightarrow> parse_options result" where
  "request_parse_options reg req body =
     (let transform = param_value req ''transform'';
          transform = (if transform = [] \<and> body \<noteq> [] then infer_otlp_transform body else transform)
      in bind_result (resolve_transform reg transform (param_value req ''explode''))
           (\<lambda>options. Inr (options\<lparr>ignore_errors := (param_value req ''ignore_errors'' = ''true'')\<rparr>)))"

definition otlp_rejected_field :: "string \<Rightarrow> string" where
  "otlp_rejected_field signal =
     (if signal = ''traces'' then ''rejectedSpans''
      else if signal = ''logs'' then ''rejectedLogRecords'' else ''rejectedDataPoints'')"

primrec raw_message :: "raw_error \<Rightarrow> string" where
  "raw_message (InvalidInput m) = m"
| "raw_message (InternalError m) = m"
| "raw_message (TransactionError m) = m"
| "raw_message (NotImplemented m) = m"
| "raw_message (CastError m) = m"

section \<open>Ingest\<close>

text \<open>The options of an ingest: those of the request, or the transform of the signal.\<close>

definition ingest_options :: "string \<Rightarrow> http_request \<Rightarrow> 'd api_world \<Rightarrow> parse_options result" where
  "ingest_options otlp_signal req w =
     (if otlp_signal = [] then request_parse_options (wregistry w) req (hbody req)
      else resolve_transform (wregistry w) (''otlp-'' @ otlp_signal) [])"

text \<open>The try block: options, parsing, group commit. An exception of any of them is caught.\<close>

definition try_ingest ::
    "lib \<Rightarrow> 'd api_env \<Rightarrow> parse_options result \<Rightarrow> string \<Rightarrow> string \<Rightarrow> 'd api_world \<Rightarrow> ('d api_world \<times> ingest_stats result) option" where
  "try_ingest L E options table text w =
     (case options of
        Inl e \<Rightarrow> Some (w, Inl e)
      | Inr options \<Rightarrow>
          (case process_payload L options text of
             None \<Rightarrow> None
           | Some (Inl e) \<Rightarrow> Some (w, Inl e)
           | Some (Inr parsed) \<Rightarrow> Some (ecommit E table parsed text options w)))"

definition ingest_answer :: "'d api_env \<Rightarrow> string \<Rightarrow> ingest_stats \<Rightarrow> http_response \<Rightarrow> http_response" where
  "ingest_answer E otlp_signal stats res =
     (if otlp_signal \<noteq> [] then
        respond E 200 (JObj [(''partialSuccess'', JObj
          (if serrors stats > 0
           then [(otlp_rejected_field otlp_signal, JUint (of_nat (serrors stats))),
                 (''errorMessage'', JStr ''some records could not be parsed'')]
           else []))]) res
      else respond E 200 (JObj [(''inserted'', JUint (of_nat (srows stats)))]) res)"

definition queued_answer :: "'d api_env \<Rightarrow> string \<Rightarrow> string \<Rightarrow> http_response \<Rightarrow> http_response" where
  "queued_answer E table otlp_signal res =
     (if otlp_signal \<noteq> [] then respond E 200 (JObj [(''partialSuccess'', JObj [])]) res
      else respond E 202 (JObj [(''table'', JStr table), (''queued'', JBool True)]) res)"

definition handle_ingest ::
    "lib \<Rightarrow> 'd api_env \<Rightarrow> api_server \<Rightarrow> string \<Rightarrow> string \<Rightarrow> http_request \<Rightarrow> http_response \<Rightarrow> 'd api_world \<Rightarrow> 'd outcome" where
  "handle_ingest L E S table otlp_signal req res w =
     (if \<not> walive w then Some (w, Inr (respond_error E 503 ''database is no longer available'' res))
      else case ingest_options otlp_signal req w of
        Inl e \<Rightarrow> Some (w, Inl e)
      | Inr options \<Rightarrow>
          if api_async S \<or> async_enabled (wsession w) then
            (case raw_async_enqueue (wsession w) (wnow w) table (hbody req) options (wasync w) of
               (Inl e, a) \<Rightarrow> Some (w\<lparr>wasync := a\<rparr>, Inl e)
             | (Inr _, a) \<Rightarrow> Some (w\<lparr>wasync := a\<rparr>, Inr (queued_answer E table otlp_signal res)))
          else
            map_option (\<lambda>(w, r). (w, Inr (case r of
                Inl e \<Rightarrow> respond_error E 400 (raw_message e) res
              | Inr stats \<Rightarrow> ingest_answer E otlp_signal stats res)))
              (try_ingest L E (ingest_options otlp_signal req w) table (hbody req) w))"

definition handle_otlp_protobuf ::
    "lib \<Rightarrow> 'd api_env \<Rightarrow> api_server \<Rightarrow> string \<Rightarrow> string \<Rightarrow> http_request \<Rightarrow> http_response \<Rightarrow> 'd api_world \<Rightarrow> 'd outcome" where
  "handle_otlp_protobuf L E S table signal req res w =
     (if \<not> eproto E then
        Some (w, Inr (respond_error E 415
          (''this build does not include OTLP/protobuf support; configure the SDK with '' @
           ''OTEL_EXPORTER_OTLP_PROTOCOL=http/json or use a build with the protobuf feature'') res))
      else if \<not> walive w then Some (w, Inr (respond_error E 503 ''database is no longer available'' res))
      else case eproto_json E signal (hbody req) of
        Inl error \<Rightarrow> Some (w, Inr (respond_otlp_status 400 error res))
      | Inr text \<Rightarrow>
          (case resolve_transform (wregistry w) (''otlp-'' @ signal) [] of
             Inl e \<Rightarrow> Some (w, Inl e)
           | Inr options \<Rightarrow>
               let accepted = (\<lambda>errors. res\<lparr>hstatus := Some 200, hcontent :=
                     eproto_response E signal errors (if errors \<noteq> 0 then ''some records could not be parsed'' else []),
                     hcontent_type := ''application/x-protobuf''\<rparr>) in
               if api_async S \<or> async_enabled (wsession w) then
                 (case raw_async_enqueue (wsession w) (wnow w) table text options (wasync w) of
                    (Inl e, a) \<Rightarrow> Some (w\<lparr>wasync := a\<rparr>, Inl e)
                  | (Inr _, a) \<Rightarrow> Some (w\<lparr>wasync := a\<rparr>, Inr (accepted 0)))
               else
                 map_option (\<lambda>(w, r). (w, Inr (case r of
                     Inl e \<Rightarrow> respond_otlp_status 400 (raw_message e) res
                   | Inr stats \<Rightarrow> accepted (serrors stats))))
                   (try_ingest L E (Inr options) table text w)))"

section \<open>Queries and tables\<close>

text \<open>The keys of a row object are C strings: they end at the first NUL.\<close>

definition row_object :: "string list \<Rightarrow> api_value list \<Rightarrow> json" where
  "row_object names row =
     JObj (map (\<lambda>col. (takeWhile (\<lambda>c. c \<noteq> CHR 0x00) (names ! col), value_to_json (row ! col))) [0..<length names])"

definition query_document :: "query_result \<Rightarrow> 64 word \<Rightarrow> json" where
  "query_document result elapsed =
     (let row_count = of_nat (length (qrows result)) in
      JObj [(''meta'', JArr (map (\<lambda>col. JObj [(''name'', JStr (qnames result ! col)),
               (''type'', JStr (api_type_name (qtypes result ! col)))]) [0..<length (qnames result)])),
            (''data'', JArr (map (row_object (qnames result)) (qrows result))),
            (''rows'', JUint row_count),
            (''statistics'', JObj [(''elapsed'', JReal elapsed), (''rows_read'', JUint row_count),
               (''bytes_read'', JUint (row_count * of_nat (length (qnames result)) * 8))]),
            (''hints'', JArr [])])"

definition query_text :: "'d api_env \<Rightarrow> string \<Rightarrow> string option" where
  "query_text E body =
     map_option (\<lambda>root. case obj_get root ''sql'' of Some (JStr sql) \<Rightarrow> sql | _ \<Rightarrow> []) (eread E body)"

definition handle_query :: "'d api_env \<Rightarrow> http_request \<Rightarrow> http_response \<Rightarrow> 'd api_world \<Rightarrow> 'd outcome" where
  "handle_query E req res w =
     Some (if \<not> walive w then (w, Inr (respond_error E 503 ''database is no longer available'' res))
      else case query_text E (hbody req) of
        None \<Rightarrow> (w, Inr (respond_error E 400 ''body must be JSON: {\"sql\": \"...\"}'' res))
      | Some [] \<Rightarrow> (w, Inr (respond_error E 400 ''body must be JSON: {\"sql\": \"...\"}'' res))
      | Some sql \<Rightarrow>
          (case equery E sql w of
             (w', Inl error) \<Rightarrow> (w', Inr (respond_error E 400 error res))
           | (w', Inr result) \<Rightarrow> (w', Inr (respond E 200 (query_document result (eelapsed E sql w)) res))))"

text \<open>The entries of the listing; the statistics of each table are read by a statement of their own.\<close>

fun table_entries :: "'d api_env \<Rightarrow> string list \<Rightarrow> 'd api_world \<Rightarrow> 'd api_world \<times> json list result" where
  "table_entries E [] w = (w, Inr [])"
| "table_entries E (name # names) w =
     (case api_table_stats E name w of
        (w, Inl e) \<Rightarrow> (w, Inl e)
      | (w, Inr stats) \<Rightarrow>
          (case table_entries E names w of
             (w, Inl e) \<Rightarrow> (w, Inl e)
           | (w, Inr tables) \<Rightarrow>
               (w, Inr (JObj [(''name'', JStr name), (''created_at'', JStr API_CREATED_AT_PLACEHOLDER),
                  (''total_rows'', JUint (fst stats)), (''total_bytes'', JUint (snd stats))] # tables))))"

definition handle_list_tables :: "'d api_env \<Rightarrow> http_response \<Rightarrow> 'd api_world \<Rightarrow> 'd outcome" where
  "handle_list_tables E res w =
     Some (if \<not> walive w then (w, Inr (respond_error E 503 ''database is no longer available'' res))
      else case equery E ''SELECT table_name FROM duckdb_tables() WHERE NOT internal ORDER BY table_name'' w of
        (w, Inl error) \<Rightarrow> (w, Inr (respond_error E 500 error res))
      | (w, Inr result) \<Rightarrow>
          (case table_entries E (map (\<lambda>row. vtext (row ! 0)) (qrows result)) w of
             (w, Inl e) \<Rightarrow> (w, Inl e)
           | (w, Inr tables) \<Rightarrow> (w, Inr (respond E 200 (JObj ((''tables'', JArr tables) # project_organization)) res))))"

definition handle_describe :: "'d api_env \<Rightarrow> string \<Rightarrow> http_response \<Rightarrow> 'd api_world \<Rightarrow> 'd outcome" where
  "handle_describe E table res w =
     Some (if \<not> walive w then (w, Inr (respond_error E 503 ''database is no longer available'' res))
      else case qualified_text E table of
        Inl e \<Rightarrow> (w, Inl e)
      | Inr target \<Rightarrow>
          (case equery E (''DESCRIBE '' @ target) w of
             (w, Inl error) \<Rightarrow> (w, Inr (respond_error E 404 error res))
           | (w, Inr result) \<Rightarrow>
               (case api_table_stats E table w of
                  (w, Inl e) \<Rightarrow> (w, Inl e)
                | (w, Inr stats) \<Rightarrow>
                    (w, Inr (respond E 200 (JObj ((''table'', JObj
                       [(''name'', JStr table), (''created_at'', JStr API_CREATED_AT_PLACEHOLDER),
                        (''total_rows'', JUint (fst stats)), (''total_bytes'', JUint (snd stats)),
                        (''columns'', JArr (map (\<lambda>row. JObj [(''name'', JStr (vtext (row ! 0))),
                           (''type'', JStr (api_type_name (vtext (row ! 1))))]) (qrows result)))]) # project_organization)) res)))))"

definition handle_drop :: "'d api_env \<Rightarrow> string \<Rightarrow> http_response \<Rightarrow> 'd api_world \<Rightarrow> 'd outcome" where
  "handle_drop E table res w =
     Some (if \<not> walive w then (w, Inr (respond_error E 503 ''database is no longer available'' res))
      else case qualified_text E table of
        Inl e \<Rightarrow> (w, Inl e)
      | Inr target \<Rightarrow>
          (case equery E (''DROP TABLE IF EXISTS '' @ target) w of
             (w, Inl error) \<Rightarrow> (w, Inr (respond_error E 400 error res))
           | (w, Inr _) \<Rightarrow> (w, Inr (respond E 200 (JObj [(''dropped'', JStr table)]) res))))"

section \<open>Routes\<close>

text \<open>The patterns of the routes; a match gives the first group, and the dot matches no newline.\<close>

datatype route_pattern = Everything_under string | Exactly string | Rest_of string | One_of string "string list"

fun path_match :: "route_pattern \<Rightarrow> string \<Rightarrow> string option" where
  "path_match (Everything_under p) path =
     (if starts_with path p \<and> CHR 0x0A \<notin> set (drop (length p) path) then Some [] else None)"
| "path_match (Exactly p) path = (if path = p then Some [] else None)"
| "path_match (Rest_of p) path =
     (if starts_with path p \<and> drop (length p) path \<noteq> [] \<and> CHR 0x0A \<notin> set (drop (length p) path)
      then Some (drop (length p) path) else None)"
| "path_match (One_of p words) path =
     (if starts_with path p \<and> drop (length p) path \<in> set words then Some (drop (length p) path) else None)"

type_synonym 'd api_handler = "string \<Rightarrow> http_request \<Rightarrow> http_response \<Rightarrow> 'd api_world \<Rightarrow> 'd outcome"

definition guarded :: "'d api_env \<Rightarrow> api_server \<Rightarrow> 'd api_handler \<Rightarrow> 'd api_handler" where
  "guarded E S handler part req res w =
     (case authorized E S req res of
        (True, res) \<Rightarrow> handler part req res w
      | (False, res) \<Rightarrow> Some (w, Inr res))"

text \<open>The body of the OTLP route: the table from the headers, the handler from the content type.\<close>

definition handle_otlp :: "lib \<Rightarrow> 'd api_env \<Rightarrow> api_server \<Rightarrow> 'd api_handler" where
  "handle_otlp L E S signal req res w =
     (let table = request_header req [''x-rawduck-'' @ signal @ ''-table'', ''x-rawtree-'' @ signal @ ''-table'',
            ''x-rawduck-table'', ''x-rawtree-table''];
          table = (if table = [] then ''otel_'' @ signal else table)
      in if contains_text ''protobuf'' (header_value req ''Content-Type'')
         then handle_otlp_protobuf L E S table signal req res w
         else handle_ingest L E S table signal req res w)"

definition register_routes :: "lib \<Rightarrow> 'd api_env \<Rightarrow> api_server \<Rightarrow> (string \<times> route_pattern \<times> 'd api_handler) list" where
  "register_routes L E S =
     [(''OPTIONS'', Everything_under ''/'', \<lambda>part req res w. Some (w, Inr (res\<lparr>hstatus := Some 204\<rparr>))),
      (''GET'', Exactly ''/health'', \<lambda>part req res w.
         Some (w, Inr (res\<lparr>hcontent := ''{\"status\":\"ok\"}'', hcontent_type := ''application/json''\<rparr>))),
      (''POST'', Exactly ''/v1/query'', guarded E S (\<lambda>part. handle_query E)),
      (''GET'', Exactly ''/v1/tables'', guarded E S (\<lambda>part req. handle_list_tables E)),
      (''GET'', Rest_of ''/v1/tables/'', guarded E S (\<lambda>part req. handle_describe E part)),
      (''POST'', Rest_of ''/v1/tables/'', guarded E S (\<lambda>part. handle_ingest L E S part [])),
      (''DELETE'', Rest_of ''/v1/tables/'', guarded E S (\<lambda>part req. handle_drop E part)),
      (''POST'', One_of ''/otlp/v1/'' [''traces'', ''logs'', ''metrics''], guarded E S (handle_otlp L E S))]"

text \<open>
  The server's dispatch: the handler of the first route of the method that matches the whole path;
  404 where there is none; 200 where the handler set no status; 500 for an exception.
\<close>

fun dispatch :: "(string \<times> route_pattern \<times> 'd api_handler) list \<Rightarrow> http_request \<Rightarrow> 'd api_world \<Rightarrow> 'd outcome" where
  "dispatch [] req w = Some (w, Inr (no_response\<lparr>hstatus := Some 404\<rparr>))"
| "dispatch ((verb, pattern, handler) # rs) req w =
     (if hmethod req = verb then
        case path_match pattern (hpath req) of
          Some part \<Rightarrow> handler part req no_response w
        | None \<Rightarrow> dispatch rs req w
      else dispatch rs req w)"

definition serve :: "lib \<Rightarrow> 'd api_env \<Rightarrow> api_server \<Rightarrow> http_request \<Rightarrow> 'd api_world \<Rightarrow> ('d api_world \<times> http_response) option" where
  "serve L E S req w =
     map_option (\<lambda>(w, r). (w, case r of
         Inl e \<Rightarrow> no_response\<lparr>hstatus := Some 500\<rparr>
       | Inr res \<Rightarrow> if hstatus res = None then res\<lparr>hstatus := Some 200\<rparr> else res))
       (dispatch (register_routes L E S) req w)"

section \<open>Life of the server\<close>

datatype api_argument = Null_arg | Text_arg string | Int_arg int | Bool_arg bool

record serve_bind_data =
  bind_host :: string
  bind_port :: int
  bind_token :: string
  bind_async :: bool

definition raw_serve_bind :: "(string \<Rightarrow> api_argument option) \<Rightarrow> serve_bind_data" where
  "raw_serve_bind named =
     \<lparr>bind_host = (case named ''host'' of Some (Text_arg t) \<Rightarrow> t | _ \<Rightarrow> ''127.0.0.1''),
      bind_port = (case named ''port'' of Some (Int_arg i) \<Rightarrow> i | _ \<Rightarrow> 9999),
      bind_token = (case named ''token'' of Some (Text_arg t) \<Rightarrow> t | _ \<Rightarrow> []),
      bind_async = (case named ''async'' of Some (Bool_arg b) \<Rightarrow> b | _ \<Rightarrow> False)\<rparr>"

text \<open>\<open>bound\<close> is what binding the port answers. A row of the result is host, port and whether a token is asked for.\<close>

definition raw_serve :: "bool \<Rightarrow> serve_bind_data \<Rightarrow> api_server \<Rightarrow> api_server \<times> (string \<times> int \<times> bool) result" where
  "raw_serve bound b api =
     (if api_running api then (api, Inl (InvalidInput ''RawDuck: the API server is already running''))
      else
        let api = api\<lparr>api_host := bind_host b, api_port := bind_port b, api_token := bind_token b,
              api_async := bind_async b\<rparr> in
        if \<not> bound then (api, Inl (InternalError ''RawDuck: cannot bind API server''))
        else (api\<lparr>api_running := True\<rparr>, Inr (bind_host b, bind_port b, bind_token b \<noteq> [])))"

definition raw_serve_stop :: "api_server \<Rightarrow> api_server \<times> bool" where
  "raw_serve_stop api = (api\<lparr>api_running := False\<rparr>, api_running api)"

section \<open>The token\<close>

lemma of_char_byte_iff: "(of_char c :: 8 word) = of_char d \<longleftrightarrow> c = d"
proof
  have unat: "unat (of_char a :: 8 word) = of_char a" for a
  proof -
    have "(of_char a :: 8 word) = of_nat (of_char a)" by (rule of_nat_of_char [symmetric])
    then show ?thesis by (simp add: unat_of_nat)
  qed
  assume "(of_char c :: 8 word) = of_char d"
  then have "(of_char c :: nat) = of_char d" by (metis unat)
  then show "c = d" by simp
qed simp

lemma or_zero_iff: "(a :: 'a::len word) OR b = 0 \<longleftrightarrow> a = 0 \<and> b = 0"
  by (rule or_eq_0_iff)

lemma fold_or_zero:
  "fold (\<lambda>i acc. acc OR f i) is a = (0 :: 8 word) \<longleftrightarrow> a = 0 \<and> (\<forall>i \<in> set is. f i = 0)"
  by (induction "is" arbitrary: a) (auto simp: or_zero_iff)

lemma xor_zero_iff: "(a :: 'a::len word) XOR b = 0 \<longleftrightarrow> a = b"
proof
  assume zero: "a XOR b = 0"
  have "a = a XOR (b XOR b)" by simp
  also have "\<dots> = (a XOR b) XOR b" by (simp only: xor.assoc)
  also have "\<dots> = b" by (simp add: zero)
  finally show "a = b" .
qed simp

lemma raw_token_equals_iff: "raw_token_equals provided expected \<longleftrightarrow> provided = expected"
proof -
  have "fold (\<lambda>i acc. acc OR (of_char (provided ! i) XOR of_char (expected ! i))) [0..<length provided] (0 :: 8 word) = 0 \<longleftrightarrow>
      (\<forall>i < length provided. provided ! i = expected ! i)"
    unfolding fold_or_zero xor_zero_iff of_char_byte_iff by auto
  then show ?thesis by (simp only: raw_token_equals_def list_eq_iff_nth_eq) auto
qed

section \<open>Status bytes\<close>

text \<open>The length and the message of a length-delimited field, read as protobuf reads them.\<close>

fun read_length :: "string \<Rightarrow> (nat \<times> string) option" where
  "read_length [] = None"
| "read_length (c # s) =
     (let byte = of_char c :: nat in
      if byte < 128 then Some (byte, s)
      else map_option (\<lambda>(n, rest). (byte - 128 + 128 * n, rest)) (read_length s))"

definition read_status :: "string \<Rightarrow> string option" where
  "read_status bytes =
     (case bytes of
        [] \<Rightarrow> None
      | tag # s \<Rightarrow>
          if of_char tag = (0x12 :: nat)
          then (case read_length s of Some (n, rest) \<Rightarrow> if length rest = n then Some rest else None | None \<Rightarrow> None)
          else None)"

lemma low_byte: "unat (ucast ((w :: 64 word) AND 0x7F) :: 8 word) = unat w mod 128"
proof -
  have "w AND 0x7F = take_bit 7 w" by (simp add: mask_eq_exp_minus_1 take_bit_eq_mask)
  then have "unat (w AND 0x7F) = unat w mod 128"
    using unsigned_take_bit_eq [of 7 w, where ?'a = nat] by (simp only: take_bit_eq_mod) simp
  moreover have "unat w mod 128 mod 256 = unat w mod 128" by simp
  ultimately show ?thesis by (simp add: unsigned_ucast_eq take_bit_eq_mod)
qed

lemma continued_byte:
  assumes "unat b < 128"
  shows "unat (b OR 0x80 :: 8 word) = 128 + unat b"
proof -
  have "\<not> bit (unat b) 7" using assms by (simp add: bit_iff_odd)
  then have "\<not> bit b 7" by (simp add: bit_unsigned_iff)
  then have "b AND 0x80 = 0" using and_exp_eq_0_iff_not_bit [of b 7] by simp
  then have "b OR 0x80 = b + 0x80" by (rule disjunctive_add_eq_or [symmetric])
  moreover have "unat (b + 0x80) = 128 + unat b" using assms by (simp add: unat_word_ariths)
  ultimately show ?thesis by (simp only:)
qed

lemma read_length_bytes:
  "read_length (map (\<lambda>byte. char_of (unat byte)) (length_bytes w) @ rest) = Some (unat w, rest)"
proof (induction w rule: length_bytes.induct)
  case (1 w)
  let ?b = "ucast (w AND 0x7F) :: 8 word"
  have low: "unat ?b = unat w mod 128" by (rule low_byte)
  show ?case
  proof (cases "drop_bit 7 w = 0")
    case True
    then have "unat w div 128 = 0" using unat_drop_7 [of w] by simp
    then have "unat w mod 128 = unat w" "unat w < 128" by (simp_all add: div_eq_0_iff)
    with True low show ?thesis by (simp add: length_bytes.simps [of w])
  next
    case False
    have b: "unat (?b OR 0x80) = 128 + unat w mod 128" using continued_byte [of ?b] low by simp
    have "read_length (map (\<lambda>byte. char_of (unat byte)) (length_bytes (drop_bit 7 w)) @ rest) = Some (unat w div 128, rest)"
      using 1 [OF refl refl False] by (simp add: unat_drop_7)
    with False b show ?thesis by (simp add: length_bytes.simps [of w] Let_def)
  qed
qed

text \<open>
  Property C20: the error body the collector encodes by hand is a protobuf status. Whatever the
  message, a reader of the length-delimited field finds exactly the message and nothing after it.
\<close>

theorem otlp_status_bytes_read:
  assumes "length message < 2 ^ 64"
  shows "read_status (raw_otlp_status_bytes message) = Some message"
proof -
  have "unat (of_nat (length message) :: 64 word) = length message" using assms by (simp add: unat_of_nat)
  then show ?thesis by (simp add: read_status_def raw_otlp_status_bytes_def read_length_bytes)
qed

theorem otlp_status_bytes_read_witness:
  "read_status (raw_otlp_status_bytes (replicate 300 (CHR ''x''))) = Some (replicate 300 (CHR ''x''))"
  by (rule otlp_status_bytes_read) simp

section \<open>Routes and handlers\<close>

lemma guarded_refuses:
  assumes "api_token S \<noteq> []" "hheader req ''Authorization'' \<noteq> Some (''Bearer '' @ api_token S)"
  shows "guarded E S h part req res w = Some (w, Inr (respond_error E 401 ''missing or invalid bearer token'' res))"
proof -
  have "header_value req ''Authorization'' \<noteq> ''Bearer '' @ api_token S"
    using assms(2) by (cases "hheader req ''Authorization''") (auto simp: header_value_def)
  then show ?thesis using assms(1) by (simp add: guarded_def authorized_def raw_token_equals_iff)
qed

lemma guarded_passes:
  assumes "api_token S = [] \<or> hheader req ''Authorization'' = Some (''Bearer '' @ api_token S)"
  shows "guarded E S h part req res w = h part req res w"
  using assms by (auto simp: guarded_def authorized_def header_value_def raw_token_equals_iff)

lemma handlers_ignore_token:
  "handle_ingest L E (S\<lparr>api_token := t\<rparr>) = handle_ingest L E S"
  "handle_otlp L E (S\<lparr>api_token := t\<rparr>) = handle_otlp L E S"
proof -
  have async: "api_async (S\<lparr>api_token := t\<rparr>) = api_async S" by simp
  show ingest: "handle_ingest L E (S\<lparr>api_token := t\<rparr>) = handle_ingest L E S"
    by (intro ext) (unfold handle_ingest_def async, rule refl)
  show "handle_otlp L E (S\<lparr>api_token := t\<rparr>) = handle_otlp L E S"
    by (intro ext) (unfold handle_otlp_def handle_otlp_protobuf_def ingest async, rule refl)
qed

lemma register_routes_cases:
  assumes "(verb, pattern, h) \<in> set (register_routes L E S)"
  obtains (preflight) "verb = ''OPTIONS''" "h = (\<lambda>part req res w. Some (w, Inr (res\<lparr>hstatus := Some 204\<rparr>)))"
  | (health) "verb = ''GET''" "pattern = Exactly ''/health''"
      "h = (\<lambda>part req res w. Some (w, Inr (res\<lparr>hcontent := ''{\"status\":\"ok\"}'', hcontent_type := ''application/json''\<rparr>)))"
  | (guarded) handler where "h = guarded E S handler"
  using assms unfolding register_routes_def by auto

lemma dispatch_constant:
  assumes "\<And>verb pattern h part. (verb, pattern, h) \<in> set rs \<Longrightarrow> hmethod req = verb \<Longrightarrow>
      path_match pattern (hpath req) = Some part \<Longrightarrow> \<exists>r. (\<forall>w. h part req no_response w = Some (w, Inr r)) \<and> Q r"
    and "Q (no_response\<lparr>hstatus := Some 404\<rparr>)"
  shows "\<exists>r. (\<forall>w. dispatch rs req w = Some (w, Inr r)) \<and> Q r"
  using assms(1)
proof (induction rs)
  case Nil
  then show ?case using assms(2) by auto
next
  case (Cons route rs)
  obtain verb pattern h where route: "route = (verb, pattern, h)" by (cases route) auto
  have rest: "\<exists>r. (\<forall>w. dispatch rs req w = Some (w, Inr r)) \<and> Q r"
    by (rule Cons.IH, rule Cons.prems) auto
  show ?case
  proof (cases "hmethod req = verb \<and> path_match pattern (hpath req) \<noteq> None")
    case True
    then obtain part where "path_match pattern (hpath req) = Some part" by auto
    with True Cons.prems [of verb pattern h part] show ?thesis by (simp add: route)
  next
    case False
    with rest show ?thesis by (auto simp: route)
  qed
qed

text \<open>
  Property C16: the token is the only gate. With a token set, a request without exactly that
  bearer token changes nothing and is answered without looking at the database: 401, or 404 where
  there is no route; only the preflight and the health check are open. A request with the token is
  handled as by a server that asks for none.
\<close>

theorem api_requires_token:
  assumes "api_token S \<noteq> []"
  shows "if hheader req ''Authorization'' = Some (''Bearer '' @ api_token S)
    then serve L E S req w = serve L E (S\<lparr>api_token := []\<rparr>) req w
    else \<exists>r. (\<forall>w. serve L E S req w = Some (w, r)) \<and>
      (hmethod req = ''OPTIONS'' \<or> hmethod req = ''GET'' \<and> hpath req = ''/health'' \<or> hstatus r \<in> {Some 401, Some 404})"
proof (cases "hheader req ''Authorization'' = Some (''Bearer '' @ api_token S)")
  case True
  then show ?thesis
    by (simp add: serve_def register_routes_def guarded_passes handlers_ignore_token)
next
  case False
  let ?open = "hmethod req = ''OPTIONS'' \<or> hmethod req = ''GET'' \<and> hpath req = ''/health''"
  note refused = guarded_refuses [OF assms False]
  have "\<exists>r. (\<forall>w. dispatch (register_routes L E S) req w = Some (w, Inr r)) \<and> (?open \<or> hstatus r \<in> {Some 401, Some 404})"
  proof (rule dispatch_constant)
    fix verb pattern h part
    assume "(verb, pattern, h) \<in> set (register_routes L E S)" "hmethod req = verb"
      "path_match pattern (hpath req) = Some part"
    then show "\<exists>r. (\<forall>w. h part req no_response w = Some (w, Inr r)) \<and> (?open \<or> hstatus r \<in> {Some 401, Some 404})"
      by (elim register_routes_cases) (auto simp: refused respond_error_def respond_def split: if_splits)
  qed simp
  then show ?thesis using False by (auto simp: serve_def)
qed

text \<open>A database that counts its statements, a server and a request that drops a table.\<close>

definition sample_env :: "nat api_env" where
  "sample_env =
     \<lparr>eread = (\<lambda>s. if s = ''q'' then Some (JObj [(''sql'', JStr ''SELECT'')]) else None), ewrite = (\<lambda>_. Some ''json''),
      eparse_name = (\<lambda>s. Inr \<lparr>qcatalog = [], qschema = [], qname = s\<rparr>),
      equery = (\<lambda>sql w. (w\<lparr>wdatabase := Suc (wdatabase w)\<rparr>,
        Inr \<lparr>qnames = [''n''], qtypes = [''BIGINT''],
          qrows = [[\<lparr>vtype = TBigint, vnull = False, vbool = False, vint64 = 7, vdouble = 0, vtext = ''7''\<rparr>]]\<rparr>)),
      eelapsed = (\<lambda>sql w. 0),
      ecommit = (\<lambda>table p text opts w. (w\<lparr>wdatabase := Suc (wdatabase w)\<rparr>,
        Inr \<lparr>screated = True, sadded = 0, swidened = 0, srows = length (prows (payload p)), serrors = 0\<rparr>)),
      eproto = True, eproto_json = (\<lambda>signal body. if body = [] then Inl ''bad'' else Inr body),
      eproto_response = (\<lambda>signal n m. m)\<rparr>"

definition sample_server :: "string \<Rightarrow> api_server" where
  "sample_server token = \<lparr>api_host = ''h'', api_port = 9999, api_token = token, api_async = False, api_running = True\<rparr>"

definition sample_request :: "string \<Rightarrow> string \<Rightarrow> string option \<Rightarrow> http_request" where
  "sample_request verb path token =
     \<lparr>hmethod = verb, hpath = path, hheader = [''Authorization'' \<mapsto> ''Bearer '' @ (case token of Some t \<Rightarrow> t | None \<Rightarrow> [])],
      hparam = Map.empty, hbody = ''q''\<rparr>"

definition sample_world :: "nat api_world" where
  "sample_world = \<lparr>wdatabase = 0, walive = True, wregistry = RBT.empty, wsession = Map.empty, wasync = new_async, wnow = 0\<rparr>"

theorem api_requires_token_witness:
  "(\<exists>r. (\<forall>w. serve sample_lib sample_env (sample_server ''s'') (sample_request ''DELETE'' ''/v1/tables/t'' None) w = Some (w, r)) \<and>
      hstatus r \<in> {Some 401, Some 404}) \<and>
   serve sample_lib sample_env (sample_server ''s'') (sample_request ''DELETE'' ''/v1/tables/t'' (Some ''s'')) sample_world =
     serve sample_lib sample_env (sample_server []) (sample_request ''DELETE'' ''/v1/tables/t'' (Some ''s'')) sample_world"
  using api_requires_token [of "sample_server ''s''" "sample_request ''DELETE'' ''/v1/tables/t'' None" sample_lib sample_env sample_world]
    api_requires_token [of "sample_server ''s''" "sample_request ''DELETE'' ''/v1/tables/t'' (Some ''s'')" sample_lib sample_env sample_world]
  by (simp add: sample_server_def sample_request_def)

text \<open>
  A protobuf answer and a JSON answer to the same export: the same response, an error with the same
  status and message, or an acceptance with the same status and count of rejected records.
\<close>

definition same_answer :: "'d api_env \<Rightarrow> string \<Rightarrow> http_response \<Rightarrow> http_response \<Rightarrow> http_response \<Rightarrow> bool" where
  "same_answer E signal res a b \<longleftrightarrow> a = b \<or>
     hstatus a = hstatus b \<and>
     ((\<exists>m. hcontent a = raw_otlp_status_bytes m \<and> b = respond_error E 400 m res) \<or>
      (\<exists>stats. hcontent a = eproto_response E signal (serrors stats)
           (if serrors stats \<noteq> 0 then ''some records could not be parsed'' else []) \<and>
         b = ingest_answer E signal stats res))"

lemma same_answer_error: "same_answer E signal res (respond_otlp_status 400 m res) (respond_error E 400 m res)"
  by (auto simp: same_answer_def respond_otlp_status_def respond_error_def respond_def)

lemma same_answer_accepted:
  assumes "signal \<noteq> []"
  shows "same_answer E signal res
    (res\<lparr>hstatus := Some 200, hcontent := eproto_response E signal (serrors stats)
        (if serrors stats \<noteq> 0 then ''some records could not be parsed'' else []), hcontent_type := t\<rparr>)
    (ingest_answer E signal stats res)"
  unfolding same_answer_def
  by (intro disjI2 conjI exI [of _ stats]) (simp_all add: assms ingest_answer_def respond_def)

lemma same_answer_queued:
  assumes "signal \<noteq> []"
  shows "same_answer E signal res (res\<lparr>hstatus := Some 200, hcontent := eproto_response E signal 0 [], hcontent_type := t\<rparr>)
    (queued_answer E table signal res)"
proof -
  have "queued_answer E table signal res = ingest_answer E signal \<lparr>screated = False, sadded = 0, swidened = 0, srows = 0, serrors = 0\<rparr> res"
    using assms by (simp add: queued_answer_def ingest_answer_def)
  then show ?thesis
    using same_answer_accepted [OF assms, where stats = "\<lparr>screated = False, sadded = 0, swidened = 0, srows = 0, serrors = 0\<rparr>"] by simp
qed

text \<open>
  Property C17: a protobuf export is an OTLP/JSON export. A body that decodes to a JSON text leaves
  the world as that text sent as JSON does, and is answered as that one: with the same status, the
  same count of rejected records and the same message of an error, or the same exception.
\<close>

theorem protobuf_ingests_as_json:
  assumes "eproto E" "signal \<noteq> []" "eproto_json E signal (hbody req) = Inr text"
  shows "rel_option (rel_prod (=) (rel_sum (=) (same_answer E signal res)))
    (handle_otlp_protobuf L E S table signal req res w)
    (handle_ingest L E S table signal (req\<lparr>hbody := text\<rparr>) res w)"
proof (cases "resolve_transform (wregistry w) (''otlp-'' @ signal) []")
  case (Inl e)
  then show ?thesis using assms
    by (simp add: handle_otlp_protobuf_def handle_ingest_def ingest_options_def same_answer_def)
next
  case (Inr options)
  have opts: "ingest_options signal (req\<lparr>hbody := text\<rparr>) w = Inr options"
    using assms(2) Inr by (simp add: ingest_options_def)
  have caught: "rel_option (rel_prod (=) (rel_sum (=) (same_answer E signal res)))
      (map_option (\<lambda>(w, r). (w, Inr (f r))) x) (map_option (\<lambda>(w, r). (w, Inr (g r))) x)"
    if "\<And>r. same_answer E signal res (f r) (g r)" for f g :: "ingest_stats result \<Rightarrow> http_response"
      and x :: "('a api_world \<times> ingest_stats result) option"
    using that by (cases x) (auto split: prod.splits)
  have accepted: "same_answer E signal res
      (res\<lparr>hstatus := Some 200, hcontent := eproto_response E signal (serrors stats) ''some records could not be parsed'', hcontent_type := t\<rparr>)
      (ingest_answer E signal stats res)" if "0 < serrors stats" for t stats
    using same_answer_accepted [OF assms(2), where E = E and res = res and stats = stats and t = t] that by simp
  have clean: "same_answer E signal res
      (res\<lparr>hstatus := Some 200, hcontent := eproto_response E signal 0 [], hcontent_type := t\<rparr>)
      (ingest_answer E signal stats res)" if "serrors stats = 0" for t stats
    using same_answer_accepted [OF assms(2), where E = E and res = res and stats = stats and t = t] that by simp
  note answers = same_answer_error accepted clean same_answer_queued [OF assms(2)]
  show ?thesis
  proof (cases "\<not> walive w \<or> api_async S \<or> async_enabled (wsession w)")
    case True
    then show ?thesis using assms Inr opts answers
      by (auto simp: handle_otlp_protobuf_def handle_ingest_def Let_def same_answer_def [of _ _ _ "respond_error _ _ _ _"]
          split: sum.split prod.split)
  next
    case False
    then show ?thesis using assms Inr opts
      by (simp add: handle_otlp_protobuf_def handle_ingest_def Let_def)
        (rule caught, simp add: answers split: sum.split)
  qed
qed

theorem protobuf_ingests_as_json_witness:
  "\<exists>w' a b. handle_otlp_protobuf sample_lib sample_env (sample_server []) ''t'' ''logs'' (sample_request [] [] None) no_response sample_world = Some (w', Inr a) \<and>
     handle_ingest sample_lib sample_env (sample_server []) ''t'' ''logs'' (sample_request [] [] None) no_response sample_world = Some (w', Inr b) \<and>
     wdatabase w' = 1 \<and> same_answer sample_env ''logs'' no_response a b"
proof -
  let ?req = "sample_request [] [] None"
  have body: "?req\<lparr>hbody := ''q''\<rparr> = ?req" by (simp add: sample_request_def)
  have hyps: "eproto sample_env" "eproto_json sample_env ''logs'' (hbody ?req) = Inr ''q''"
    by (simp_all add: sample_env_def sample_request_def)
  have "map_option (\<lambda>(w, r). (wdatabase w, isl r))
      (handle_otlp_protobuf sample_lib sample_env (sample_server []) ''t'' ''logs'' ?req no_response sample_world) = Some (1, False)"
    by code_simp
  then obtain w' r where r: "handle_otlp_protobuf sample_lib sample_env (sample_server []) ''t'' ''logs'' ?req no_response sample_world = Some (w', r)"
    "wdatabase w' = 1" "\<not> isl r" by auto
  then obtain a where a: "handle_otlp_protobuf sample_lib sample_env (sample_server []) ''t'' ''logs'' ?req no_response sample_world = Some (w', Inr a)"
    by (cases r) auto
  from protobuf_ingests_as_json [of sample_env "''logs''" ?req "''q''" no_response sample_lib "sample_server []" "''t''" sample_world]
    hyps a r(2) show ?thesis
    unfolding body by (auto simp: option_rel_Some1 rel_sum.simps)
qed

section \<open>Queries\<close>

lemma row_object_lookup:
  assumes "distinct names" "j < length names" "CHR 0x00 \<notin> set (names ! j)" "\<forall>n \<in> set names. CHR 0x00 \<notin> set n"
  shows "obj_get (row_object names row) (names ! j) = Some (value_to_json (row ! j))"
proof -
  have whole: "takeWhile (\<lambda>c. c \<noteq> CHR 0x00) (names ! i) = names ! i" if "i < length names" for i
    using assms(4) that by (auto simp: takeWhile_eq_all_conv)
  have "members (row_object names row) = map (\<lambda>i. (names ! i, value_to_json (row ! i))) [0..<length names]"
    by (simp add: row_object_def whole)
  moreover have "map_of (map (\<lambda>i. (names ! i, value_to_json (row ! i))) [0..<length names]) (names ! j) = Some (value_to_json (row ! j))"
    using assms(1,2) by (intro map_of_is_SomeI) (auto simp: distinct_map inj_on_def distinct_conv_nth comp_def)
  ultimately show ?thesis by (simp add: obj_get_def)
qed

text \<open>
  A query answer is the query result. A statement that succeeds is run once, its answer
  has a row object for each row, in order, and the count of them, and each object has at the name of
  a column the value of the cell, when the column names differ.
\<close>

theorem query_answers_result:
  assumes "walive w" "query_text E (hbody req) = Some sql" "sql \<noteq> []" "equery E sql w = (w', Inr result)"
    and "distinct (qnames result)" "\<forall>n \<in> set (qnames result). CHR 0x00 \<notin> set n"
  shows "\<exists>doc data. handle_query E req res w = Some (w', Inr (respond E 200 doc res)) \<and>
    obj_get doc ''data'' = Some (JArr data) \<and> obj_get doc ''rows'' = Some (JUint (of_nat (length data))) \<and>
    length data = length (qrows result) \<and>
    (\<forall>i < length data. \<forall>j < length (qnames result).
       obj_get (data ! i) (qnames result ! j) = Some (value_to_json (qrows result ! i ! j)))"
proof (intro exI conjI)
  show "handle_query E req res w = Some (w', Inr (respond E 200 (query_document result (eelapsed E sql w)) res))"
    using assms(1-4) by (cases sql) (simp_all add: handle_query_def)
qed (use assms(5,6) in \<open>auto simp: query_document_def obj_get_def Let_def intro!: row_object_lookup [unfolded obj_get_def]\<close>)

theorem query_answers_result_witness:
  "\<exists>doc d. handle_query sample_env (sample_request [] [] None) no_response sample_world =
      Some (sample_world\<lparr>wdatabase := 1\<rparr>, Inr (respond sample_env 200 doc no_response)) \<and>
     obj_get doc ''data'' = Some (JArr [d]) \<and> obj_get d ''n'' = Some (JSint 7)"
proof -
  let ?req = "sample_request [] [] None"
  define result where "result = \<lparr>qnames = [''n''], qtypes = [''BIGINT''],
    qrows = [[\<lparr>vtype = TBigint, vnull = False, vbool = False, vint64 = 7, vdouble = 0, vtext = ''7''\<rparr>]]\<rparr>"
  have hyps: "walive sample_world" "query_text sample_env (hbody ?req) = Some ''SELECT''" "''SELECT'' \<noteq> []"
    "equery sample_env ''SELECT'' sample_world = (sample_world\<lparr>wdatabase := 1\<rparr>, Inr result)"
    "distinct (qnames result)" "\<forall>n \<in> set (qnames result). CHR 0x00 \<notin> set n"
    by (simp_all add: sample_world_def sample_env_def sample_request_def query_text_def obj_get_def result_def)
  obtain doc data where doc: "handle_query sample_env ?req no_response sample_world =
      Some (sample_world\<lparr>wdatabase := 1\<rparr>, Inr (respond sample_env 200 doc no_response))"
    "obj_get doc ''data'' = Some (JArr data)" "length data = length (qrows result)"
    "\<forall>i < length data. \<forall>j < length (qnames result). obj_get (data ! i) (qnames result ! j) = Some (value_to_json (qrows result ! i ! j))"
    using query_answers_result [OF hyps, of no_response] by blast
  then obtain d where "data = [d]" "obj_get d ''n'' = Some (JSint 7)"
    by (cases data) (auto simp: result_def value_to_json_def)
  with doc show ?thesis by blast
qed

section \<open>The running server\<close>

datatype server_call = Serve bool serve_bind_data | Stop_server

fun server_call_step :: "server_call \<Rightarrow> api_server \<Rightarrow> api_server" where
  "server_call_step (Serve bound b) api = fst (raw_serve bound b api)"
| "server_call_step Stop_server api = fst (raw_serve_stop api)"

definition configured :: "serve_bind_data \<Rightarrow> api_server \<Rightarrow> bool" where
  "configured b api \<longleftrightarrow> api_host api = bind_host b \<and> api_port api = bind_port b \<and>
     api_token api = bind_token b \<and> api_async api = bind_async b"

text \<open>
  The configuration of a running server is that of the call that started it: the calls since then
  have neither stopped it nor touched its token.
\<close>

lemma running_server_configured:
  assumes "\<not> api_running api" "api_running (fold server_call_step calls api)"
  shows "\<exists>before b after. calls = before @ Serve True b # after \<and> Stop_server \<notin> set after \<and>
    configured b (fold server_call_step calls api)"
  using assms(2)
proof (induction calls rule: rev_induct)
  case Nil
  then show ?case using assms(1) by simp
next
  case (snoc call calls)
  let ?api = "fold server_call_step calls api"
  show ?case
  proof (cases call)
    case (Serve bound b)
    show ?thesis
    proof (cases "api_running ?api")
      case True
      from snoc.IH [OF True] obtain before b' after where
        "calls = before @ Serve True b' # after" "Stop_server \<notin> set after" "configured b' ?api" by blast
      with Serve True show ?thesis
        by (intro exI [of _ before] exI [of _ b'] exI [of _ "after @ [call]"]) (simp add: raw_serve_def)
    next
      case False
      with Serve snoc.prems have "bound" by (simp add: raw_serve_def Let_def split: if_splits)
      with Serve False show ?thesis
        by (intro exI [of _ calls] exI [of _ b] exI [of _ "[]"]) (simp add: raw_serve_def Let_def configured_def)
    qed
  next
    case Stop_server
    then show ?thesis using snoc.prems by (simp add: raw_serve_stop_def)
  qed
qed

end
