(* ===== verification/Collector.thy ===== *)
theory Collector
  imports Api
begin

text \<open>
  The OTLP/gRPC collector (\<^verbatim>\<open>raw_grpc.cpp\<close>): the token check and the choice of the table from the
  metadata of a call, the export of one signal in a transaction of its own, and the start and stop
  of the server. The message library, what an ingest attempt answers and the server are parameters.
\<close>

section \<open>Export\<close>

datatype grpc_status = Grpc_ok | Unauthenticated string | Unavailable string | Internal string | Invalid_argument string

text \<open>
  \<open>gto_json\<close> is \<^verbatim>\<open>MessageToJsonString\<close>; \<open>gingest\<close> gives for a table, a text and options what the
  ingest attempt answers and the world once it is committed.
\<close>

record ('d, 'r) collector_env =
  gto_json :: "'r \<Rightarrow> string option"
  gingest :: "string \<Rightarrow> string \<Rightarrow> parse_options \<Rightarrow> 'd api_world \<Rightarrow> attempt \<times> 'd api_world"

definition metadata_value :: "(string \<Rightarrow> string option) \<Rightarrow> string \<Rightarrow> string" where
  "metadata_value metadata key = (case metadata key of None \<Rightarrow> [] | Some v \<Rightarrow> v)"

definition export_table :: "(string \<Rightarrow> string option) \<Rightarrow> string \<Rightarrow> string" where
  "export_table metadata signal =
     (let table = metadata_value metadata (''x-rawduck-'' @ signal @ ''-table'');
          table = (if table = [] then metadata_value metadata ''x-rawduck-table'' else table)
      in if table = [] then ''otel_'' @ signal else table)"

definition fresh_connection :: conn where
  "fresh_connection = \<lparr>auto_commit = True, invalidated = False\<rparr>"

text \<open>
  What a call gives: the world, the connection at the end, and the status with the rejected count
  and its message, or the exception that leaves the call.
\<close>

type_synonym 'd export_outcome = "'d api_world \<times> conn \<times> (grpc_status \<times> nat \<times> string) result"

text \<open>
  The transaction of a synchronous export. The transform is resolved inside the try block, after
  the transaction has begun; so an unknown one is a failed attempt. Committing an invalidated
  transaction rolls it back.
\<close>

definition export_attempt ::
    "('d, 'r) collector_env \<Rightarrow> string \<Rightarrow> string \<Rightarrow> string \<Rightarrow> 'd api_world \<Rightarrow> attempt \<times> 'd api_world" where
  "export_attempt G table signal text w =
     (case resolve_transform (wregistry w) (''otlp-'' @ signal) [] of
        Inl e \<Rightarrow> ((Inl e, False, None, True), w)
      | Inr options \<Rightarrow> gingest G table text options w)"

definition export_synchronously ::
    "('d, 'r) collector_env \<Rightarrow> string \<Rightarrow> string \<Rightarrow> string \<Rightarrow> 'd api_world \<Rightarrow> 'd export_outcome" where
  "export_synchronously G table signal text w =
     (case export_attempt G table signal text w of
        (a, committed) \<Rightarrow>
          (case run_attempt a fresh_connection of
             (Inr stats, c) \<Rightarrow>
               (if fst (snd a) then w else committed, c, Inr (Grpc_ok, serrors stats,
                  if serrors stats > 0 then ''some records could not be parsed'' else []))
           | (Inl e, c) \<Rightarrow>
               (case raw_rollback_transaction c of
                  (Some e', c) \<Rightarrow> (w, c, Inl e')
                | (None, c) \<Rightarrow> (w, c, Inr (Invalid_argument (raw_message e), 0, [])))))"

definition export_signal ::
    "('d, 'r) collector_env \<Rightarrow> api_server \<Rightarrow> (string \<Rightarrow> string option) \<Rightarrow> 'r \<Rightarrow> string \<Rightarrow> 'd api_world \<Rightarrow> 'd export_outcome" where
  "export_signal G S metadata request signal w =
     (if api_token S \<noteq> [] \<and> \<not> raw_token_equals (metadata_value metadata ''authorization'') (''Bearer '' @ api_token S)
      then (w, fresh_connection, Inr (Unauthenticated ''missing or invalid bearer token'', 0, []))
      else if \<not> walive w then (w, fresh_connection, Inr (Unavailable ''database is no longer available'', 0, []))
      else
        let table = export_table metadata signal in
        case gto_json G request of
          None \<Rightarrow> (w, fresh_connection, Inr (Internal ''failed to convert OTLP request to JSON'', 0, []))
        | Some text \<Rightarrow>
            if api_async S \<or> async_enabled (wsession w) then
              (case resolve_transform (wregistry w) (''otlp-'' @ signal) [] of
                 Inl e \<Rightarrow> (w, fresh_connection, Inl e)
               | Inr options \<Rightarrow>
                   (case raw_async_enqueue (wsession w) (wnow w) table text options (wasync w) of
                      (Inl e, a) \<Rightarrow> (w\<lparr>wasync := a\<rparr>, fresh_connection, Inl e)
                    | (Inr _, a) \<Rightarrow> (w\<lparr>wasync := a\<rparr>, fresh_connection, Inr (Grpc_ok, 0, []))))
            else export_synchronously G table signal text w)"

text \<open>
  \<^verbatim>\<open>Export\<close> of the three services: the status and the partial success of the response, which is
  set only when the status is OK and records were rejected.
\<close>

definition export_response :: "(grpc_status \<times> nat \<times> string) result \<Rightarrow> (grpc_status \<times> (nat \<times> string) option) result" where
  "export_response r = bind_result r (\<lambda>(status, rejected, message).
     Inr (status, if status = Grpc_ok \<and> rejected > 0 then Some (rejected, message) else None))"

section \<open>Life of the server\<close>

definition raw_serve_grpc_bind :: "(string \<Rightarrow> api_argument option) \<Rightarrow> serve_bind_data" where
  "raw_serve_grpc_bind named =
     \<lparr>bind_host = (case named ''host'' of Some (Text_arg t) \<Rightarrow> t | _ \<Rightarrow> ''127.0.0.1''),
      bind_port = (case named ''port'' of Some (Int_arg i) \<Rightarrow> i | _ \<Rightarrow> 4317),
      bind_token = (case named ''token'' of Some (Text_arg t) \<Rightarrow> t | _ \<Rightarrow> []),
      bind_async = (case named ''async'' of Some (Bool_arg b) \<Rightarrow> b | _ \<Rightarrow> False)\<rparr>"

text \<open>\<open>supported\<close> is whether the build has gRPC; \<open>bound\<close> is the port the server was given, 0 if none.\<close>

definition raw_serve_grpc :: "bool \<Rightarrow> int \<Rightarrow> serve_bind_data \<Rightarrow> api_server \<Rightarrow> api_server \<times> (string \<times> int \<times> bool) result" where
  "raw_serve_grpc supported bound b s =
     (if \<not> supported then (s, Inl (NotImplemented ''RawDuck: this build does not include OTLP/gRPC support''))
      else if api_running s then (s, Inl (InvalidInput ''RawDuck: the OTLP/gRPC server is already running''))
      else
        let s = s\<lparr>api_host := bind_host b, api_token := bind_token b, api_async := bind_async b\<rparr> in
        if bound = 0 then (s, Inl (InternalError ''RawDuck: cannot bind OTLP/gRPC server''))
        else (s\<lparr>api_port := bound, api_running := True\<rparr>, Inr (bind_host b, bound, bind_token b \<noteq> [])))"

definition raw_serve_grpc_stop :: "bool \<Rightarrow> api_server \<Rightarrow> api_server \<times> bool" where
  "raw_serve_grpc_stop supported s = (if supported then (s\<lparr>api_running := False\<rparr>, api_running s) else (s, False))"

section \<open>Properties\<close>

lemma fresh_attempt_cases:
  obtains (failed) e where "fst a = Inl e" "run_attempt a fresh_connection = (Inl e, \<lparr>auto_commit = False, invalidated = fst (snd a)\<rparr>)"
  | (committed) stats c where "fst a = Inr stats" "run_attempt a fresh_connection = (Inr stats, c)" "auto_commit c"
  | (refused) stats e c where "fst a = Inr stats" "run_attempt a fresh_connection = (Inl e, c)"
      "\<not> fst (snd a)" "auto_commit c \<longleftrightarrow> commit_cleared a"
proof -
  obtain r inv ce cl where a: "a = (r, inv, ce, cl)" by (metis prod_cases4)
  show thesis
    by (cases r; cases inv; cases ce)
      (use a in \<open>auto intro: failed committed refused simp: fresh_connection_def txn_defs commit_cleared_def\<close>)
qed

lemma export_synchronously_outcome:
  assumes run: "export_synchronously G table signal text w = (w', c, r)"
  defines "a \<equiv> fst (export_attempt G table signal text w)"
  shows "auto_commit c \<and>
    ((\<exists>stats. fst a = Inr stats \<and> run_attempt a fresh_connection = (Inr stats, c) \<and>
        w' = (if fst (snd a) then w else snd (export_attempt G table signal text w)) \<and>
        r = Inr (Grpc_ok, serrors stats, if serrors stats > 0 then ''some records could not be parsed'' else [])) \<or>
     (\<exists>m. w' = w \<and> r = Inr (Invalid_argument m, 0, [])) \<or>
     (\<exists>e. w' = w \<and> r = Inl e \<and> commit_cleared a))"
proof -
  obtain committed where at: "export_attempt G table signal text w = (a, committed)"
    by (cases "export_attempt G table signal text w") (simp add: a_def)
  show ?thesis
  proof (cases rule: fresh_attempt_cases [of a])
    case (failed e)
    then show ?thesis using run at by (auto simp: export_synchronously_def raw_rollback_transaction_def)
  next
    case (committed stats c')
    then show ?thesis using run at by (auto simp: export_synchronously_def)
  next
    case (refused stats e c')
    then show ?thesis using run at
      by (cases "commit_cleared a") (auto simp: export_synchronously_def raw_rollback_transaction_def)
  qed
qed

text \<open>
  Property C18: what an export leaves behind. A call without the token changes nothing. A
  synchronous call is answered OK only when its commit succeeded, with the rejected count of
  that ingest; any other answer leaves the world as it was. No transaction stays open; and the only
  exception that leaves the call is that of the rollback after a commit that had already ended the
  transaction.
\<close>

theorem grpc_export_outcome:
  assumes run: "export_signal G S metadata request signal w = (w', c, r)"
    and sync: "\<not> api_async S" "\<not> async_enabled (wsession w)"
  shows "auto_commit c \<and>
    (if api_token S \<noteq> [] \<and> metadata ''authorization'' \<noteq> Some (''Bearer '' @ api_token S)
     then w' = w \<and> r = Inr (Unauthenticated ''missing or invalid bearer token'', 0, [])
     else case r of
       Inr (Grpc_ok, rejected, message) \<Rightarrow>
         \<exists>text stats. walive w \<and> gto_json G request = Some text \<and>
           (let (a, committed) = export_attempt G (export_table metadata signal) signal text w in
            fst a = Inr stats \<and> run_attempt a fresh_connection = (Inr stats, c) \<and>
            w' = (if fst (snd a) then w else committed)) \<and>
           rejected = serrors stats \<and> (0 < rejected \<longleftrightarrow> message \<noteq> [])
     | Inr (status, rejected, message) \<Rightarrow> w' = w \<and> rejected = 0 \<and> message = []
     | Inl e \<Rightarrow> w' = w \<and> (\<exists>text. gto_json G request = Some text \<and>
         commit_cleared (fst (export_attempt G (export_table metadata signal) signal text w))))"
proof (cases "api_token S \<noteq> [] \<and> metadata ''authorization'' \<noteq> Some (''Bearer '' @ api_token S)")
  case True
  then have "\<not> raw_token_equals (metadata_value metadata ''authorization'') (''Bearer '' @ api_token S)"
    by (cases "metadata ''authorization''") (auto simp: metadata_value_def raw_token_equals_iff)
  then show ?thesis using True run by (auto simp: export_signal_def fresh_connection_def)
next
  case False
  then have token: "\<not> (api_token S \<noteq> [] \<and> \<not> raw_token_equals (metadata_value metadata ''authorization'') (''Bearer '' @ api_token S))"
    by (auto simp: metadata_value_def raw_token_equals_iff)
  note run = run [unfolded export_signal_def if_not_P [OF token]]
  show ?thesis
  proof (cases "walive w \<and> gto_json G request \<noteq> None")
    case True
    then obtain body where converted: "gto_json G request = Some body" "walive w" by auto
    with run sync have "export_synchronously G (export_table metadata signal) signal body w = (w', c, r)"
      by (simp add: Let_def)
    from export_synchronously_outcome [OF this] False converted show ?thesis
      by (cases "export_attempt G (export_table metadata signal) signal body w") (elim conjE disjE exE, auto)
  next
    case no: False
    with run False show ?thesis
      by (cases "walive w") (auto simp: Let_def fresh_connection_def)
  qed
qed

text \<open>Two exports by a world that counts commits: one commits, one finds its commit refused.\<close>

definition sample_collector :: "bool \<Rightarrow> (nat, string) collector_env" where
  "sample_collector fails =
     \<lparr>gto_json = Some,
      gingest = (\<lambda>table text opts w.
        ((Inr \<lparr>screated = True, sadded = 0, swidened = 0, srows = 1, serrors = 2\<rparr>, False,
          if fails then Some (TransactionError ''conflict'') else None, True),
         w\<lparr>wdatabase := Suc (wdatabase w)\<rparr>))\<rparr>"

theorem grpc_export_outcome_witness:
  "\<exists>w' c r. export_signal (sample_collector True) (sample_server []) Map.empty ''x'' ''logs'' sample_world = (w', c, r) \<and>
     isl r \<and> w' = sample_world \<and> auto_commit c \<and>
     commit_cleared (fst (export_attempt (sample_collector True) (export_table Map.empty ''logs'') ''logs'' ''x'' sample_world))"
proof -
  let ?call = "export_signal (sample_collector True) (sample_server []) Map.empty ''x'' ''logs'' sample_world"
  obtain w' c r where call: "?call = (w', c, r)" by (cases ?call) auto
  have "isl (snd (snd ?call))" by code_simp
  then obtain e where e: "r = Inl e" unfolding call by (cases r) auto
  have "\<not> api_async (sample_server [])" "\<not> async_enabled (wsession sample_world)" "api_token (sample_server []) = []"
    "gto_json (sample_collector True) ''x'' = Some ''x''"
    by (simp_all add: sample_server_def sample_world_def async_enabled_def bool_setting_def sample_collector_def)
  with grpc_export_outcome [OF call] e call show ?thesis by auto
qed

end
