(* ===== verification/FileIngest.thy ===== *)
theory FileIngest
  imports Ingest_Spec
begin

text \<open>
  \<^verbatim>\<open>raw_ingest_file\<close> outside its queues (\<^verbatim>\<open>raw_ingest.cpp\<close>, lines 1672 to 1947): the reader
  that cuts the file into batches of whole lines, and the consumer that merges small batches
  of one shape before it ingests them. The bytes each read delivers are a parameter.
\<close>

section \<open>Reader\<close>

definition RAW_DEFAULT_BATCH_SIZE :: nat where
  "RAW_DEFAULT_BATCH_SIZE = 30000"

definition RAW_BATCH_BYTE_TARGET :: nat where
  "RAW_BATCH_BYTE_TARGET = 8 * 1024 * 1024"

text \<open>The named parameter \<open>batch_size\<close>; None when it is absent or NULL.\<close>

definition bind_batch_size :: "int option \<Rightarrow> nat result" where
  "bind_batch_size entry =
     (case entry of
        None \<Rightarrow> Inr RAW_DEFAULT_BATCH_SIZE
      | Some n \<Rightarrow> if n \<le> 0 then Inl (InvalidInput ''RawDuck: batch_size must be positive'') else Inr (nat n))"

definition newline_count :: "string \<Rightarrow> nat" where
  "newline_count s = length (filter (\<lambda>c. c = newline) s)"

text \<open>\<^verbatim>\<open>pending.find('\n', from)\<close>; one more than not found is zero.\<close>

definition find_newline :: "string \<Rightarrow> nat \<Rightarrow> nat option" where
  "find_newline s from =
     (if newline \<in> set (drop from s) then Some (from + length (takeWhile (\<lambda>c. c \<noteq> newline) (drop from s)))
      else None)"

fun line_split :: "nat \<Rightarrow> string \<Rightarrow> nat \<Rightarrow> nat" where
  "line_split 0 pending split = split"
| "line_split (Suc k) pending split =
     line_split k pending (case find_newline pending split of None \<Rightarrow> 0 | Some i \<Rightarrow> i + 1)"

definition blank_batch :: "string \<Rightarrow> bool" where
  "blank_batch batch \<longleftrightarrow> list_all (\<lambda>c. c \<in> {CHR '' '', CHR 0x09, CHR 0x0D, CHR 0x0A}) batch"

definition emit_batch :: "string list \<Rightarrow> string \<Rightarrow> string list" where
  "emit_batch out batch = (if blank_batch batch then out else out @ [batch])"

text \<open>The loop that closes batches; for a batch size of zero it would not end.\<close>

partial_function (option) close_batches ::
    "nat \<Rightarrow> string list \<Rightarrow> string \<Rightarrow> nat \<Rightarrow> (string list \<times> string \<times> nat) option" where
  "close_batches n out pending lines =
     (if lines \<ge> n \<or> length pending \<ge> RAW_BATCH_BYTE_TARGET \<and> lines > 0 then
        (let k = min lines n; split = line_split k pending 0 in
         if split \<ge> length pending then close_batches n (emit_batch out pending) [] (lines - k)
         else close_batches n (emit_batch out (take split pending)) (drop split pending) (lines - k))
      else Some (out, pending, lines))"

text \<open>The loop over the reads; an empty read ends the file.\<close>

fun read_loop :: "nat \<Rightarrow> string list \<Rightarrow> string list \<Rightarrow> string \<Rightarrow> nat \<Rightarrow> string list option" where
  "read_loop n [] out pending lines = Some (emit_batch out pending)"
| "read_loop n (r # reads) out pending lines =
     (if r = [] then Some (emit_batch out pending)
      else Option.bind (close_batches n out (pending @ r) (lines + newline_count r))
        (\<lambda>(out, pending, lines). read_loop n reads out pending lines))"

definition read_file :: "nat \<Rightarrow> string list \<Rightarrow> string list option" where
  "read_file n reads = read_loop n reads [] [] 0"

subsection \<open>Facts\<close>

lemma newline_count_simps [simp]:
  "newline_count [] = 0"
  "newline_count (c # s) = (if c = newline then Suc (newline_count s) else newline_count s)"
  "newline_count (s @ t) = newline_count s + newline_count t"
  by (simp_all add: newline_count_def)

lemma newline_count_0: "newline_count s = 0 \<longleftrightarrow> newline \<notin> set s"
  by (induction s) auto

lemma newline_count_first:
  "newline_count s = Suc k \<Longrightarrow> \<exists>line rest. s = line @ newline # rest \<and> newline \<notin> set line \<and> newline_count rest = k"
proof -
  assume s: "newline_count s = Suc k"
  then have "newline \<in> set s" using newline_count_0 [of s] by fastforce
  then obtain line rest where l: "s = line @ newline # rest" "newline \<notin> set line" by (meson split_list_first)
  with s show ?thesis using newline_count_0 [of line] by auto
qed

lemma find_newline_first:
  "newline \<notin> set line \<Longrightarrow>
     find_newline (pre @ line @ newline # rest) (length pre) = Some (length pre + length line)"
  by (induction line) (auto simp: find_newline_def)

text \<open>The split falls right after the \<open>k\<close>-th newline.\<close>

lemma line_split_spec:
  "k \<le> newline_count s \<Longrightarrow>
     \<exists>a b. s = a @ b \<and> newline_count a = k \<and> (if k = 0 then a = [] else a \<noteq> [] \<and> last a = newline) \<and>
       line_split k (pre @ s) (length pre) = length pre + length a"
proof (induction k arbitrary: pre s)
  case 0
  then show ?case by (intro exI [of _ "[]"] exI [of _ s]) simp
next
  case (Suc k)
  then obtain line rest where s: "s = line @ newline # rest" "newline \<notin> set line" "k \<le> newline_count rest"
    using newline_count_first [of s "newline_count s - 1"] by (cases "newline_count s") auto
  from Suc.IH [OF s(3), of "pre @ line @ [newline]"] obtain a b where ab:
      "rest = a @ b" "newline_count a = k" "if k = 0 then a = [] else a \<noteq> [] \<and> last a = newline"
      "line_split k ((pre @ line @ [newline]) @ rest) (length (pre @ line @ [newline])) =
         length (pre @ line @ [newline]) + length a" by blast
  have "line_split (Suc k) (pre @ s) (length pre) = length pre + length (line @ newline # a)"
    using ab(4) find_newline_first [OF s(2), of pre rest] by (simp add: s(1))
  moreover have "newline_count line = 0" using s(2) by (simp add: newline_count_0)
  moreover have "last (newline # a) = newline" using ab(3) by (simp split: if_splits)
  ultimately show ?case using ab(1,2)
    by (intro exI [of _ "line @ newline # a"] exI [of _ b]) (simp add: s(1))
qed

lemma text_lines_newline:
  "a \<noteq> [] \<Longrightarrow> last a = newline \<Longrightarrow> \<exists>ls. \<forall>b. text_lines (a @ b) = ls @ text_lines b"
proof (induction a rule: measure_induct_rule [of length])
  case (less a)
  then have "newline \<in> set a" by (metis last_in_set)
  then obtain line rest where a: "a = line @ newline # rest" "newline \<notin> set line" by (meson split_list_first)
  show ?case
  proof (cases "rest = []")
    case True
    with a show ?thesis by (intro exI [of _ "[line]"]) (simp add: text_lines_more)
  next
    case False
    moreover from this have "last rest = newline" using less.prems(2) a(1) by simp
    ultimately obtain ls where "\<forall>b. text_lines (rest @ b) = ls @ text_lines b"
      using less.IH [of rest] a(1) by auto
    with a show ?thesis by (intro exI [of _ "line # ls"]) (simp add: text_lines_more)
  qed
qed

lemma data_lines_split:
  assumes "a = [] \<or> last a = newline"
  shows "data_lines (a @ b) = data_lines a @ data_lines b"
proof (cases "a = []")
  case True
  then show ?thesis by (simp add: data_lines_def text_lines_last)
next
  case False
  then obtain ls where "\<forall>b. text_lines (a @ b) = ls @ text_lines b" using text_lines_newline assms by blast
  from this [rule_format, of "[]"] this [rule_format, of b] show ?thesis
    by (simp add: data_lines_def text_lines_last)
qed

lemma blanks_are_space: "list_all is_space [CHR '' '', CHR 0x09, CHR 0x0D, CHR 0x0A, newline]"
  by code_simp

lemma blank_is_space: "c \<in> {CHR '' '', CHR 0x09, CHR 0x0D, CHR 0x0A} \<Longrightarrow> is_space c"
  using blanks_are_space unfolding list.pred_inject by (elim insertE emptyE conjE) simp_all

lemma blank_batch_lines: "blank_batch b \<Longrightarrow> data_lines b = []"
proof -
  assume b: "blank_batch b"
  have "list_all is_space l" if "l \<in> set (text_lines b)" for l
  proof -
    have "set l \<subseteq> set (concat (map (\<lambda>l. l @ [newline]) (text_lines b)))" using that by auto
    then have "set l \<subseteq> insert newline (set b)" using text_lines_spec [of b] by simp
    moreover have "is_space newline" using blanks_are_space unfolding list.pred_inject by (elim conjE)
    moreover have "\<forall>c \<in> set b. is_space c"
    proof
      fix c
      assume "c \<in> set b"
      with b have "c \<in> {CHR '' '', CHR 0x09, CHR 0x0D, CHR 0x0A}"
        unfolding blank_batch_def list_all_iff by (rule bspec)
      then show "is_space c" by (rule blank_is_space)
    qed
    ultimately show ?thesis by (auto simp: list_all_iff)
  qed
  then show ?thesis by (simp add: data_lines_def filter_empty_conv)
qed

text \<open>A batch of whole lines, and the specification of the reader's state.\<close>

definition whole_lines :: "nat \<Rightarrow> string \<Rightarrow> bool" where
  "whole_lines n b \<longleftrightarrow> newline_count b \<le> n \<and> b \<noteq> [] \<and> last b = newline"

lemma emit_batch_spec:
  "\<exists>bs. emit_batch out b = out @ bs \<and> concat (map data_lines bs) = data_lines b \<and> set bs \<subseteq> {b}"
  by (cases "blank_batch b") (simp_all add: emit_batch_def blank_batch_lines)

lemma emit_last_batch:
  "\<exists>tl. emit_batch out b = out @ tl \<and> concat (map data_lines tl) = data_lines b \<and> length tl \<le> 1 \<and> set tl \<subseteq> {b}"
  by (cases "blank_batch b") (simp_all add: emit_batch_def blank_batch_lines)

lemma close_batches_spec:
  "0 < n \<Longrightarrow> lines = newline_count pending \<Longrightarrow>
     \<exists>bs p. close_batches n out pending lines = Some (out @ bs, p, newline_count p) \<and> newline_count p < n \<and>
       (\<forall>x. concat (map data_lines bs) @ data_lines (p @ x) = data_lines (pending @ x)) \<and>
       (\<forall>b \<in> set bs. whole_lines n b)"
proof (induction lines arbitrary: out pending rule: less_induct)
  case (less lines)
  let ?due = "lines \<ge> n \<or> length pending \<ge> RAW_BATCH_BYTE_TARGET \<and> lines > 0"
  show ?case
  proof (cases ?due)
    case False
    then show ?thesis using less.prems
      by (intro exI [of _ "[]"] exI [of _ pending]) (auto simp: close_batches.simps)
  next
    case True
    define k where "k = min lines n"
    with True less.prems have k: "0 < k" "k \<le> lines" "k \<le> n" by auto
    obtain a b where ab: "pending = a @ b" "newline_count a = k" "a \<noteq> []" "last a = newline"
        "line_split k pending 0 = length a"
      using line_split_spec [of k pending "[]"] k less.prems by auto
    obtain cs where cs: "emit_batch out a = out @ cs" "concat (map data_lines cs) = data_lines a" "set cs \<subseteq> {a}"
      using emit_batch_spec by blast
    have rest: "newline_count b = lines - k" "lines - k < lines" using ab(1,2) less.prems k by auto
    have "close_batches n out pending lines = close_batches n (out @ cs) b (lines - k)"
      using True cs(1) ab by (subst close_batches.simps) (auto simp: k_def [symmetric] Let_def)
    moreover obtain bs p where "close_batches n (out @ cs) b (lines - k) = Some ((out @ cs) @ bs, p, newline_count p)"
        "newline_count p < n" "\<forall>x. concat (map data_lines bs) @ data_lines (p @ x) = data_lines (b @ x)"
        "\<forall>b \<in> set bs. whole_lines n b"
      using less.IH [OF rest(2) less.prems(1) rest(1) [symmetric]] by blast
    moreover have "data_lines (pending @ x) = data_lines a @ data_lines (b @ x)" for x
      using ab by (simp add: data_lines_split)
    moreover have "whole_lines n a" using ab k by (simp add: whole_lines_def)
    ultimately show ?thesis using cs
      by (intro exI [of _ "cs @ bs"] exI [of _ p]) auto
  qed
qed

lemma read_loop_spec:
  "0 < n \<Longrightarrow> lines = newline_count pending \<Longrightarrow> lines < n \<Longrightarrow>
     \<exists>bs tl. read_loop n reads out pending lines = Some (out @ bs @ tl) \<and>
       concat (map data_lines (bs @ tl)) = data_lines (pending @ concat (takeWhile (\<lambda>r. r \<noteq> []) reads)) \<and>
       (\<forall>b \<in> set bs. whole_lines n b) \<and> length tl \<le> 1 \<and> (\<forall>b \<in> set tl. newline_count b < n)"
proof (induction n reads out pending lines rule: read_loop.induct)
  case (1 n out pending lines)
  then show ?case using emit_last_batch [of out pending] by - (rule exI [of _ "[]"], auto)
next
  case (2 n r reads out pending lines)
  show ?case
  proof (cases "r = []")
    case True
    with 2(2-) show ?thesis using emit_last_batch [of out pending] by - (rule exI [of _ "[]"], auto)
  next
    case False
    from 2(2,3) obtain bs p where c:
        "close_batches n out (pending @ r) (lines + newline_count r) = Some (out @ bs, p, newline_count p)"
        "newline_count p < n" "\<forall>x. concat (map data_lines bs) @ data_lines (p @ x) = data_lines ((pending @ r) @ x)"
        "\<forall>b \<in> set bs. whole_lines n b"
      using close_batches_spec [of n "lines + newline_count r" "pending @ r" out] by auto
    from 2(1) [OF False c(1) refl refl 2(2) refl c(2)]
    obtain ds tl where "read_loop n reads (out @ bs) p (newline_count p) = Some ((out @ bs) @ ds @ tl)"
        "concat (map data_lines (ds @ tl)) = data_lines (p @ concat (takeWhile (\<lambda>r. r \<noteq> []) reads))"
        "\<forall>b \<in> set ds. whole_lines n b" "length tl \<le> 1" "\<forall>b \<in> set tl. newline_count b < n" by auto
    then show ?thesis using False c
      by (intro exI [of _ "bs @ ds"] exI [of _ tl]) auto
  qed
qed

text \<open>
  Property C25: the reader loses no line. For every positive batch size and however the file
  is cut into reads, it ends; the non-blank lines of the batches it pushes are the file's in
  order; no line is cut, since every batch but the last ends in a newline; and no batch has
  more lines than the batch size.
\<close>

theorem file_lines_reach_batches:
  assumes "0 < n"
  shows "\<exists>bs. read_file n reads = Some bs \<and>
    concat (map data_lines bs) = data_lines (concat (takeWhile (\<lambda>r. r \<noteq> []) reads)) \<and>
    (\<forall>b \<in> set (butlast bs). last b = newline) \<and> (\<forall>b \<in> set bs. newline_count b \<le> n)"
proof -
  obtain bs tl where r: "read_file n reads = Some (bs @ tl)"
      "concat (map data_lines (bs @ tl)) = data_lines (concat (takeWhile (\<lambda>r. r \<noteq> []) reads))"
      "\<forall>b \<in> set bs. whole_lines n b" "length tl \<le> 1" "\<forall>b \<in> set tl. newline_count b < n"
    using read_loop_spec [of n 0 "[]" reads "[]"] assms unfolding read_file_def by auto
  have "set (butlast (bs @ tl)) \<subseteq> set bs"
    using r(4) by (cases tl) (auto simp: butlast_append dest: in_set_butlastD)
  with r show ?thesis by (intro exI [of _ "bs @ tl"]) (auto simp: whole_lines_def)
qed

theorem file_lines_reach_batches_witness:
  "\<exists>bs. read_file 2 [''a'' @ [newline] @ ''b'', newline # ''c''] = Some bs \<and>
     concat (map data_lines bs) = [''a'', ''b'', ''c'']"
proof -
  have "data_lines (concat (takeWhile (\<lambda>r. r \<noteq> []) [''a'' @ [newline] @ ''b'', newline # ''c''])) =
      [''a'', ''b'', ''c'']" by code_simp
  with file_lines_reach_batches [of 2 "[''a'' @ [newline] @ ''b'', newline # ''c'']"] show ?thesis by auto
qed

section \<open>Consumer\<close>

definition row_total :: "parsed_payload \<Rightarrow> nat" where
  "row_total p = length (prows (payload p))"

text \<open>
  \<^verbatim>\<open>coalesce_and_ingest\<close> with a batch pending: the batches it ingests now and the one pending
  afterwards. The first batch is always held back.
\<close>

definition coalesce_item ::
    "lib \<Rightarrow> nat \<Rightarrow> parsed_payload \<Rightarrow> parsed_payload \<Rightarrow> (parsed_payload list \<times> parsed_payload) result" where
  "coalesce_item L min_rows pending item =
     bind_result (hash_payload_shape L (pcolumns pending)) (\<lambda>pending_shape.
     bind_result (hash_payload_shape L (pcolumns item)) (\<lambda>item_shape.
       if pending_shape = item_shape \<and> row_total pending + row_total item < min_rows
       then Inr ([], fst (merge_parsed_payloads pending item))
       else Inr ([pending], item)))"

fun coalesce :: "lib \<Rightarrow> nat \<Rightarrow> parsed_payload \<Rightarrow> parsed_payload list \<Rightarrow> parsed_payload list result" where
  "coalesce L min_rows pending [] = Inr [pending]"
| "coalesce L min_rows pending (item # items) =
     bind_result (coalesce_item L min_rows pending item) (\<lambda>(now, pending).
       map_sum id (\<lambda>outs. now @ outs) (coalesce L min_rows pending items))"

text \<open>A consumer: what it ingests of the batches it pops, in order.\<close>

definition consume_items :: "lib \<Rightarrow> nat \<Rightarrow> parsed_payload list \<Rightarrow> parsed_payload list result" where
  "consume_items L min_rows items =
     (case items of [] \<Rightarrow> Inr [] | item # items \<Rightarrow> coalesce L min_rows item items)"

text \<open>The statement with one consumer, which pops the parsed batches in the given order.\<close>

definition raw_ingest_file ::
    "lib \<Rightarrow> (nat \<Rightarrow> wakeups) \<Rightarrow> parsed_payload list \<Rightarrow> ingestor \<Rightarrow> ingestor result" where
  "raw_ingest_file L wks items ing =
     bind_result (consume_items L (pool_min_rows (iwrite ing)) items) (\<lambda>outs.
       ingest_batches L (wks 0) (zip (map (\<lambda>i. wks (Suc i)) [0..<length outs]) outs) ing)"

subsection \<open>Facts\<close>

definition merge_all :: "parsed_payload \<Rightarrow> parsed_payload list \<Rightarrow> parsed_payload" where
  "merge_all p items = foldl (\<lambda>p item. fst (merge_parsed_payloads p item)) p items"

lemma merge_all_simps [simp]:
  "merge_all p [] = p"
  "merge_all p (item # items) = merge_all (fst (merge_parsed_payloads p item)) items"
  by (simp_all add: merge_all_def)

lemma merge_fields [simp]:
  "pcolumns (fst (merge_parsed_payloads p item)) = pcolumns p"
  "proot (fst (merge_parsed_payloads p item)) = proot p"
  "prows (payload (fst (merge_parsed_payloads p item))) = prows (payload p) @ prows (payload item)"
  "parse_errors (payload (fst (merge_parsed_payloads p item))) = parse_errors (payload p)"
  by (simp_all add: merge_parsed_payloads_def)

lemma merge_all_fields [simp]:
  "pcolumns (merge_all p items) = pcolumns p"
  "proot (merge_all p items) = proot p"
  "prows (payload (merge_all p items)) = prows (payload p) @ concat (map (prows \<circ> payload) items)"
  "parse_errors (payload (merge_all p items)) = parse_errors (payload p)"
  by (induction items arbitrary: p) simp_all

text \<open>What is merged into one batch.\<close>

definition mergeable :: "lib \<Rightarrow> nat \<Rightarrow> parsed_payload \<Rightarrow> parsed_payload list \<Rightarrow> bool" where
  "mergeable L min_rows p items \<longleftrightarrow>
     (\<forall>item \<in> set items. hash_payload_shape L (pcolumns item) = hash_payload_shape L (pcolumns p)) \<and>
     (items \<noteq> [] \<longrightarrow> row_total p + sum_list (map row_total items) < min_rows)"

lemma coalesce_item_cases:
  assumes "coalesce_item L min_rows pending item = Inr (now, pending')"
  obtains
    "now = []" "pending' = fst (merge_parsed_payloads pending item)" "mergeable L min_rows pending [item]"
  | "now = [pending]" "pending' = item"
  using assms by (auto simp: coalesce_item_def mergeable_def split: if_splits)

lemma mergeable_cons:
  "mergeable L min_rows p [item] \<Longrightarrow> mergeable L min_rows (fst (merge_parsed_payloads p item)) items \<Longrightarrow>
     mergeable L min_rows p (item # items)"
  by (cases items) (auto simp: mergeable_def row_total_def)

lemma coalesce_groups:
  "coalesce L min_rows p items = Inr outs \<Longrightarrow>
     \<exists>own gs. items = own @ concat (map (\<lambda>(x, ys). x # ys) gs) \<and>
       outs = merge_all p own # map (\<lambda>(x, ys). merge_all x ys) gs \<and> mergeable L min_rows p own \<and>
       (\<forall>(x, ys) \<in> set gs. mergeable L min_rows x ys)"
proof (induction L min_rows p items arbitrary: outs rule: coalesce.induct)
  case (1 L min_rows p)
  then show ?case by (intro exI [of _ "[]"]) (simp add: mergeable_def)
next
  case (2 L min_rows p item items)
  then obtain now p' outs' where step: "coalesce_item L min_rows p item = Inr (now, p')"
      and rest: "coalesce L min_rows p' items = Inr outs'" and outs: "outs = now @ outs'"
    by (auto simp: map_sum_Inr_iff)
  obtain own gs where IH: "items = own @ concat (map (\<lambda>(x, ys). x # ys) gs)"
      "outs' = merge_all p' own # map (\<lambda>(x, ys). merge_all x ys) gs" "mergeable L min_rows p' own"
      "\<forall>(x, ys) \<in> set gs. mergeable L min_rows x ys"
    using 2(1) [OF rest] by blast
  from step show ?case
  proof (cases rule: coalesce_item_cases)
    case 1
    have "mergeable L min_rows p (item # own)" using IH(3) 1(2) mergeable_cons [OF 1(3)] by simp
    with 1 show ?thesis using IH(1,2,4) outs
      by (intro exI [of _ "item # own"] exI [of _ gs] conjI) simp_all
  next
    case 2
    have "mergeable L min_rows p []" by (simp add: mergeable_def)
    with 2 show ?thesis using IH outs
      by (intro exI [of _ "[]"] exI [of _ "(item, own) # gs"] conjI) simp_all
  qed
qed

text \<open>
  Property C26: coalescing keeps every row and loses error counts. The batches a consumer
  ingests are consecutive groups of the batches it pops, each with the columns of its first
  member, merged only when the shape hashes agree and the rows stay below the pool's
  threshold; their rows together are the popped rows in order, but the skipped lines of a group
  are counted for its first member only.
\<close>

theorem coalesced_batches_keep_rows:
  assumes "consume_items L min_rows items = Inr outs"
  shows "\<exists>gs. items = concat (map (\<lambda>(x, ys). x # ys) gs) \<and>
    map pcolumns outs = map (pcolumns \<circ> fst) gs \<and>
    concat (map (prows \<circ> payload) outs) = concat (map (prows \<circ> payload) items) \<and>
    map (parse_errors \<circ> payload) outs = map (parse_errors \<circ> payload \<circ> fst) gs \<and>
    (\<forall>(x, ys) \<in> set gs. mergeable L min_rows x ys)"
proof -
  obtain gs where gs: "items = concat (map (\<lambda>(x, ys). x # ys) gs)" "outs = map (\<lambda>(x, ys). merge_all x ys) gs"
      "\<forall>(x, ys) \<in> set gs. mergeable L min_rows x ys"
  proof (cases items)
    case Nil
    with assms that [of "[]"] show ?thesis by (simp add: consume_items_def)
  next
    case (Cons p items')
    then have "coalesce L min_rows p items' = Inr outs" using assms by (simp add: consume_items_def)
    from coalesce_groups [OF this] obtain own gs where "items' = own @ concat (map (\<lambda>(x, ys). x # ys) gs)"
        "outs = merge_all p own # map (\<lambda>(x, ys). merge_all x ys) gs" "mergeable L min_rows p own"
        "\<forall>(x, ys) \<in> set gs. mergeable L min_rows x ys" by blast
    with Cons that [of "(p, own) # gs"] show ?thesis by simp
  qed
  have "concat (map (prows \<circ> payload) outs) = concat (map (prows \<circ> payload) items)"
    unfolding gs(1,2) by (induction gs) (auto simp: comp_def)
  with gs show ?thesis by (intro exI [of _ gs]) (auto simp: comp_def split_def)
qed

text \<open>Two batches of one row each, the second with a broken line.\<close>

definition with_errors :: "nat \<Rightarrow> json \<Rightarrow> parsed_payload" where
  "with_errors n row = projr (infer_and_flatten sample_lib (new_payload\<lparr>prows := [row], parse_errors := n\<rparr>))"

theorem coalesced_batches_keep_rows_witness:
  "\<exists>outs. consume_items sample_lib 4096 [with_errors 0 (JObj [(''a'', JUint 1)]), with_errors 1 (JObj [(''a'', JUint 2)])] = Inr outs \<and>
     concat (map (prows \<circ> payload) outs) = [JObj [(''a'', JUint 1)], JObj [(''a'', JUint 2)]] \<and>
     map (parse_errors \<circ> payload) outs = [0]"
proof -
  let ?items = "[with_errors 0 (JObj [(''a'', JUint 1)]), with_errors 1 (JObj [(''a'', JUint 2)])]"
  have ok: "map_sum id (map (parse_errors \<circ> payload)) (consume_items sample_lib 4096 ?items) = Inr [0]" by code_simp
  then obtain outs where outs: "consume_items sample_lib 4096 ?items = Inr outs" by (auto simp: map_sum_Inr_iff)
  have "concat (map (prows \<circ> payload) ?items) = [JObj [(''a'', JUint 1)], JObj [(''a'', JUint 2)]]" by code_simp
  with outs ok coalesced_batches_keep_rows [OF outs] show ?thesis by (intro exI [of _ outs]) auto
qed

text \<open>
  Coalescing can drop values. The member \<open>a.b\<close> and the member \<open>b\<close> of an object
  \<open>a\<close> give columns of the same name and type, so batches of the two are merged; the rows of
  the second are read along the first one's path and become NULL. Ingested apart both
  values are kept, and both rows are counted either way.
\<close>

theorem coalescing_drops_values:
  "(let items = [with_errors 0 (JObj [(''a.b'', JUint 1)]), with_errors 0 (JObj [(''a'', JObj [(''b'', JUint 2)])])];
        merged = raw_ingest_file sample_lib (\<lambda>_. sample_wakeups) items (start_ingestor 4096);
        apart = raw_ingest_file sample_lib (\<lambda>_. sample_wakeups) items (start_ingestor 2)
    in map_option (\<lambda>t. (map fst (tcols t), trows t)) (itable (projr merged)) =
         Some ([''a.b''], [[CBigint 1], [CNull]]) \<and> irows (projr merged) = 2 \<and>
       map_option (\<lambda>t. (map fst (tcols t), trows t)) (itable (projr apart)) =
         Some ([''a.b''], [[CBigint 1], [CBigint 2]]) \<and> irows (projr apart) = 2)"
  by code_simp

end
