(* ===== verification/StreamIngest.thy ===== *)
theory StreamIngest
  imports FileIngest
begin

text \<open>
  \<^verbatim>\<open>RawStreamIngestor\<close> (\<^verbatim>\<open>raw_ingest.cpp\<close>, lines 1538 to 1592): several consumers share one
  ingestor. The schema of a batch is prepared under a lock; the rows are handed over later, and
  other consumers may change the table in between. A turn of a consumer is what it does in one
  section under the lock, or its one handover; any sequence of turns is an interleaving. A
  handover to the pool is taken as one step under the pool's lock.
\<close>

section \<open>State and turns\<close>

datatype turn_phase = Ready | Prepared parsed_payload bool

text \<open>The shared ingestor, and of every consumer its phase and the batches it has still to ingest.\<close>

record stream =
  sing :: ingestor
  sturns :: "(turn_phase \<times> parsed_payload list) list"

definition count_errors :: "parsed_payload \<Rightarrow> ingestor \<Rightarrow> ingestor" where
  "count_errors parsed ing = ing\<lparr>ierrors := ierrors ing + parse_errors (payload parsed)\<rparr>"

definition set_turn :: "nat \<Rightarrow> turn_phase \<Rightarrow> parsed_payload list \<Rightarrow> stream \<Rightarrow> ingestor \<Rightarrow> stream" where
  "set_turn i ph ps st ing = st\<lparr>sing := ing, sturns := (sturns st)[i := (ph, ps)]\<rparr>"

text \<open>\<^verbatim>\<open>IngestParsedConcurrent\<close> by consumer \<open>i\<close>, up to the end of the section or from the handover on.\<close>

definition stream_turn :: "lib \<Rightarrow> wakeups \<Rightarrow> nat \<Rightarrow> stream \<Rightarrow> stream result" where
  "stream_turn L wk i st =
     (case sturns st ! i of
        (Ready, []) \<Rightarrow> Inr st
      | (Ready, parsed # ps) \<Rightarrow>
          (let ing = count_errors parsed (sing st) in
           if itable ing = None \<or> pcolumns parsed = []
           then map_sum id (set_turn i Ready ps st) (ingest_parsed L wk parsed ing)
           else map_sum id (\<lambda>(ing, use_pool). set_turn i (Prepared parsed use_pool) ps st ing)
                  (prepare_for_append L wk parsed ing))
      | (Prepared parsed use_pool, ps) \<Rightarrow>
          map_sum id (set_turn i Ready ps st) (submit_prepared_batch L wk parsed use_pool (sing st)))"

fun stream_run :: "lib \<Rightarrow> (wakeups \<times> nat) list \<Rightarrow> stream \<Rightarrow> stream result" where
  "stream_run L [] st = Inr st"
| "stream_run L ((wk, i) # turns) st = bind_result (stream_turn L wk i st) (stream_run L turns)"

definition start_stream :: "ingestor \<Rightarrow> parsed_payload list list \<Rightarrow> stream" where
  "start_stream ing work = \<lparr>sing = ing, sturns = map (\<lambda>ps. (Ready, ps)) work\<rparr>"

section \<open>Specification\<close>

text \<open>A run of a table: its schema evolves for a batch, or the rows of a batch are added to it as it is.\<close>

datatype action = Evolve parsed_payload | Append parsed_payload

fun act :: "lib \<Rightarrow> action \<Rightarrow> relation_state \<Rightarrow> relation_state \<Rightarrow> bool" where
  "act L (Evolve p) s s' \<longleftrightarrow>
     fst s' = evolved_columns (fst s) (pcolumns p) \<and> rows_evolve L (pcolumns p) (fst s) (snd s) (snd s')"
| "act L (Append p) s s' \<longleftrightarrow>
     fst s' = fst s \<and> (\<exists>news. rows_in L (fst s) p = Inr news \<and> snd s' = snd s + mset news)"

fun acts :: "lib \<Rightarrow> action list \<Rightarrow> relation_state \<Rightarrow> relation_state \<Rightarrow> bool" where
  "acts L [] s s' \<longleftrightarrow> s' = s"
| "acts L (a # as) s s' \<longleftrightarrow> (\<exists>m. act L a s m \<and> acts L as m s')"

fun evolved_by :: "action list \<Rightarrow> parsed_payload list" where
  "evolved_by [] = []"
| "evolved_by (Evolve p # as) = p # evolved_by as"
| "evolved_by (Append p # as) = evolved_by as"

fun appended_by :: "action list \<Rightarrow> parsed_payload list" where
  "appended_by [] = []"
| "appended_by (Evolve p # as) = appended_by as"
| "appended_by (Append p # as) = p # appended_by as"

text \<open>No batch is added before the schema has evolved for it.\<close>

definition in_order :: "action list \<Rightarrow> bool" where
  "in_order as \<longleftrightarrow> (\<forall>n. mset (appended_by (take n as)) \<subseteq># mset (evolved_by (take n as)))"

lemma acts_snoc: "acts L (as @ [a]) s s' \<longleftrightarrow> (\<exists>m. acts L as s m \<and> act L a m s')"
  by (induction as arbitrary: s) (simp_all del: split_paired_Ex, blast)

lemma evolved_by_append [simp]: "evolved_by (as @ bs) = evolved_by as @ evolved_by bs"
  by (induction as rule: evolved_by.induct) simp_all

lemma appended_by_append [simp]: "appended_by (as @ bs) = appended_by as @ appended_by bs"
  by (induction as rule: appended_by.induct) simp_all

lemma in_order_snoc:
  assumes "in_order as" "mset (appended_by (as @ [a])) \<subseteq># mset (evolved_by (as @ [a]))"
  shows "in_order (as @ [a])"
  unfolding in_order_def
proof
  fix n
  show "mset (appended_by (take n (as @ [a]))) \<subseteq># mset (evolved_by (take n (as @ [a])))"
    using assms by (cases "n \<le> length as") (simp_all add: in_order_def)
qed

text \<open>
  When no interleaving can fail: in every state that actions for the batches lead to, every batch
  can still go in (the cells it widens convert, and its values can be written into their columns,
  those the table has and those it gets for the batch).
\<close>

definition stream_defined :: "lib \<Rightarrow> parsed_payload list \<Rightarrow> relation_state \<Rightarrow> bool" where
  "stream_defined L all s0 \<longleftrightarrow>
     (\<forall>as s. acts L as s0 s \<longrightarrow> in_order as \<longrightarrow> mset (evolved_by as) \<subseteq># mset all \<longrightarrow>
        (\<forall>p \<in> set all. step_defined L p s \<and>
           (\<forall>row \<in> set (prows (payload p)). \<not> row_unwritable L (fst s) (pcolumns p) row)))"

section \<open>Turns refine actions\<close>

lemma batch_ready_supported:
  assumes "p \<in> S" "payload_ok p" "fits_layout cols p" "types_filled cols"
    and "\<forall>row \<in> set (prows (payload p)). \<not> row_unwritable L cols (pcolumns p) row"
  shows "batch_ready L S cols p"
proof -
  have "\<exists>out. rows_in L cols p = Inr out"
    unfolding rows_in_def using row_cells_result [OF assms(4)] assms(5) by (intro map_result_ex) meson
  with assms show ?thesis by (simp add: batch_ready_def)
qed

lemma fits_layout_evolved:
  assumes "fits_layout cols p"
  shows "fits_layout (evolved_columns cols qs) p"
proof -
  have "column_index (map (evolved_column qs) cols) name = column_index cols name" for name
    by (rule column_index_names) (simp add: evolved_column_def)
  with assms show ?thesis
    by (auto simp: fits_layout_def evolved_columns_def column_index_append split: option.splits)
qed

lemma fits_layout_own:
  assumes "payload_ok p"
  shows "fits_layout (evolved_columns cols (pcolumns p)) p"
  using assms evolved_columns_find [of "pcolumns p" _ cols] unfolding fits_layout_def payload_ok_def by fastforce

lemma prepare_rep:
  assumes rep: "table_rep L S ing t R N" and p: "payload_ok p" "pcolumns p \<noteq> []" "p \<in> S"
    and L: "\<forall>row \<in># R. row_converts L (pcolumns p) (tcols t) row" and S: "shapes_typed L S"
  shows "\<exists>ing' use_pool t' R'. prepare_for_append L wk p ing = Inr (ing', use_pool) \<and> table_rep L S ing' t' R' N \<and>
    tcols t' = evolved_columns (tcols t) (pcolumns p) \<and> rows_evolve L (pcolumns p) (tcols t) R R' \<and>
    iname ing' = iname ing \<and> ierrors ing' = ierrors ing"
proof -
  obtain ing' t' R' where a: "absorb_schema L wk t p (lookup_table_cached ing) = Inr ing'"
      "table_rep L S ing' t' R' N" "tcols t' = evolved_columns (tcols t) (pcolumns p)"
      "rows_evolve L (pcolumns p) (tcols t) R R'" "iname ing' = iname ing" "ierrors ing' = ierrors ing"
    using absorb_schema_rep [OF lookup_rep [OF rep] p(1) L S p(3), of wk] by auto
  have it: "itable ing = Some t" "itable ing' = Some t'" using rep a(2) by (simp_all add: table_rep_def)
  show ?thesis
  proof (cases "prows (payload p) = []")
    case True
    with a it p(2) show ?thesis
      by (intro exI [of _ ing'] exI [of _ False] exI [of _ t'] exI [of _ R']) (simp add: prepare_for_append_def Let_def)
  next
    case False
    have "iname (ensure_pool t' p ing') = iname ing" "ierrors (ensure_pool t' p ing') = ierrors ing"
      using a by (simp_all add: ensure_pool_def)
    with False a it p(2) ensure_pool_rep [OF a(2), of p] show ?thesis
      by (simp add: prepare_for_append_def Let_def) blast
  qed
qed

lemma submit_prepared_rep:
  assumes rep: "table_rep L S ing t R N" and S: "shapes_typed L S"
    and p: "batch_ready L S (tcols t) p" and A: "\<And>out. append_ok L (iname ing) out"
  shows "\<exists>ing' t'. submit_prepared_batch L wk p use_pool ing = Inr ing' \<and> tcols t' = tcols t \<and>
    iname ing' = iname ing \<and> ierrors ing' = ierrors ing \<and>
    table_rep L S ing' t' (R + mset (rows_of L (tcols t) p)) (N + length (rows_of L (tcols t) p))"
proof (cases "prows (payload p) = []")
  case True
  then have "rows_of L (tcols t) p = []" using rows_of_ready [OF p] by simp
  with True rep show ?thesis by (simp add: submit_prepared_batch_def) blast
next
  case False
  show ?thesis
  proof (cases "if use_pool then ipool ing else None")
    case None
    have it: "itable ing = Some t" using rep by (simp add: table_rep_def)
    have A': "append_ok L (iname (lookup_table_cached ing)) out" for out using A by simp
    from append_direct_rep [OF lookup_rep [OF rep] S p A'] False None it show ?thesis
      by (simp add: submit_prepared_batch_def Let_def)
  next
    case (Some P)
    then have "ipool ing = Some P" by (simp split: if_splits)
    from submit_rep [OF rep shapes_typed_separate [OF S] this p, of wk] False Some show ?thesis
      by (simp add: submit_prepared_batch_def) (intro exI [of _ t], simp)
  qed
qed

section \<open>The invariant of a stream\<close>

fun phase_holds :: "turn_phase \<Rightarrow> parsed_payload list" where
  "phase_holds Ready = []"
| "phase_holds (Prepared p use_pool) = [p]"

definition left_of :: "stream \<Rightarrow> parsed_payload list" where
  "left_of st = concat (map snd (sturns st))"

definition held_of :: "stream \<Rightarrow> parsed_payload list" where
  "held_of st = concat (map (phase_holds \<circ> fst) (sturns st))"

definition routed :: "parsed_payload list \<Rightarrow> parsed_payload list" where
  "routed ps = filter (\<lambda>p. pcolumns p \<noteq> []) ps"

lemma routed_Nil [simp]: "routed [] = []"
  by (simp add: routed_def)

lemma routed_Cons [simp]: "routed (p # ps) = (if pcolumns p = [] then routed ps else p # routed ps)"
  by (simp add: routed_def)

definition errors_of :: "parsed_payload list \<Rightarrow> nat" where
  "errors_of ps = sum_list (map (parse_errors \<circ> payload) ps)"

lemma left_of_set_turn:
  assumes "i < length (sturns st)"
  shows "mset (left_of (set_turn i ph ps st ing)) + mset (snd (sturns st ! i)) = mset (left_of st) + mset ps"
  using mset_concat_update [OF assms, of snd "(ph, ps)"] by (simp add: left_of_def set_turn_def)

lemma held_of_set_turn:
  assumes "i < length (sturns st)"
  shows "mset (held_of (set_turn i ph ps st ing)) + mset (phase_holds (fst (sturns st ! i))) =
    mset (held_of st) + mset (phase_holds ph)"
  using mset_concat_update [OF assms, of "phase_holds \<circ> fst" "(ph, ps)"] by (simp add: held_of_def set_turn_def)

lemma routed_mset: "mset (routed ps) = filter_mset (\<lambda>p. pcolumns p \<noteq> []) (mset ps)"
  by (simp add: routed_def)

lemma errors_mset: "errors_of ps = sum_mset (image_mset (parse_errors \<circ> payload) (mset ps))"
  by (simp add: errors_of_def flip: sum_mset_sum_list)

text \<open>What the stream has done to the table, and what it has still to do.\<close>

definition stream_inv ::
    "lib \<Rightarrow> ingestor \<Rightarrow> relation_state \<Rightarrow> nat \<Rightarrow> parsed_payload list \<Rightarrow> stream \<Rightarrow> relation_state \<Rightarrow> action list \<Rightarrow> bool" where
  "stream_inv L ing0 s0 N0 all st s as \<longleftrightarrow>
     ingest_rep L (set all) (sing st) s (N0 + sum_list (map batch_count (appended_by as))) \<and>
     acts L as s0 s \<and> in_order as \<and>
     mset (evolved_by as) + mset (routed (left_of st)) = mset (routed all) \<and>
     mset (appended_by as) + mset (held_of st) = mset (evolved_by as) \<and>
     distinct (map (lower \<circ> fst) (fst s)) \<and> types_filled (fst s) \<and>
     (\<forall>p \<in># mset (held_of st). fits_layout (fst s) p) \<and>
     (held_of st \<noteq> [] \<longrightarrow> itable (sing st) \<noteq> None) \<and>
     mset (left_of st) \<subseteq># mset all \<and> iname (sing st) = iname ing0 \<and>
     (itable ing0 \<noteq> None \<longrightarrow> itable (sing st) \<noteq> None \<and>
       ((\<forall>p \<in> set all. pcolumns p \<noteq> []) \<longrightarrow>
          ierrors (sing st) + errors_of (left_of st) = ierrors ing0 + errors_of all))"

lemma stream_invI:
  assumes "ingest_rep L (set all) (sing st) s (N0 + sum_list (map batch_count (appended_by as)))"
    and "acts L as s0 s" "in_order as"
    and "mset (evolved_by as) + mset (routed (left_of st)) = mset (routed all)"
    and "mset (appended_by as) + mset (held_of st) = mset (evolved_by as)"
    and "distinct (map (lower \<circ> fst) (fst s))" "types_filled (fst s)"
    and "\<And>p. p \<in># mset (held_of st) \<Longrightarrow> fits_layout (fst s) p"
    and "held_of st \<noteq> [] \<Longrightarrow> itable (sing st) \<noteq> None"
    and "mset (left_of st) \<subseteq># mset all" "iname (sing st) = iname ing0"
    and "itable ing0 \<noteq> None \<Longrightarrow> itable (sing st) \<noteq> None"
    and "itable ing0 \<noteq> None \<Longrightarrow> \<forall>p \<in> set all. pcolumns p \<noteq> [] \<Longrightarrow>
          ierrors (sing st) + errors_of (left_of st) = ierrors ing0 + errors_of all"
  shows "stream_inv L ing0 s0 N0 all st s as"
  unfolding stream_inv_def using assms by blast

lemma stream_invD:
  assumes "stream_inv L ing0 s0 N0 all st s as"
  shows "ingest_rep L (set all) (sing st) s (N0 + sum_list (map batch_count (appended_by as)))"
    and "acts L as s0 s" "in_order as"
    and "mset (evolved_by as) + mset (routed (left_of st)) = mset (routed all)"
    and "mset (appended_by as) + mset (held_of st) = mset (evolved_by as)"
    and "distinct (map (lower \<circ> fst) (fst s))" "types_filled (fst s)"
    and "\<And>p. p \<in># mset (held_of st) \<Longrightarrow> fits_layout (fst s) p"
    and "held_of st \<noteq> [] \<Longrightarrow> itable (sing st) \<noteq> None"
    and "mset (left_of st) \<subseteq># mset all" "iname (sing st) = iname ing0"
    and "itable ing0 \<noteq> None \<Longrightarrow> itable (sing st) \<noteq> None"
    and "itable ing0 \<noteq> None \<Longrightarrow> \<forall>p \<in> set all. pcolumns p \<noteq> [] \<Longrightarrow>
          ierrors (sing st) + errors_of (left_of st) = ierrors ing0 + errors_of all"
  using assms unfolding stream_inv_def by blast+

lemma start_stream_inv:
  assumes "ingest_rep L (set (concat work)) ing s N" "distinct (map (lower \<circ> fst) (fst s))" "types_filled (fst s)"
  shows "stream_inv L ing s N (concat work) (start_stream ing work) s []"
proof -
  have "left_of (start_stream ing work) = concat work" "held_of (start_stream ing work) = []"
    by (simp_all add: left_of_def held_of_def start_stream_def comp_def concat_eq_Nil_conv)
  with assms show ?thesis by (simp add: stream_inv_def start_stream_def in_order_def)
qed

text \<open>What every batch satisfies.\<close>

lemma batch_facts:
  assumes "inferred_batches L all" "p \<in> set all"
  shows "payload_ok p" "\<exists>raw. infer_and_flatten L raw = Inr p"
  using assms infer_and_flatten_ok by (auto simp: inferred_batches_def)

lemma held_known:
  assumes "stream_inv L ing0 s0 N0 all st s as" "p \<in> set (held_of st)"
  shows "p \<in> set all" "pcolumns p \<noteq> []"
proof -
  have "p \<in># mset (evolved_by as)"
    using assms(2) stream_invD(5) [OF assms(1)] by (metis in_multiset_in_set union_iff)
  then have "p \<in># mset (routed all)" using stream_invD(4) [OF assms(1)] by (metis union_iff)
  then show "p \<in> set all" "pcolumns p \<noteq> []" by (simp_all add: routed_def)
qed

lemma set_turn_simps [simp]:
  "sing (set_turn i ph ps st ing) = ing" "length (sturns (set_turn i ph ps st ing)) = length (sturns st)"
  by (simp_all add: set_turn_def)

lemma inv_defined:
  assumes "stream_defined L all s0" "stream_inv L ing0 s0 N0 all st s as" "p \<in> set all"
  shows "\<forall>row \<in># snd s. row_converts L (pcolumns p) (fst s) row"
    "\<forall>row \<in> set (prows (payload p)). \<not> row_unwritable L (evolved_columns (fst s) (pcolumns p)) (pcolumns p) row"
    "\<forall>row \<in> set (prows (payload p)). \<not> row_unwritable L (fst s) (pcolumns p) row"
proof -
  note d = stream_invD [OF assms(2)]
  have "mset (evolved_by as) \<subseteq># mset (routed all)" unfolding d(4) [symmetric] by simp
  then have "mset (evolved_by as) \<subseteq># mset all"
    unfolding routed_mset by (meson multiset_filter_subset subset_mset.order_trans)
  then have "step_defined L p s \<and> (\<forall>row \<in> set (prows (payload p)). \<not> row_unwritable L (fst s) (pcolumns p) row)"
    using assms(1,3) d(2,3) unfolding stream_defined_def by blast
  then show "\<forall>row \<in># snd s. row_converts L (pcolumns p) (fst s) row"
    "\<forall>row \<in> set (prows (payload p)). \<not> row_unwritable L (evolved_columns (fst s) (pcolumns p)) (pcolumns p) row"
    "\<forall>row \<in> set (prows (payload p)). \<not> row_unwritable L (fst s) (pcolumns p) row"
    unfolding step_defined_def by blast+
qed

text \<open>A handover is one \<open>Append\<close>.\<close>

lemma submit_turn:
  assumes L: "stream_defined L all s0" and S: "shapes_typed L (set all)" and inf: "inferred_batches L all"
    and A: "\<And>out. append_ok L (iname ing0) out" and inv: "stream_inv L ing0 s0 N0 all st s as"
    and i: "i < length (sturns st)" and turn: "sturns st ! i = (Prepared p use_pool, ps)"
  shows "\<exists>st' s' as'. stream_turn L wk i st = Inr st' \<and> stream_inv L ing0 s0 N0 all st' s' as' \<and>
    length (sturns st') = length (sturns st)"
proof -
  note d = stream_invD [OF inv]
  have held: "p \<in> set (held_of st)"
    unfolding held_of_def set_concat set_map using nth_mem [OF i] turn by (force simp: image_iff)
  note known = held_known [OF inv held]
  have "held_of st \<noteq> []" using length_pos_if_in_set [OF held] by simp
  note it = d(9) [OF this]
  let ?N = "N0 + sum_list (map batch_count (appended_by as))"
  obtain t R where rep: "table_rep L (set all) (sing st) t R ?N" and s: "s = (tcols t, R)"
    using d(1) it by (auto simp: ingest_rep_def no_table_def)
  have ready: "batch_ready L (set all) (tcols t) p"
    using batch_ready_supported [OF known(1) batch_facts(1) [OF inf known(1)]] inv_defined(3) [OF L inv known(1)]
      d(7) d(8) held s by auto
  have A': "append_ok L (iname (sing st)) out" for out using A d(11) by simp
  obtain ing' t' where sub: "submit_prepared_batch L wk p use_pool (sing st) = Inr ing'" "tcols t' = tcols t"
      "iname ing' = iname (sing st)" "ierrors ing' = ierrors (sing st)"
      "table_rep L (set all) ing' t' (R + mset (rows_of L (tcols t) p)) (?N + length (rows_of L (tcols t) p))"
    using submit_prepared_rep [OF rep S ready A', of wk use_pool] by blast
  have it': "itable ing' \<noteq> None" using sub(5) by (simp add: table_rep_def)
  let ?st = "set_turn i Ready ps st ing'" and ?s = "(tcols t, R + mset (rows_of L (tcols t) p))"
  let ?as = "as @ [Append p]"
  have left: "mset (left_of ?st) = mset (left_of st)" and heldm: "mset (held_of ?st) + {#p#} = mset (held_of st)"
    using left_of_set_turn [OF i, of Ready ps ing'] held_of_set_turn [OF i, of Ready ps ing'] turn by simp_all
  have count: "batch_count p = length (rows_of L (tcols t) p)"
    using rows_of_ready [OF ready] known(2) by (simp add: batch_count_def)
  have bag: "mset (appended_by ?as) + mset (held_of ?st) = mset (evolved_by ?as)"
    using d(5) unfolding heldm [symmetric] by simp
  have sub_held: "p \<in># mset (held_of st)" if "p \<in># mset (held_of ?st)" for p
    using that heldm by (metis union_iff)
  have "stream_inv L ing0 s0 N0 all ?st ?s ?as"
  proof (rule stream_invI, goal_cases)
    case 1
    then show ?case unfolding ingest_rep_def using sub(2,5) count by (auto simp: add.assoc)
  next
    case 2
    then show ?case unfolding acts_snoc using d(2) s rows_of_ready [OF ready] by auto
  next
    case 3
    then show ?case using d(3) bag by (intro in_order_snoc) (simp_all only: mset_subset_eq_add_left flip: bag)
  next
    case (13)
    then show ?case using d(13) sub(4) left by (simp add: errors_mset)
  qed (use d left bag s sub sub_held it' in \<open>auto simp: routed_mset\<close>)
  moreover have "stream_turn L wk i st = Inr ?st" using turn sub(1) by (simp add: stream_turn_def)
  ultimately show ?thesis by (intro exI [of _ ?st] exI [of _ ?s] exI [of _ ?as]) simp
qed

text \<open>A batch that meets a table evolves it: one \<open>Evolve\<close>.\<close>

lemma count_errors_rep:
  "table_rep L S (count_errors p ing) t R N \<longleftrightarrow> table_rep L S ing t R N"
  "no_table (count_errors p ing) N \<longleftrightarrow> no_table ing N"
  "ingest_rep L S (count_errors p ing) s N \<longleftrightarrow> ingest_rep L S ing s N"
  "iname (count_errors p ing) = iname ing" "itable (count_errors p ing) = itable ing"
  "ierrors (count_errors p ing) = ierrors ing + parse_errors (payload p)"
  by (simp_all add: ingest_rep_def table_rep_def no_table_def cache_sound_def rows_held_def count_errors_def
      split: option.splits)

lemma ready_turn_bags:
  assumes inv: "stream_inv L ing0 s0 N0 all st s as"
    and i: "i < length (sturns st)" and turn: "sturns st ! i = (Ready, p # ps)"
  shows "p \<in> set all" "mset (left_of (set_turn i ph ps st ing')) + {#p#} = mset (left_of st)"
    "mset (held_of (set_turn i ph ps st ing')) = mset (held_of st) + mset (phase_holds ph)"
    "mset (left_of (set_turn i ph ps st ing')) \<subseteq># mset all"
    "mset (routed (left_of st)) = mset (routed (left_of (set_turn i ph ps st ing'))) + mset (routed [p])"
    "errors_of (left_of st) = errors_of (left_of (set_turn i ph ps st ing')) + parse_errors (payload p)"
proof -
  show left: "mset (left_of (set_turn i ph ps st ing')) + {#p#} = mset (left_of st)"
    using left_of_set_turn [OF i, of ph ps ing'] turn by simp
  show "mset (held_of (set_turn i ph ps st ing')) = mset (held_of st) + mset (phase_holds ph)"
    using held_of_set_turn [OF i, of ph ps ing'] turn by simp
  have sub: "mset (left_of (set_turn i ph ps st ing')) + {#p#} \<subseteq># mset all"
    unfolding left by (rule stream_invD(10) [OF inv])
  then show "mset (left_of (set_turn i ph ps st ing')) \<subseteq># mset all"
    by (meson mset_subset_eq_add_left subset_mset.order_trans)
  from sub show "p \<in> set all" by (metis mset_subset_eqD set_mset_mset union_iff union_single_eq_member add.commute)
  show "mset (routed (left_of st)) = mset (routed (left_of (set_turn i ph ps st ing'))) + mset (routed [p])"
    unfolding routed_mset left [symmetric] by simp
  show "errors_of (left_of st) = errors_of (left_of (set_turn i ph ps st ing')) + parse_errors (payload p)"
    unfolding errors_mset left [symmetric] by simp
qed

lemma prepare_turn:
  assumes L: "stream_defined L all s0" and S: "shapes_typed L (set all)" and inf: "inferred_batches L all"
    and inv: "stream_inv L ing0 s0 N0 all st s as"
    and i: "i < length (sturns st)" and turn: "sturns st ! i = (Ready, p # ps)"
    and it: "itable (sing st) \<noteq> None" and ps: "pcolumns p \<noteq> []"
  shows "\<exists>st' s' as'. stream_turn L wk i st = Inr st' \<and> stream_inv L ing0 s0 N0 all st' s' as' \<and>
    length (sturns st') = length (sturns st)"
proof -
  note d = stream_invD [OF inv] and bags = ready_turn_bags [OF inv i turn]
  note fact = batch_facts [OF inf bags(1)]
  let ?ing = "count_errors p (sing st)" and ?N = "N0 + sum_list (map batch_count (appended_by as))"
  obtain t R where rep: "table_rep L (set all) ?ing t R ?N" and s: "s = (tcols t, R)"
    using d(1) it unfolding count_errors_rep by (auto simp: ingest_rep_def no_table_def)
  obtain ing' use_pool t' R' where prep: "prepare_for_append L wk p ?ing = Inr (ing', use_pool)"
      "table_rep L (set all) ing' t' R' ?N" "tcols t' = evolved_columns (tcols t) (pcolumns p)"
      "rows_evolve L (pcolumns p) (tcols t) R R'" "iname ing' = iname ?ing" "ierrors ing' = ierrors ?ing"
    using prepare_rep [OF rep fact(1) ps bags(1) _ S, of wk] inv_defined(1) [OF L inv bags(1)] s by auto
  have it': "itable ing' \<noteq> None" using prep(2) by (simp add: table_rep_def)
  let ?st = "set_turn i (Prepared p use_pool) ps st ing'" and ?s = "(tcols t', R')" and ?as = "as @ [Evolve p]"
  obtain raw where raw: "infer_and_flatten L raw = Inr p" using fact(2) by blast
  have dc: "distinct (map (lower \<circ> cname) (pcolumns p))" using fact(1) unfolding payload_ok_def by blast
  have evolves: "mset (evolved_by ?as) + mset (routed (left_of ?st)) = mset (routed all)"
    using d(4) bags(5) [of "Prepared p use_pool" ing'] ps by simp
  have bag: "mset (appended_by ?as) + mset (held_of ?st) = mset (evolved_by ?as)"
    using d(5) bags(3) [of "Prepared p use_pool" ing'] by simp
  have "stream_inv L ing0 s0 N0 all ?st ?s ?as"
  proof (rule stream_invI, goal_cases)
    case 1
    then show ?case unfolding ingest_rep_def using prep(2) by auto
  next
    case 2
    then show ?case unfolding acts_snoc using d(2) s prep(3,4) by auto
  next
    case 3
    then show ?case using d(3) bag by (intro in_order_snoc) (simp_all only: mset_subset_eq_add_left flip: bag)
  next
    case 6
    then show ?case unfolding fst_conv prep(3) using d(6) s by (intro evolved_columns_distinct dc) simp
  next
    case 7
    then show ?case unfolding fst_conv prep(3) using d(7) s raw by (intro evolved_supported) auto
  next
    case (8 q)
    then have "q \<in># mset (held_of st) \<or> q = p" using bags(3) [of "Prepared p use_pool" ing'] by auto
    then show ?case unfolding fst_conv prep(3)
      using fits_layout_own [OF fact(1)] fits_layout_evolved [OF d(8)] s by auto
  next
    case 13
    then show ?case using d(13) prep(6) bags(6) [of "Prepared p use_pool" ing'] by (simp add: count_errors_rep)
  qed (use evolves bag it' d bags(4) prep(5) in \<open>simp_all add: count_errors_rep\<close>)
  moreover have "stream_turn L wk i st = Inr ?st"
    using turn prep(1) it ps by (auto simp: stream_turn_def count_errors_rep Let_def)
  ultimately show ?thesis by (intro exI [of _ ?st] exI [of _ ?s] exI [of _ ?as]) simp
qed

text \<open>Without a table or without columns the batch is ingested in the section.\<close>

lemma ingest_turn:
  assumes L: "stream_defined L all s0" and S: "shapes_typed L (set all)" and inf: "inferred_batches L all"
    and A: "\<And>out. append_ok L (iname ing0) out" and ne: "itable ing0 = None \<Longrightarrow> \<forall>p \<in> set all. pcolumns p \<noteq> []"
    and inv: "stream_inv L ing0 s0 N0 all st s as"
    and i: "i < length (sturns st)" and turn: "sturns st ! i = (Ready, p # ps)"
    and now: "itable (sing st) = None \<or> pcolumns p = []"
  shows "\<exists>st' s' as'. stream_turn L wk i st = Inr st' \<and> stream_inv L ing0 s0 N0 all st' s' as' \<and>
    length (sturns st') = length (sturns st)"
proof -
  note d = stream_invD [OF inv] and bags = ready_turn_bags [OF inv i turn]
  note fact = batch_facts [OF inf bags(1)]
  let ?ing = "count_errors p (sing st)" and ?N = "N0 + sum_list (map batch_count (appended_by as))"
  obtain raw where raw: "infer_and_flatten L raw = Inr p" using fact(2) by blast
  have rep: "ingest_rep L (set all) ?ing s ?N" unfolding count_errors_rep by (rule d(1))
  have fit: "batch_fits L (set all) (fst s) p" by (rule inferred_batch_fits [OF raw bags(1) d(7) inv_defined(2) [OF L inv bags(1)]])
  have A': "append_ok L (iname ?ing) out" for out using A d(11) by (simp add: count_errors_rep)
  have ne': "itable ?ing = None \<Longrightarrow> pcolumns p \<noteq> []" using ne d(12) bags(1) by (auto simp: count_errors_rep)
  obtain ing' t' R' where ing: "ingest_parsed L wk p ?ing = Inr ing'"
      "table_rep L (set all) ing' t' R' (?N + batch_count p)" "ingest_step L p s (tcols t', R')"
      "iname ing' = iname ?ing"
    using ingest_parsed_rep [OF rep S inv_defined(1) [OF L inv bags(1)] fit A' ne', of wk] by blast
  have it': "itable ing' \<noteq> None" using ing(2) by (simp add: table_rep_def)
  let ?st = "set_turn i Ready ps st ing'" and ?s = "(tcols t', R')"
  let ?as = "as @ (if pcolumns p = [] then [] else [Evolve p] @ [Append p])"
  have bag: "mset (appended_by ?as) + mset (held_of ?st) = mset (evolved_by ?as)"
    using d(5) bags(3) [of Ready ing'] by simp
  have vacuous: "\<not> (itable ing0 \<noteq> None \<and> (\<forall>p \<in> set all. pcolumns p \<noteq> []))" using now d(12) bags(1) by auto
  have cols: "distinct (map (lower \<circ> fst) (fst ?s)) \<and> types_filled (fst ?s)"
    by (rule step_columns [OF ing(3) raw d(6,7)])
  have "stream_inv L ing0 s0 N0 all ?st ?s ?as"
  proof (rule stream_invI, goal_cases)
    case 1
    then show ?case unfolding ingest_rep_def using ing(2) by (auto simp: batch_count_def add.assoc)
  next
    case 2
    show ?case
    proof (cases "pcolumns p = []")
      case True
      then have "?s = s" using ing(3) by (simp add: ingest_step_def)
      with True d(2) show ?thesis by simp
    next
      case False
      then obtain R news where e: "tcols t' = evolved_columns (fst s) (pcolumns p)"
          "rows_evolve L (pcolumns p) (fst s) (snd s) R" "rows_in L (tcols t') p = Inr news" "R' = R + mset news"
        using ing(3) by (auto simp: ingest_step_def)
      then have "act L (Evolve p) s (tcols t', R)" "act L (Append p) (tcols t', R) ?s" by simp_all
      with False d(2) show ?thesis
        unfolding if_not_P [OF False] append_assoc [symmetric] acts_snoc by blast
    qed
  next
    case 3
    have "mset (appended_by (as @ [Evolve p])) \<subseteq># mset (evolved_by (as @ [Evolve p]))"
      using d(5) by (simp, metis mset_subset_eq_add_left subset_mset.order_trans mset_subset_eq_add_right add_mset_add_single)
    then have "in_order (as @ [Evolve p])" by (rule in_order_snoc [OF d(3)])
    moreover have "mset (appended_by ?as) \<subseteq># mset (evolved_by ?as)" unfolding bag [symmetric] by simp
    ultimately show ?case using d(3) in_order_snoc [of "as @ [Evolve p]" "Append p"] by (auto split: if_splits)
  next
    case 4
    then show ?case using d(4) bags(5) [of Ready ing'] by (simp split: if_splits)
  next
    case (8 q)
    then have "fits_layout (fst s) q" using d(8) bags(3) [of Ready ing'] by simp
    then show ?case using ing(3) fits_layout_evolved by (auto simp: ingest_step_def split: if_splits)
  qed (use bag it' d bags(4) ing(4) vacuous cols in \<open>simp_all add: count_errors_rep\<close>)
  moreover have "stream_turn L wk i st = Inr ?st"
    using turn ing(1) now by (simp add: stream_turn_def count_errors_rep Let_def)
  ultimately show ?thesis by (intro exI [of _ ?st] exI [of _ ?s] exI [of _ ?as]) simp
qed

lemma stream_turn_inv:
  assumes "stream_defined L all s0" "shapes_typed L (set all)" "inferred_batches L all"
    and "\<And>out. append_ok L (iname ing0) out" "itable ing0 = None \<Longrightarrow> \<forall>p \<in> set all. pcolumns p \<noteq> []"
    and inv: "stream_inv L ing0 s0 N0 all st s as" and i: "i < length (sturns st)"
  shows "\<exists>st' s' as'. stream_turn L wk i st = Inr st' \<and> stream_inv L ing0 s0 N0 all st' s' as' \<and>
    length (sturns st') = length (sturns st)"
proof (cases "sturns st ! i")
  case (Pair ph ps)
  show ?thesis
  proof (cases ph)
    case (Prepared p use_pool)
    with Pair submit_turn [OF assms(1-4) inv i] show ?thesis by simp
  next
    case Ready
    show ?thesis
    proof (cases ps)
      case Nil
      with Pair Ready have "stream_turn L wk i st = Inr st" by (simp add: stream_turn_def)
      with inv show ?thesis by blast
    next
      case (Cons p ps')
      with Pair Ready have "sturns st ! i = (Ready, p # ps')" by simp
      with prepare_turn [OF assms(1-3) inv i] ingest_turn [OF assms(1-5) inv i] show ?thesis by blast
    qed
  qed
qed

lemma stream_run_inv:
  assumes "stream_defined L all s0" "shapes_typed L (set all)" "inferred_batches L all"
    and "\<And>out. append_ok L (iname ing0) out" "itable ing0 = None \<Longrightarrow> \<forall>p \<in> set all. pcolumns p \<noteq> []"
  shows "stream_inv L ing0 s0 N0 all st s as \<Longrightarrow> \<forall>i \<in> set (map snd turns). i < length (sturns st) \<Longrightarrow>
    \<exists>st' s' as'. stream_run L turns st = Inr st' \<and> stream_inv L ing0 s0 N0 all st' s' as'"
proof (induction turns arbitrary: st s as)
  case (Cons turn turns)
  obtain wk i where turn: "turn = (wk, i)" by (cases turn)
  with Cons.prems(2) have i: "i < length (sturns st)" by simp
  obtain st1 s1 as1 where 1: "stream_turn L wk i st = Inr st1" "stream_inv L ing0 s0 N0 all st1 s1 as1"
      "length (sturns st1) = length (sturns st)"
    using stream_turn_inv [OF assms Cons.prems(1) i] by blast
  with Cons.IH [OF 1(2)] Cons.prems(2) turn show ?case by simp
qed auto

lemma routed_counts: "sum_list (map batch_count (routed ps)) = sum_list (map batch_count ps)"
  by (induction ps) (simp_all add: batch_count_def)

section \<open>Properties\<close>


lemma sample_stream: "stream_defined sample_lib all s"
  by (simp add: stream_defined_def sample_defined sample_rows_written)


text \<open>
  The first batch of a concurrent ingest counts its skipped lines twice. When the table
  does not exist, the count is added by the concurrent entry point and once more by the
  serial one it calls; with the table there, or with one consumer, it is added once.
\<close>

theorem stream_counts_errors_twice:
  "(let p = with_errors 1 (JObj [(''a'', JUint 1)]);
        errors = (\<lambda>r. map_sum id (\<lambda>st. (ierrors (sing st), irows (sing st))) r)
    in errors (stream_run sample_lib [(sample_wakeups, 0)] (start_stream (start_ingestor 4096) [[p]])) = Inr (2, 1) \<and>
       errors (stream_run sample_lib [(sample_wakeups, 0), (sample_wakeups, 0), (sample_wakeups, 0)]
         (start_stream (start_ingestor 4096) [[p, p]])) = Inr (3, 2) \<and>
       map_sum id ierrors (raw_ingest_file sample_lib (\<lambda>_. sample_wakeups) [p] (start_ingestor 4096)) = Inr 1)"
  by code_simp

end
