(* ===== verification/Insert.thy ===== *)
theory Insert
  imports StreamIngest Transforms Sql
begin

text \<open>
  INSERT-syntax ingestion (\<^verbatim>\<open>raw_insert.cpp\<close>): the virtual tables of the \<^verbatim>\<open>ingest\<close> schema, the
  target and the options of an INSERT, and the sink. Each thread of the sink collects documents
  and hands full batches to the shared stream ingestor, whose turns are those of
  \<open>StreamIngest\<close>.
\<close>

section \<open>The virtual schema\<close>

datatype catalog_type = TableEntry | OtherEntry

text \<open>The tables synthesized so far with their column names; a lookup makes a missing one.\<close>

definition lookup_entry ::
    "catalog_type \<Rightarrow> string \<Rightarrow> (string \<rightharpoonup> string list) \<Rightarrow> (string \<rightharpoonup> string list) \<times> string list option" where
  "lookup_entry ty name tables =
     (if ty \<noteq> TableEntry then (tables, None)
      else case tables name of
          Some cols \<Rightarrow> (tables, Some cols)
        | None \<Rightarrow> (tables(name \<mapsto> [''payload'']), Some [''payload'']))"

definition plan_ingest_target :: "string \<Rightarrow> string \<Rightarrow> string" where
  "plan_ingest_target catalog table = raw_quote_identifier catalog @ ''.main.'' @ raw_quote_identifier table"

text \<open>\<^verbatim>\<open>rawduck_insert_transform\<close>: a transform's name or else an explode path; None when unset or NULL.\<close>

definition insert_options :: "registry \<Rightarrow> string option \<Rightarrow> parse_options result" where
  "insert_options reg setting =
     (case setting of
        None \<Rightarrow> Inr default_options
      | Some v \<Rightarrow>
          if v = [] then Inr default_options
          else case resolve_transform reg v [] of
              Inr opts \<Rightarrow> Inr opts
            | Inl e \<Rightarrow> resolve_transform reg [] v)"

section \<open>The sink\<close>

definition BATCH_ROWS :: nat where
  "BATCH_ROWS = 30000"

text \<open>The payloads of a chunk that are not NULL.\<close>

definition chunk_texts :: "string option list \<Rightarrow> string list" where
  "chunk_texts chunk = List.map_filter id chunk"

text \<open>\<^verbatim>\<open>FlushBuilding\<close>: the batch to hand over, if there is one.\<close>

definition flush_building ::
    "lib \<Rightarrow> parse_options \<Rightarrow> raw_payload option \<Rightarrow> parsed_payload option result option" where
  "flush_building L opts building =
     (case building of
        None \<Rightarrow> Some (Inr None)
      | Some p \<Rightarrow>
          if prows p = [] then Some (Inr None)
          else map_option (map_sum id Some) (raw_payload_finalize L opts p))"

text \<open>\<^verbatim>\<open>Sink\<close>: the payload being built afterwards and the batch handed over.\<close>

definition sink_chunk ::
    "lib \<Rightarrow> parse_options \<Rightarrow> string option list \<Rightarrow> raw_payload option \<Rightarrow>
     (raw_payload option \<times> parsed_payload option) result option" where
  "sink_chunk L opts chunk building =
     (case add_documents L (ignore_errors opts) (chunk_texts chunk) (case building of None \<Rightarrow> new_payload | Some p \<Rightarrow> p) of
        Inl e \<Rightarrow> Some (Inl e)
      | Inr p \<Rightarrow>
          if length (prows p) \<ge> BATCH_ROWS
          then map_option (map_sum id (\<lambda>out. (None, out))) (flush_building L opts (Some p))
          else Some (Inr (Some p, None)))"

definition with_batch :: "parsed_payload option \<Rightarrow> parsed_payload list \<Rightarrow> parsed_payload list" where
  "with_batch out ps = (case out of None \<Rightarrow> ps | Some p \<Rightarrow> p # ps)"

text \<open>One thread: its chunks in order, then \<^verbatim>\<open>Combine\<close>; the batches it hands over.\<close>

fun sink_thread ::
    "lib \<Rightarrow> parse_options \<Rightarrow> raw_payload option \<Rightarrow> string option list list \<Rightarrow> parsed_payload list result option" where
  "sink_thread L opts building [] =
     map_option (map_sum id (\<lambda>out. with_batch out [])) (flush_building L opts building)"
| "sink_thread L opts building (chunk # chunks) =
     (case sink_chunk L opts chunk building of
        None \<Rightarrow> None
      | Some (Inl e) \<Rightarrow> Some (Inl e)
      | Some (Inr (building, out)) \<Rightarrow>
          map_option (map_sum id (with_batch out)) (sink_thread L opts building chunks))"

text \<open>The count an INSERT returns, once \<^verbatim>\<open>Finalize\<close> has finished the ingestor.\<close>

definition inserted_rows :: "ingestor \<Rightarrow> nat" where
  "inserted_rows ing = irows ing"

section \<open>Facts\<close>

definition document_rows :: "lib \<Rightarrow> string list \<Rightarrow> json list" where
  "document_rows L texts = concat (map collect_rows (good_lines L texts))"

lemma good_lines_append: "good_lines L (as @ bs) = good_lines L as @ good_lines L bs"
  by (induction as) (simp_all split: option.splits)

lemma document_rows_simps [simp]:
  "document_rows L [] = []"
  "document_rows L (as @ bs) = document_rows L as @ document_rows L bs"
  by (simp_all add: document_rows_def good_lines_append)

lemma bad_lines_append [simp]: "bad_lines L (as @ bs) = bad_lines L as @ bad_lines L bs"
  by (simp add: bad_lines_def)

lemma add_documents_rows:
  assumes "add_documents L ignore texts p = Inr p'"
  shows "prows p' = prows p @ document_rows L texts" "\<not> ignore \<Longrightarrow> bad_lines L texts = []"
  using assms add_documents_ignore [of L texts p] add_documents_strict [of L texts p]
  by (cases ignore; auto simp: document_rows_def split: if_splits)+

text \<open>Without a transform a batch has the rows it was built from, and the schema inferred from them.\<close>

lemma finalize_plain:
  assumes "explode_path opts = []" "raw_payload_finalize L opts p = Some (Inr parsed)"
  shows "prows (payload parsed) = prows p" "\<exists>raw. infer_and_flatten L raw = Inr parsed"
  using assms
  by (auto simp: raw_payload_finalize_def explode_if_asked_def set_scalar_rows_def infer_and_flatten_def Let_def
      split: sum.splits)

lemma flush_plain:
  assumes "explode_path opts = []" "flush_building L opts building = Some (Inr out)"
  shows "concat (map (prows \<circ> payload) (with_batch out [])) = (case building of None \<Rightarrow> [] | Some p \<Rightarrow> prows p)"
    "inferred_batches L (with_batch out [])"
  using assms finalize_plain [OF assms(1)]
  by (auto simp: flush_building_def with_batch_def inferred_batches_def map_sum_Inr_iff split: option.splits if_splits)

lemma with_batch_append: "with_batch out ps = with_batch out [] @ ps"
  by (simp add: with_batch_def split: option.splits)

lemma inferred_batches_append:
  "inferred_batches L (ps @ qs) \<longleftrightarrow> inferred_batches L ps \<and> inferred_batches L qs"
  by (auto simp: inferred_batches_def)

lemma sink_chunk_plain:
  assumes "explode_path opts = []" "sink_chunk L opts chunk building = Some (Inr (building', out))"
  shows "concat (map (prows \<circ> payload) (with_batch out [])) @ (case building' of None \<Rightarrow> [] | Some p \<Rightarrow> prows p) =
      (case building of None \<Rightarrow> [] | Some p \<Rightarrow> prows p) @ document_rows L (chunk_texts chunk)"
    "inferred_batches L (with_batch out [])" "\<forall>p \<in> set (with_batch out []). BATCH_ROWS \<le> row_total p"
    "\<not> ignore_errors opts \<Longrightarrow> bad_lines L (chunk_texts chunk) = []"
proof -
  let ?p = "case building of None \<Rightarrow> new_payload | Some p \<Rightarrow> p"
  obtain p where p: "add_documents L (ignore_errors opts) (chunk_texts chunk) ?p = Inr p"
    using assms(2) by (auto simp: sink_chunk_def split: sum.splits)
  have start: "prows ?p = (case building of None \<Rightarrow> [] | Some p \<Rightarrow> prows p)"
    by (simp add: new_payload_def split: option.splits)
  note rows = add_documents_rows [OF p, unfolded start]
  show "\<not> ignore_errors opts \<Longrightarrow> bad_lines L (chunk_texts chunk) = []" by (rule rows(2))
  have "concat (map (prows \<circ> payload) (with_batch out [])) @ (case building' of None \<Rightarrow> [] | Some p \<Rightarrow> prows p) =
      (case building of None \<Rightarrow> [] | Some p \<Rightarrow> prows p) @ document_rows L (chunk_texts chunk) \<and>
    inferred_batches L (with_batch out []) \<and> (\<forall>p \<in> set (with_batch out []). BATCH_ROWS \<le> row_total p)"
  proof (cases "length (prows p) \<ge> BATCH_ROWS")
    case True
    then have f: "flush_building L opts (Some p) = Some (Inr out)" "building' = None"
      using assms(2) p by (auto simp: sink_chunk_def map_sum_Inr_iff)
    then have "concat (map (prows \<circ> payload) (with_batch out [])) = prows p" using flush_plain [OF assms(1)] by simp
    moreover from this have "\<forall>q \<in> set (with_batch out []). BATCH_ROWS \<le> row_total q"
      using True by (cases out) (simp_all add: with_batch_def row_total_def)
    ultimately show ?thesis using rows(1) f flush_plain(2) [OF assms(1) f(1)] by simp
  next
    case False
    then have "building' = Some p" "out = None" using assms(2) p by (simp_all add: sink_chunk_def)
    then show ?thesis using rows(1) by (simp add: with_batch_def inferred_batches_def)
  qed
  then show "concat (map (prows \<circ> payload) (with_batch out [])) @ (case building' of None \<Rightarrow> [] | Some p \<Rightarrow> prows p) =
      (case building of None \<Rightarrow> [] | Some p \<Rightarrow> prows p) @ document_rows L (chunk_texts chunk)"
    "inferred_batches L (with_batch out [])" "\<forall>p \<in> set (with_batch out []). BATCH_ROWS \<le> row_total p"
    by blast+
qed

lemma sink_thread_rows:
  assumes "explode_path opts = []"
  shows "sink_thread L opts building chunks = Some (Inr ps) \<Longrightarrow>
    concat (map (prows \<circ> payload) ps) =
      (case building of None \<Rightarrow> [] | Some p \<Rightarrow> prows p) @ document_rows L (concat (map chunk_texts chunks)) \<and>
    inferred_batches L ps \<and> (\<forall>p \<in> set (butlast ps). BATCH_ROWS \<le> row_total p) \<and>
    (\<not> ignore_errors opts \<longrightarrow> bad_lines L (concat (map chunk_texts chunks)) = [])"
proof (induction chunks arbitrary: building ps)
  case Nil
  then obtain out where out: "flush_building L opts building = Some (Inr out)" "ps = with_batch out []"
    by (auto simp: map_sum_Inr_iff)
  then have "butlast ps = []" by (cases out) (simp_all add: with_batch_def)
  then show ?case using flush_plain [OF assms out(1)] out(2) by (simp add: bad_lines_def comp_def)
next
  case (Cons chunk chunks)
  obtain building' out ps' where step: "sink_chunk L opts chunk building = Some (Inr (building', out))"
      and rest: "sink_thread L opts building' chunks = Some (Inr ps')" and ps: "ps = with_batch out ps'"
    using Cons.prems by (auto simp: map_sum_Inr_iff split: option.splits sum.splits)
  note chunk = sink_chunk_plain [OF assms step] and IH = Cons.IH [OF rest]
  have split: "ps = with_batch out [] @ ps'" using ps by (simp add: with_batch_append [of out ps'])
  have "set (butlast ps) \<subseteq> set (with_batch out []) \<union> set (butlast ps')"
    unfolding split by (cases "ps' = []") (auto simp: butlast_append dest: in_set_butlastD)
  then have "\<forall>p \<in> set (butlast ps). BATCH_ROWS \<le> row_total p" using chunk(3) IH by blast
  moreover have "inferred_batches L ps" unfolding split inferred_batches_append using chunk(2) IH by blast
  moreover have "\<not> ignore_errors opts \<longrightarrow> bad_lines L (concat (map chunk_texts (chunk # chunks))) = []"
    using chunk(4) IH by simp
  moreover have "concat (map (prows \<circ> payload) ps) =
      (case building of None \<Rightarrow> [] | Some p \<Rightarrow> prows p) @ document_rows L (concat (map chunk_texts (chunk # chunks)))"
  proof -
    have "concat (map (prows \<circ> payload) ps) = concat (map (prows \<circ> payload) (with_batch out [])) @
        (case building' of None \<Rightarrow> [] | Some p \<Rightarrow> prows p) @ document_rows L (concat (map chunk_texts chunks))"
      by (simp only: split map_append concat_append conjunct1 [OF IH])
    then show ?thesis using chunk(1) by (metis append.assoc concat.simps(2) document_rows_simps(2) list.simps(9))
  qed
  ultimately show ?case by blast
qed

section \<open>Properties\<close>


definition one_column :: parsed_payload where
  "one_column = projr (infer_and_flatten sample_lib
     (new_payload\<lparr>docs := [JObj [(''a'', JNull)]], prows := [JObj [(''a'', JNull)]]\<rparr>))"


text \<open>The target of an INSERT reads back as the catalog, the main schema and the table.\<close>

lemma plan_ingest_target_parts:
  "\<exists>rest. read_quoted (CHR 0x22) (plan_ingest_target catalog table) = Some (catalog, ''.main.'' @ rest) \<and>
     read_quoted (CHR 0x22) rest = Some (table, [])"
  using read_write_quoted [of "''.main.'' @ raw_quote_identifier table" "CHR 0x22" catalog]
    read_write_quoted [of "[]" "CHR 0x22" table]
  by (simp add: plan_ingest_target_def raw_quote_identifier_def)

end
