(* ===== verification/Quack.thy ===== *)
theory Quack
  imports Insert
begin

text \<open>
  Remote attach over quack (\<^verbatim>\<open>raw_quack_attach.cpp\<close>) and the choice of the catalog
  (\<^verbatim>\<open>raw_attach.cpp\<close>): which schema and which lane an operation goes to, and the sink that sends
  the documents of an INSERT to \<^verbatim>\<open>raw_ingest\<close> of the remote database. Running a statement is a
  parameter.
\<close>

section \<open>Catalogs\<close>

datatype catalog_kind = Native_catalog | Quack_catalog string string

definition raw_duck_is_quack_attach :: "string \<Rightarrow> bool" where
  "raw_duck_is_quack_attach path \<longleftrightarrow> starts_with path ''quack:''"

definition quack_path :: "string \<Rightarrow> string" where
  "quack_path path = (if \<not> starts_with path ''quack:'' then ''quack:'' @ path else path)"

text \<open>
  \<^verbatim>\<open>RawEnsureQuackLoaded\<close>: \<open>autoload\<close> and \<open>load\<close> are what loading answers and whether the extension
  is registered afterwards.
\<close>

definition raw_ensure_quack_loaded :: "bool \<Rightarrow> bool \<times> bool \<Rightarrow> bool result \<Rightarrow> bool result" where
  "raw_ensure_quack_loaded registered autoload load =
     (if registered then Inr True
      else bind_result (if \<not> fst autoload then load else Inr (snd autoload))
        (\<lambda>registered. if \<not> registered
          then Inl (InvalidInput ''RawDuck remote attach requires the quack extension'') else Inr True))"

text \<open>\<open>usable\<close> is whether the extension is found and has both of the functions used.\<close>

definition raw_get_quack_storage_extension :: "bool result \<Rightarrow> bool \<Rightarrow> bool result" where
  "raw_get_quack_storage_extension loaded usable =
     bind_result loaded (\<lambda>_. if \<not> usable then Inl (InvalidInput ''quack storage extension is not available'') else Inr True)"

text \<open>\<open>quack_ext\<close> is the answer of the former, \<open>inner\<close> what attaching with it gives, \<open>token\<close> the option of the statement.\<close>

definition raw_duck_attach_quack :: "bool result \<Rightarrow> string \<Rightarrow> string option \<Rightarrow> bool result \<Rightarrow> catalog_kind result" where
  "raw_duck_attach_quack quack_ext path token inner =
     bind_result quack_ext (\<lambda>_. bind_result inner (\<lambda>found.
       if \<not> found then Inl (InternalError ''quack attach returned no catalog'')
       else Inr (Quack_catalog (quack_path path) (case token of Some t \<Rightarrow> t | None \<Rightarrow> []))))"

definition raw_duck_attach :: "bool result \<Rightarrow> string \<Rightarrow> string option \<Rightarrow> bool result \<Rightarrow> catalog_kind result" where
  "raw_duck_attach quack_ext path token inner =
     (if raw_duck_is_quack_attach path then raw_duck_attach_quack quack_ext path token inner else Inr Native_catalog)"

text \<open>Where a lookup of a schema goes; the flag is whether the virtual schema exists already.\<close>

datatype schema_answer = Ingest_schema | Inner_schema string

definition lookup_schema :: "string \<Rightarrow> bool \<Rightarrow> bool \<times> schema_answer" where
  "lookup_schema name made = (if name = ''ingest'' then (True, Ingest_schema) else (made, Inner_schema name))"

definition quack_drop_schema :: "string \<Rightarrow> schema_answer result" where
  "quack_drop_schema name =
     (if name = ''ingest'' then Inl (NotImplemented ''RawDuck: the ingest schema is virtual'') else Inr (Inner_schema name))"

datatype insert_plan = Native_sink string | Quack_sink string string string | Inner_insert

text \<open>\<^verbatim>\<open>PlanInsert\<close> of both catalogs: the sink of an ingest table, or the catalog's own plan.\<close>

definition plan_insert :: "catalog_kind \<Rightarrow> string \<Rightarrow> bool \<Rightarrow> bool \<Rightarrow> string \<Rightarrow> insert_plan result" where
  "plan_insert cat catalog_name is_ingest has_source table =
     (if \<not> is_ingest then Inr Inner_insert
      else case cat of
        Native_catalog \<Rightarrow>
          if \<not> has_source then Inl (NotImplemented ''RawDuck: INSERT INTO ingest tables requires a data source'')
          else Inr (Native_sink (plan_ingest_target catalog_name table))
      | Quack_catalog uri token \<Rightarrow>
          if \<not> has_source then Inl (NotImplemented ''RawDuck: INSERT INTO ingest tables requires a data source'')
          else Inr (Quack_sink uri token table))"

section \<open>Statements\<close>

definition raw_quack_sql_string :: "string \<Rightarrow> string" where
  "raw_quack_sql_string value = write_quoted (CHR 0x27) value"

definition raw_quack_execute_sql :: "string \<Rightarrow> string \<Rightarrow> string \<Rightarrow> string" where
  "raw_quack_execute_sql quack_uri token remote_sql =
     ''SELECT * FROM quack_query('' @ raw_quack_sql_string quack_uri @ '', '' @ raw_quack_sql_string remote_sql @
     (if token \<noteq> [] then '', token := '' @ raw_quack_sql_string token else []) @ '')''"

text \<open>The documents are joined as they are.\<close>

fun joined :: "string list \<Rightarrow> string" where
  "joined [] = []"
| "joined [d] = d"
| "joined (d # ds) = d @ '','' @ joined ds"

definition build_payload_array :: "string list \<Rightarrow> string" where
  "build_payload_array documents = ''['' @ joined documents @ '']''"

definition remote_ingest_sql :: "string \<Rightarrow> string list \<Rightarrow> string" where
  "remote_ingest_sql table_name documents =
     ''CALL raw_ingest('' @ raw_quack_sql_string table_name @ '', '' @
     raw_quack_sql_string (build_payload_array documents) @ '')''"

section \<open>The sink\<close>

text \<open>The sink's target, and the effect of a statement on the database it is run in.\<close>

record 'w quack_sink =
  sink_uri :: string
  sink_token :: string
  sink_table :: string
  sink_run :: "string \<Rightarrow> 'w \<Rightarrow> 'w \<times> raw_error option"

definition QUACK_BATCH_ROWS :: nat where
  "QUACK_BATCH_ROWS = 30000"

text \<open>Documents not sent yet, rows sent, and the database.\<close>

type_synonym 'w sink_state = "string list \<times> nat \<times> 'w"

definition flush_batch :: "'w quack_sink \<Rightarrow> 'w sink_state \<Rightarrow> 'w sink_state \<times> raw_error option" where
  "flush_batch Q s =
     (case s of (documents, rows, w) \<Rightarrow>
        if documents = [] then (s, None)
        else case sink_run Q (raw_quack_execute_sql (sink_uri Q) (sink_token Q) (remote_ingest_sql (sink_table Q) documents)) w of
            (w, Some e) \<Rightarrow> ((documents, rows, w), Some e)
          | (w, None) \<Rightarrow> (([], rows + length documents, w), None))"

text \<open>\<^verbatim>\<open>Sink\<close> over the payloads of a chunk.\<close>

fun quack_sink_chunk :: "'w quack_sink \<Rightarrow> string option list \<Rightarrow> 'w sink_state \<Rightarrow> 'w sink_state \<times> raw_error option" where
  "quack_sink_chunk Q [] s = (s, None)"
| "quack_sink_chunk Q (None # chunk) s = quack_sink_chunk Q chunk s"
| "quack_sink_chunk Q (Some document # chunk) (documents, rows, w) =
     (if length (documents @ [document]) \<ge> QUACK_BATCH_ROWS
      then case flush_batch Q (documents @ [document], rows, w) of
          (s, Some e) \<Rightarrow> (s, Some e)
        | (s, None) \<Rightarrow> quack_sink_chunk Q chunk s
      else quack_sink_chunk Q chunk (documents @ [document], rows, w))"

text \<open>The chunks in order, then \<^verbatim>\<open>Combine\<close>.\<close>

fun quack_insert :: "'w quack_sink \<Rightarrow> string option list list \<Rightarrow> 'w sink_state \<Rightarrow> 'w sink_state \<times> raw_error option" where
  "quack_insert Q [] s = flush_batch Q s"
| "quack_insert Q (chunk # chunks) s =
     (case quack_sink_chunk Q chunk s of
        (s, Some e) \<Rightarrow> (s, Some e)
      | (s, None) \<Rightarrow> quack_insert Q chunks s)"

section \<open>Reading the statements\<close>

definition after :: "string \<Rightarrow> string \<Rightarrow> string option" where
  "after word s = (if starts_with s word then Some (drop (length word) s) else None)"

definition read_literal :: "string \<Rightarrow> (string \<times> string) option" where
  "read_literal s = read_quoted (CHR 0x27) s"

text \<open>The arguments of a call with two literals, and of the token where there is one.\<close>

definition read_pair :: "string \<Rightarrow> string \<Rightarrow> (string \<times> string \<times> string) option" where
  "read_pair name s =
     Option.bind (after name s) (\<lambda>s. Option.bind (read_literal s) (\<lambda>(x, s).
       Option.bind (after '', '' s) (\<lambda>s. map_option (\<lambda>(y, s). (x, y, s)) (read_literal s))))"

definition read_token :: "string \<Rightarrow> (string \<times> string) option" where
  "read_token s = (case after '', token := '' s of None \<Rightarrow> Some ([], s) | Some s \<Rightarrow> read_literal s)"

definition read_quack_query :: "string \<Rightarrow> (string \<times> string \<times> string) option" where
  "read_quack_query s =
     Option.bind (read_pair ''SELECT * FROM quack_query('' s) (\<lambda>(uri, sql, s).
       Option.bind (read_token s) (\<lambda>(token, s). if s = '')'' then Some (uri, sql, token) else None))"

definition read_ingest_call :: "string \<Rightarrow> (string \<times> string) option" where
  "read_ingest_call s =
     Option.bind (read_pair ''CALL raw_ingest('' s) (\<lambda>(table, payload, s). if s = '')'' then Some (table, payload) else None)"

lemma after_append [simp]: "after word (word @ s) = Some s"
  by (simp add: after_def starts_with_def)

lemma read_literal_string:
  "rest = [] \<or> hd rest \<noteq> CHR 0x27 \<Longrightarrow> read_literal (raw_quack_sql_string v @ rest) = Some (v, rest)"
  by (simp add: read_literal_def raw_quack_sql_string_def read_write_quoted)

lemma read_pair_literals:
  assumes "rest = [] \<or> hd rest \<noteq> CHR 0x27"
  shows "read_pair name (name @ raw_quack_sql_string x @ '', '' @ raw_quack_sql_string y @ rest) = Some (x, y, rest)"
proof -
  have "read_literal (raw_quack_sql_string x @ '', '' @ raw_quack_sql_string y @ rest) = Some (x, '', '' @ raw_quack_sql_string y @ rest)"
    by (rule read_literal_string) simp
  moreover have "after '', '' ('', '' @ raw_quack_sql_string y @ rest) = Some (raw_quack_sql_string y @ rest)" by (rule after_append)
  ultimately show ?thesis
    using read_literal_string [OF assms, of y] by (simp only: read_pair_def after_append bind.simps prod.case option.map)
qed

lemma quack_query_reads_back: "read_quack_query (raw_quack_execute_sql uri token sql) = Some (uri, sql, token)"
proof -
  let ?rest = "(if token \<noteq> [] then '', token := '' @ raw_quack_sql_string token else []) @ '')''"
  have "read_pair ''SELECT * FROM quack_query('' (raw_quack_execute_sql uri token sql) = Some (uri, sql, ?rest)"
    unfolding raw_quack_execute_sql_def by (rule read_pair_literals) simp
  moreover have "read_token ?rest = Some (token, '')'')"
  proof (cases "token = []")
    case True
    then show ?thesis by (simp add: read_token_def after_def starts_with_def)
  next
    case False
    then have "read_token ?rest = read_literal (raw_quack_sql_string token @ '')'')"
      unfolding read_token_def using after_append [of "'', token := ''" "raw_quack_sql_string token @ '')''"] by simp
    also have "\<dots> = Some (token, '')'')" by (rule read_literal_string) simp
    finally show ?thesis .
  qed
  ultimately show ?thesis by (simp only: read_quack_query_def bind.simps prod.case if_True simp_thms)
qed

lemma ingest_call_reads_back: "read_ingest_call (remote_ingest_sql table batch) = Some (table, build_payload_array batch)"
proof -
  have "read_pair ''CALL raw_ingest('' (remote_ingest_sql table batch) = Some (table, build_payload_array batch, '')'')"
    unfolding remote_ingest_sql_def by (rule read_pair_literals) simp
  then show ?thesis by (simp only: read_ingest_call_def bind.simps prod.case if_True simp_thms)
qed

section \<open>Properties\<close>

text \<open>
  The statements carry exactly the data. Whatever characters address, token, table and
  documents contain, the query sent to the remote database reads back as the address, the token and
  a call whose literals are the table and the array of the documents.
\<close>

theorem quack_statement_round_trip:
  "\<exists>sql. read_quack_query (raw_quack_execute_sql uri token (remote_ingest_sql table batch)) = Some (uri, sql, token) \<and>
     read_ingest_call sql = Some (table, build_payload_array batch)"
  by (intro exI conjI, rule quack_query_reads_back, rule ingest_call_reads_back)

section \<open>The batches\<close>

text \<open>A run of the statements of some batches, in order, none of them failing.\<close>

fun sends :: "'w quack_sink \<Rightarrow> string list list \<Rightarrow> 'w \<Rightarrow> 'w \<Rightarrow> bool" where
  "sends Q [] w w' \<longleftrightarrow> w' = w"
| "sends Q (batch # bs) w w' \<longleftrightarrow>
     (\<exists>v. sink_run Q (raw_quack_execute_sql (sink_uri Q) (sink_token Q) (remote_ingest_sql (sink_table Q) batch)) w = (v, None) \<and>
        sends Q bs v w')"

lemma sends_append: "sends Q (as @ bs) w w' \<longleftrightarrow> (\<exists>v. sends Q as w v \<and> sends Q bs v w')"
  by (induction as arbitrary: w) auto

text \<open>
  What a prefix of the sink has done: the batches sent hold, with the documents kept back, exactly
  the documents seen; an error is that of the statement of one more batch.
\<close>

definition sink_reached ::
    "'w quack_sink \<Rightarrow> string list \<Rightarrow> 'w \<Rightarrow> 'w sink_state \<times> raw_error option \<Rightarrow> bool" where
  "sink_reached Q seen w0 out =
     (case out of ((documents, rows, w), e) \<Rightarrow>
        \<exists>bs. (\<forall>b \<in> set bs. b \<noteq> [] \<and> length b \<le> QUACK_BATCH_ROWS) \<and> rows = length (concat bs) \<and>
          (case e of
             None \<Rightarrow> sends Q bs w0 w \<and> seen = concat bs @ documents \<and> length documents < QUACK_BATCH_ROWS
           | Some e \<Rightarrow> \<exists>v rest. sends Q bs w0 v \<and> seen = concat bs @ documents @ rest \<and> documents \<noteq> [] \<and>
               sink_run Q (raw_quack_execute_sql (sink_uri Q) (sink_token Q) (remote_ingest_sql (sink_table Q) documents)) v = (w, Some e)))"

lemma flush_reached:
  assumes "sends Q bs w0 w" "\<forall>b \<in> set bs. b \<noteq> [] \<and> length b \<le> QUACK_BATCH_ROWS"
    and "length documents \<le> QUACK_BATCH_ROWS" "flush_batch Q (documents, length (concat bs), w) = (s, e)"
  shows "sink_reached Q (concat bs @ documents @ (if e = None then [] else rest)) w0 (s, e)"
    "e = None \<Longrightarrow> fst s = []"
proof -
  let ?sql = "raw_quack_execute_sql (sink_uri Q) (sink_token Q) (remote_ingest_sql (sink_table Q) documents)"
  obtain v r where run: "sink_run Q ?sql w = (v, r)" by (cases "sink_run Q ?sql w") auto
  have pos: "0 < QUACK_BATCH_ROWS" by (simp add: QUACK_BATCH_ROWS_def)
  show "sink_reached Q (concat bs @ documents @ (if e = None then [] else rest)) w0 (s, e)"
  proof (cases "documents = []")
    case True
    then show ?thesis using assms pos by (auto simp: flush_batch_def sink_reached_def)
  next
    case False
    show ?thesis
    proof (cases r)
      case None
      then have "s = ([], length (concat bs) + length documents, v)" "e = None"
        using assms(4) run False by (auto simp: flush_batch_def)
      then show ?thesis using assms run None False pos
        by (auto simp: sink_reached_def sends_append intro!: exI [of _ "bs @ [documents]"])
    next
      case (Some x)
      then have "s = (documents, length (concat bs), v)" "e = Some x"
        using assms(4) run False by (auto simp: flush_batch_def)
      then show ?thesis using assms run Some False
        by (auto simp: sink_reached_def intro!: exI [of _ bs])
    qed
  qed
  show "e = None \<Longrightarrow> fst s = []"
    using assms(4) by (auto simp: flush_batch_def split: if_splits prod.splits option.splits)
qed

lemma flush_sent:
  assumes "sends Q bs w0 w" "flush_batch Q (documents, length (concat bs), w) = (s, None)" "documents \<noteq> []"
  shows "\<exists>v. s = ([], length (concat (bs @ [documents])), v) \<and> sends Q (bs @ [documents]) w0 v"
  using assms by (auto simp: flush_batch_def sends_append split: prod.splits option.splits)

lemma chunk_texts_simps [simp]:
  "chunk_texts [] = []" "chunk_texts (None # chunk) = chunk_texts chunk"
  "chunk_texts (Some d # chunk) = d # chunk_texts chunk"
  by (simp_all add: chunk_texts_def map_filter_simps)

lemma sink_chunk_reached:
  assumes "sends Q bs w0 w" "\<forall>b \<in> set bs. b \<noteq> [] \<and> length b \<le> QUACK_BATCH_ROWS"
    and "length documents < QUACK_BATCH_ROWS"
    and "quack_sink_chunk Q chunk (documents, length (concat bs), w) = out"
  shows "sink_reached Q (concat bs @ documents @ chunk_texts chunk @ (if snd out = None then [] else rest)) w0 out"
  using assms
proof (induction chunk arbitrary: bs documents w)
  case Nil
  then show ?case by (auto simp: sink_reached_def)
next
  case (Cons x chunk)
  show ?case
  proof (cases x)
    case None
    then show ?thesis using Cons.IH [OF Cons.prems(1-3)] Cons.prems(4) by simp
  next
    case (Some d)
    let ?full = "documents @ [d]"
    show ?thesis
    proof (cases "length ?full \<ge> QUACK_BATCH_ROWS")
      case False
      have "sink_reached Q (concat bs @ ?full @ chunk_texts chunk @ (if snd out = None then [] else rest)) w0 out"
        by (rule Cons.IH) (use Cons.prems Some False in simp_all)
      then show ?thesis by (simp add: Some)
    next
      case True
      obtain s e where flush: "flush_batch Q (?full, length (concat bs), w) = (s, e)"
        by (cases "flush_batch Q (?full, length (concat bs), w)") auto
      show ?thesis
      proof (cases e)
        case None
        with flush_sent [OF Cons.prems(1)] flush obtain v where
          v: "s = ([], length (concat (bs @ [?full])), v)" "sends Q (bs @ [?full]) w0 v" by blast
        have "sink_reached Q (concat (bs @ [?full]) @ [] @ chunk_texts chunk @ (if snd out = None then [] else rest)) w0 out"
        proof (rule Cons.IH [OF v(2)])
          show "quack_sink_chunk Q chunk ([], length (concat (bs @ [?full])), v) = out"
            using Cons.prems(4) Some True flush None v(1) by simp
        qed (use Cons.prems(2,3) in \<open>auto simp: QUACK_BATCH_ROWS_def\<close>)
        then show ?thesis by (simp add: Some)
      next
        case (Some x')
        then have out: "out = (s, Some x')" using Cons.prems(4) \<open>x = Some d\<close> True flush by simp
        have "length ?full \<le> QUACK_BATCH_ROWS" using Cons.prems(3) by simp
        from flush_reached(1) [OF Cons.prems(1,2) this flush, of "chunk_texts chunk @ rest"]
        show ?thesis by (simp add: out \<open>x = Some d\<close> Some)
      qed
    qed
  qed
qed

lemma quack_insert_reached:
  assumes "sends Q bs w0 w" "\<forall>b \<in> set bs. b \<noteq> [] \<and> length b \<le> QUACK_BATCH_ROWS"
    and "length documents < QUACK_BATCH_ROWS"
    and "quack_insert Q chunks (documents, length (concat bs), w) = (s, e)"
  shows "sink_reached Q (concat bs @ documents @ concat (map chunk_texts chunks)) w0 (s, e)"
    "e = None \<Longrightarrow> fst s = []"
proof -
  have "sink_reached Q (concat bs @ documents @ concat (map chunk_texts chunks)) w0 (s, e) \<and> (e = None \<longrightarrow> fst s = [])"
    using assms
  proof (induction chunks arbitrary: bs documents w)
    case Nil
    then have flush: "flush_batch Q (documents, length (concat bs), w) = (s, e)" and len: "length documents \<le> QUACK_BATCH_ROWS" by simp_all
    show ?case
      using flush_reached(1) [OF Nil.prems(1,2) len flush, of "[]"] flush_reached(2) [OF Nil.prems(1,2) len flush]
      by (cases e) simp_all
  next
    case (Cons chunk chunks)
    obtain s1 e1 where one: "quack_sink_chunk Q chunk (documents, length (concat bs), w) = (s1, e1)"
      by (cases "quack_sink_chunk Q chunk (documents, length (concat bs), w)") auto
    note reached = sink_chunk_reached [OF Cons.prems(1-3) one, of "concat (map chunk_texts chunks)"]
    show ?case
    proof (cases e1)
      case None
      then obtain bs' documents' w' where s1: "s1 = (documents', length (concat bs'), w')"
        and ok: "sends Q bs' w0 w'" "\<forall>b \<in> set bs'. b \<noteq> [] \<and> length b \<le> QUACK_BATCH_ROWS" "length documents' < QUACK_BATCH_ROWS"
        and seen: "concat bs @ documents @ chunk_texts chunk = concat bs' @ documents'"
        using reached by (cases s1) (auto simp: sink_reached_def)
      have "quack_insert Q chunks (documents', length (concat bs'), w') = (s, e)"
        using Cons.prems(4) one None s1 by simp
      from Cons.IH [OF ok this] seen show ?thesis
        by (metis append.assoc concat.simps(2) list.simps(9))
    next
      case (Some x)
      then have "(s, e) = (s1, e1)" using Cons.prems(4) one by simp
      with Some reached show ?thesis by simp
    qed
  qed
  then show "sink_reached Q (concat bs @ documents @ concat (map chunk_texts chunks)) w0 (s, e)" "e = None \<Longrightarrow> fst s = []"
    by blast+
qed

text \<open>
  Property C19: a remote INSERT sends every document once. However the payloads are cut into chunks,
  the documents that are not NULL go out in order, in batches that are not empty and hold at most
  \<open>QUACK_BATCH_ROWS\<close>, each by one statement, and the count returned is their number. When a statement
  fails the batches before it have been sent and stay sent, and the INSERT ends with its error.
\<close>

theorem quack_insert_sends_batches:
  assumes "quack_insert Q chunks ([], 0, w) = ((documents, rows, w'), e)"
  shows "\<exists>bs. (\<forall>b \<in> set bs. b \<noteq> [] \<and> length b \<le> QUACK_BATCH_ROWS) \<and> rows = length (concat bs) \<and>
    (case e of
       None \<Rightarrow> sends Q bs w w' \<and> concat bs = concat (map chunk_texts chunks)
     | Some e \<Rightarrow> \<exists>v rest. sends Q bs w v \<and> concat bs @ documents @ rest = concat (map chunk_texts chunks) \<and> documents \<noteq> [] \<and>
         sink_run Q (raw_quack_execute_sql (sink_uri Q) (sink_token Q) (remote_ingest_sql (sink_table Q) documents)) v = (w', Some e))"
proof -
  have "0 < QUACK_BATCH_ROWS" by (simp add: QUACK_BATCH_ROWS_def)
  with quack_insert_reached [of Q "[]" w w "[]" chunks "(documents, rows, w')" e] assms
  have "sink_reached Q (concat (map chunk_texts chunks)) w ((documents, rows, w'), e)" "e = None \<Longrightarrow> documents = []"
    by auto
  then show ?thesis unfolding sink_reached_def
    by (cases e) (simp, metis)+
qed

definition log_sink :: "string list quack_sink" where
  "log_sink = \<lparr>sink_uri = ''quack:h'', sink_token = [], sink_table = ''t'', sink_run = (\<lambda>sql log. (log @ [sql], None))\<rparr>"

theorem quack_insert_sends_batches_witness:
  "\<exists>bs log rows. quack_insert log_sink [[Some ''1'', None], [Some ''2'']] ([], 0, []) = (([], rows, log), None) \<and>
     concat bs = [''1'', ''2''] \<and> sends log_sink bs [] log \<and> rows = 2"
proof -
  have run: "quack_insert log_sink [[Some ''1'', None], [Some ''2'']] ([], 0, []) =
      (([], 2, [raw_quack_execute_sql ''quack:h'' [] (remote_ingest_sql ''t'' [''1'', ''2''])]), None)"
    by (simp add: log_sink_def flush_batch_def QUACK_BATCH_ROWS_def)
  from quack_insert_sends_batches [OF run] obtain bs where
    "sends log_sink bs [] [raw_quack_execute_sql ''quack:h'' [] (remote_ingest_sql ''t'' [''1'', ''2''])]"
    "concat bs = [''1'', ''2'']" by auto
  with run show ?thesis by blast
qed

section \<open>The remote rows\<close>

lemma size_collect_rows: "size_list size (collect_rows v) \<le> Suc (size v)"
  "is_arr v \<Longrightarrow> size_list size (collect_rows v) < Suc (size v)"
  by (cases v; simp add: collect_rows_def)+

lemma size_list_rows: "size_list size (concat (map collect_rows vs)) \<le> size_list size vs"
proof (induction vs)
  case (Cons v vs)
  with size_collect_rows(1) [of v] show ?case by (simp add: size_list_append)
qed simp

lemma rows_kept_iff: "concat (map collect_rows vs) = vs \<longleftrightarrow> (\<forall>v \<in> set vs. \<not> is_arr v)"
proof (induction vs)
  case (Cons v vs)
  show ?case
  proof (cases "is_arr v")
    case True
    then have "size_list size (concat (map collect_rows (v # vs))) < size_list size (v # vs)"
      using size_collect_rows(2) [of v] size_list_rows [of vs] by (simp add: size_list_append)
    then have "concat (map collect_rows (v # vs)) \<noteq> v # vs" by (metis less_irrefl)
    with True show ?thesis by simp
  qed (use Cons in \<open>simp add: collect_rows_def\<close>)
qed simp

lemma good_lines_all: "list_all2 (\<lambda>t v. read_json L t = Some v) documents vs \<Longrightarrow> good_lines L documents = vs"
  by (induction rule: list_all2_induct) simp_all

text \<open>
  The remote rows are those of the native lane for documents that are not arrays. Where
  every document is read, and the array of the texts as the array of their values, the remote
  payload has the rows the native INSERT stores exactly when no document is an array; an array
  becomes one row where the native lane makes a row of each element.
\<close>

theorem quack_rows_agree:
  assumes "list_all2 (\<lambda>t v. read_json L t = Some v) documents vs"
    and "read_json L (build_payload_array documents) = Some (JArr vs)"
  shows "map_option collect_rows (read_json L (build_payload_array documents)) = Some (document_rows L documents) \<longleftrightarrow>
    (\<forall>v \<in> set vs. \<not> is_arr v)"
  using assms rows_kept_iff [of vs]
  by (auto simp: document_rows_def good_lines_all collect_rows_def)

definition array_lib :: lib where
  "array_lib = sample_lib\<lparr>read_json := (\<lambda>s. if s = ''[]'' then Some (JArr []) else if s = ''[[]]'' then Some (JArr [JArr []]) else None)\<rparr>"

theorem quack_rows_agree_witness:
  "map_option collect_rows (read_json array_lib (build_payload_array [''[]''])) \<noteq> Some (document_rows array_lib [''[]''])"
proof -
  have "list_all2 (\<lambda>t v. read_json array_lib t = Some v) [''[]''] [JArr []]"
    "read_json array_lib (build_payload_array [''[]'']) = Some (JArr [JArr []])"
    by (simp_all add: array_lib_def build_payload_array_def)
  from quack_rows_agree [OF this] show ?thesis by simp
qed

end
