(* ===== verification/Serving.thy ===== *)
theory Serving
  imports Api Records GroupCommit
begin

text \<open>
  The HTTP ingest path from the request to the table, and the table function \<^verbatim>\<open>raw_ingest\<close>.
  \<^verbatim>\<open>RawIngestor\<close>'s constructor, \<^verbatim>\<open>RawIngestParsedPayload\<close> and \<^verbatim>\<open>RawIngestFunction\<close> (\<^verbatim>\<open>raw_ingest.cpp\<close>,
  lines 726 to 746, 1353 to 1365 and 1619 to 1681) are composed with the server of \<open>Api\<close>, the payloads
  of \<open>Process\<close>, the ingestor of \<open>Ingest\<close>, the retry of \<open>Transactions\<close> and the group commit of
  \<open>GroupCommit\<close>, for requests that have the coordinator of their table to themselves. The database is a store of tables with the shape cache that outlives an ingestor.
\<close>

section \<open>The ingestor of a request\<close>

text \<open>\<open>has_database\<close> and \<open>dflt\<close> are the attached databases and the default one.\<close>

definition resolve_names :: "(string \<Rightarrow> bool) \<Rightarrow> string \<Rightarrow> qualified_name \<Rightarrow> qualified_name" where
  "resolve_names has_database dflt q =
     (let q = (if qcatalog q = [] \<and> qschema q \<noteq> [] \<and> has_database (qschema q)
               then q\<lparr>qcatalog := qschema q, qschema := []\<rparr> else q);
          q = (if qcatalog q = [] then q\<lparr>qcatalog := dflt\<rparr> else q)
      in if qschema q = [] then q\<lparr>qschema := ''main''\<rparr> else q)"

definition cache_key :: "qualified_name \<Rightarrow> string" where
  "cache_key q = qcatalog q @ ''.'' @ qschema q @ ''.'' @ qname q"

text \<open>Tables and absorbed shapes by key, and the number of the next storage object.\<close>

record table_store =
  stable :: "string \<Rightarrow> table option"
  sshapes :: "string \<Rightarrow> shape_entry option"
  sfresh :: nat

definition new_ingestor :: "32 word \<Rightarrow> session \<Rightarrow> qualified_name \<Rightarrow> table_store \<Rightarrow> ingestor" where
  "new_ingestor cores conf q st =
     \<lparr>iname = qname q, ikey = cache_key q, itable = stable st (cache_key q), ifresh = sfresh st,
      ishapes = sshapes st, icached = None, ilayout = \<lparr>ltoken = None, lshape = 0, lslots = []\<rparr>,
      ipool = None, iwrite = write_settings_get conf, icores = cores, icreated = False,
      icolumns_added = 0, icolumns_widened = 0, irows = 0, ierrors = 0\<rparr>"

definition stats_of :: "ingestor \<Rightarrow> ingest_stats" where
  "stats_of ing = \<lparr>screated = icreated ing, sadded = icolumns_added ing, swidened = icolumns_widened ing,
     srows = irows ing, serrors = ierrors ing\<rparr>"

definition raw_ingest_parsed_payload ::
    "lib \<Rightarrow> wakeups \<Rightarrow> wakeups \<Rightarrow> parsed_payload \<Rightarrow> ingestor \<Rightarrow> (ingestor \<times> ingest_stats) result" where
  "raw_ingest_parsed_payload L wk last_wk parsed ing =
     bind_result (ingest_parsed L wk parsed ing) (\<lambda>ing.
     bind_result (finish_ingest L last_wk ing) (\<lambda>ing. Inr (ing, stats_of ing)))"

section \<open>A request alone\<close>

definition store_back :: "string \<Rightarrow> ingestor \<Rightarrow> table_store \<Rightarrow> table_store" where
  "store_back key ing st =
     \<lparr>stable = (stable st)(key := itable ing), sshapes = ishapes ing, sfresh = ifresh ing\<rparr>"

text \<open>
  What the surroundings of a request decide: the databases, the workers, what the commits of its
  two attempts answer and which errors invalidate a transaction.
\<close>

record request_env =
  rhas_database :: "string \<Rightarrow> bool"
  rdefault :: string
  rcores :: "32 word"
  rwake :: "parsed_payload \<Rightarrow> wakeups"
  rlast_wake :: "parsed_payload \<Rightarrow> wakeups"
  rcommits :: "commit_answer \<times> commit_answer"
  rinvalidates :: "raw_error \<Rightarrow> bool"

text \<open>The store an attempt leaves, from the \<^verbatim>\<open>RawIngestor\<close>'s constructor on.\<close>

definition ingest_target ::
    "lib \<Rightarrow> request_env \<Rightarrow> (string \<Rightarrow> qualified_name result) \<Rightarrow> string \<Rightarrow> parsed_payload \<Rightarrow> session \<Rightarrow>
     table_store \<Rightarrow> (table_store \<times> ingest_stats) result" where
  "ingest_target L R parse table parsed conf st =
     bind_result (parse table) (\<lambda>q.
       let q = resolve_names (rhas_database R) (rdefault R) q in
       map_sum id (\<lambda>(ing, stats). (store_back (cache_key q) ing st, stats))
         (raw_ingest_parsed_payload L (rwake R parsed) (rlast_wake R parsed) parsed
            (new_ingestor (rcores R) conf q st)))"

definition attempt_of :: "request_env \<Rightarrow> commit_answer \<Rightarrow> (table_store \<times> ingest_stats) result \<Rightarrow> attempt" where
  "attempt_of R ans out =
     (map_sum id snd out, case out of Inl e \<Rightarrow> rinvalidates R e | Inr _ \<Rightarrow> False, ans)"

text \<open>
  \<^verbatim>\<open>RawIngestGroupCommit\<close> of a request that finds its coordinator idle: it leads at once, its batch
  is itself, the batch runs through \<^verbatim>\<open>RawIngestSerialized\<close>, a failed one is rolled back, and the
  item's outcome is its answer. Both attempts start from the same store, since the first is rolled
  back before the second; the shapes a failed attempt may have absorbed are not followed.
\<close>

definition raw_ingest_group_commit ::
    "lib \<Rightarrow> request_env \<Rightarrow> (string \<Rightarrow> qualified_name result) \<Rightarrow> string \<Rightarrow> parsed_payload \<Rightarrow> string \<Rightarrow> parse_options \<Rightarrow>
     table_store api_world \<Rightarrow> table_store api_world \<times> ingest_stats result" where
  "raw_ingest_group_commit L R parse table parsed body options w =
     (let s = enter_request table parsed body empty_coordinator;
          combined = fst (batch_input s (batch_of (rphase (req s 0))));
          out = ingest_target L R parse table combined (wsession w) (wdatabase w);
          (answer, c, _) = raw_ingest_serialized (attempt_of R (fst (rcommits R)) out)
             (attempt_of R (snd (rcommits R)) out) False \<lparr>auto_commit = True, invalidated = False\<rparr>;
          finish = (\<lambda>outcome. rdone (req (leave_request 0
             (finish_batch 0 (batch_of (rphase (req s 0))) outcome s)) 0))
      in case answer of
           Inr stats \<Rightarrow>
             (case finish (Answer stats) of
                Some (Answer stats) \<Rightarrow> (w\<lparr>wdatabase := (case out of Inr (st, _) \<Rightarrow> st | Inl _ \<Rightarrow> wdatabase w)\<rparr>, Inr stats)
              | _ \<Rightarrow> (w, Inl (InternalError ''unresolved item'')))
         | Inl e \<Rightarrow>
             (case raw_rollback_transaction c of
                (Some e, _) \<Rightarrow> (w, Inl e)
              | (None, _) \<Rightarrow>
                  (case finish (Failed (raw_message e)) of
                     Some (Failed m) \<Rightarrow> (w, Inl (InvalidInput m))
                   | _ \<Rightarrow> (w, Inl (InternalError ''unresolved item'')))))"

text \<open>Requests one after the other, with their answers.\<close>

fun serve_all ::
    "lib \<Rightarrow> 'd api_env \<Rightarrow> api_server \<Rightarrow> http_request list \<Rightarrow> 'd api_world \<Rightarrow> ('d api_world \<times> http_response list) option" where
  "serve_all L E S [] w = Some (w, [])"
| "serve_all L E S (rq # reqs) w =
     (case serve L E S rq w of
        None \<Rightarrow> None
      | Some (w, res) \<Rightarrow> map_option (\<lambda>(w, rs). (w, res # rs)) (serve_all L E S reqs w))"

section \<open>The key of an ingestor\<close>

lemma ikey_lookup: "ikey (lookup_table_cached ing) = ikey ing" "ikey (invalidate_table_cache ing) = ikey ing"
  by (simp_all add: lookup_table_cached_def invalidate_table_cache_def split: option.splits)

lemma ikey_ensure_pool: "ikey (ensure_pool t p ing) = ikey ing"
  by (simp add: ensure_pool_def)

lemma ikey_drain: "drain_pool L wk t ing = Inr ing' \<Longrightarrow> ikey ing' = ikey ing"
  by (auto simp: map_sum_Inr_iff drain_pool_def split: option.splits)

lemma ikey_append: "append_or_submit L wk t p ing = Inr ing' \<Longrightarrow> ikey ing' = ikey ing"
  by (auto simp: map_sum_Inr_iff append_or_submit_def append_direct_def split: option.splits if_splits)

lemma ikey_evolve: "evolve_table L wk t p ing = Inr ing' \<Longrightarrow> ikey ing' = ikey ing"
  by (auto simp: map_sum_Inr_iff evolve_table_def disappeared_def ikey_lookup Let_def dest!: ikey_drain
      split: prod.splits option.splits if_splits)

lemma ikey_absorb_shape: "ikey (absorb_shape t shape ing) = ikey ing"
  by (simp add: absorb_shape_def Let_def)

lemma ikey_absorb: "absorb_schema L wk t p ing = Inr ing' \<Longrightarrow> ikey ing' = ikey ing"
  by (auto simp: absorb_schema_def disappeared_def ikey_lookup ikey_absorb_shape Let_def dest!: ikey_evolve
      split: option.splits if_splits)

lemma ikey_legacy: "legacy_ingest_native L wk p ing = Inr ing' \<Longrightarrow> ikey ing' = ikey ing"
  by (auto simp: map_sum_Inr_iff legacy_ingest_native_def disappeared_def ikey_lookup ikey_ensure_pool Let_def
      dest!: ikey_evolve ikey_append split: option.splits if_splits)

lemma ikey_parsed: "ingest_parsed L wk p ing = Inr ing' \<Longrightarrow> ikey ing' = ikey ing"
  by (auto simp: map_sum_Inr_iff ingest_parsed_def ingest_native_def disappeared_def ikey_lookup ikey_ensure_pool Let_def
      dest!: ikey_absorb ikey_append ikey_legacy split: option.splits if_splits)

section \<open>One request\<close>

lemma stats_of_simps: "srows (stats_of ing) = irows ing" "serrors (stats_of ing) = ierrors ing"
  by (simp_all add: stats_of_def)

lemma one_ingest:
  assumes "step_defined L p s" "shapes_typed L S" "p \<in> S" "infer_and_flatten L raw = Inr p"
    and "ingest_rep L S ing s N" "distinct (map (lower \<circ> fst) (fst s))" "types_filled (fst s)"
    and "\<And>out. append_ok L (iname ing) out" "pcolumns p \<noteq> []"
  shows "\<exists>ing' t R. raw_ingest_parsed_payload L wk last_wk p ing = Inr (ing', stats_of ing') \<and>
    table_rep L S ing' t R (N + batch_count p) \<and> ingest_step L p s (tcols t, R) \<and> ipool ing' = None \<and>
    ierrors ing' = ierrors ing + parse_errors (payload p) \<and> ikey ing' = ikey ing"
proof -
  have fit: "batch_fits L S (fst s) p"
    using assms(1) by (intro inferred_batch_fits [OF assms(4,3,7)]) (simp add: step_defined_def)
  have conv: "\<forall>row \<in># snd s. row_converts L (pcolumns p) (fst s) row" using assms(1) by (simp add: step_defined_def)
  from ingest_parsed_rep [OF assms(5,2) conv fit assms(8,9), of wk] obtain ing1 t R where
    1: "ingest_parsed L wk p ing = Inr ing1" "table_rep L S ing1 t R (N + batch_count p)"
      "ingest_step L p s (tcols t, R)" "ierrors ing1 = ierrors ing + parse_errors (payload p)" by blast
  note key = ikey_parsed [OF 1(1)]
  have it: "itable ing1 = Some t" using 1(2) by (simp add: table_rep_def)
  show ?thesis
  proof (cases "ipool ing1")
    case None
    then show ?thesis using 1 key by (auto simp: raw_ingest_parsed_payload_def finish_ingest_def)
  next
    case (Some P)
    obtain rows where "drain_pool L last_wk t ing1 =
          Inr (ing1\<lparr>itable := Some (t\<lparr>trows := rows\<rparr>), irows := N + batch_count p, ipool := None\<rparr>)"
        "table_rep L S (ing1\<lparr>itable := Some (t\<lparr>trows := rows\<rparr>), irows := N + batch_count p, ipool := None\<rparr>)
          (t\<lparr>trows := rows\<rparr>) R (N + batch_count p)"
      using drain_rep [OF 1(2) shapes_typed_separate [OF assms(2)], of last_wk] by (elim exE conjE) (rule that)
    then show ?thesis using 1 key it Some
      by (intro exI [of _ "ing1\<lparr>itable := Some (t\<lparr>trows := rows\<rparr>), irows := N + batch_count p, ipool := None\<rparr>"]
          exI [of _ "t\<lparr>trows := rows\<rparr>"] exI [of _ R])
        (simp add: raw_ingest_parsed_payload_def finish_ingest_def)
  qed
qed

text \<open>What the store holds of the table at a name: the state of an ingestor just made for it.\<close>

definition store_holds :: "lib \<Rightarrow> parsed_payload set \<Rightarrow> qualified_name \<Rightarrow> table_store \<Rightarrow> relation_state \<Rightarrow> bool" where
  "store_holds L S q st s \<longleftrightarrow> (\<forall>cores conf. ingest_rep L S (new_ingestor cores conf q st) s 0)"

lemma stored_again:
  assumes "table_rep L S ing t R N" "ipool ing = None" "ikey ing = cache_key q"
  shows "store_holds L S q (store_back (cache_key q) ing st) (tcols t, R)"
  unfolding store_holds_def ingest_rep_def
  using assms
  by (auto simp: table_rep_def new_ingestor_def store_back_def cache_sound_def layout_sound_def rows_held_def
      write_settings_get_ok)

lemma store_holds_table:
  assumes "store_holds L S q st s"
  shows "case stable st (cache_key q) of None \<Rightarrow> s = ([], {#}) | Some t \<Rightarrow> s = (tcols t, mset (trows t))"
proof -
  from assms have "ingest_rep L S (new_ingestor 1 Map.empty q st) s 0" by (simp add: store_holds_def)
  then show ?thesis
    by (auto simp: ingest_rep_def table_rep_def no_table_def new_ingestor_def rows_held_def)
qed

text \<open>A POST of a payload to a table, with the token if the server asks for one.\<close>

definition posts :: "lib \<Rightarrow> registry \<Rightarrow> api_server \<Rightarrow> string \<Rightarrow> http_request \<Rightarrow> parsed_payload \<Rightarrow> bool" where
  "posts L reg S table rq p \<longleftrightarrow>
     hmethod rq = ''POST'' \<and> hpath rq = ''/v1/tables/'' @ table \<and> table \<noteq> [] \<and> CHR 0x0A \<notin> set table \<and>
     (api_token S = [] \<or> hheader rq ''Authorization'' = Some (''Bearer '' @ api_token S)) \<and>
     (\<exists>options. request_parse_options reg rq (hbody rq) = Inr options \<and>
        process_payload L options (hbody rq) = Some (Inr p)) \<and> pcolumns p \<noteq> []"

definition inserted_answer :: "'d api_env \<Rightarrow> parsed_payload \<Rightarrow> http_response" where
  "inserted_answer E p = respond E 200 (JObj [(''inserted'', JUint (of_nat (length (prows (payload p)))))]) no_response"

lemma process_inferred: "process_payload L options body = Some (Inr p) \<Longrightarrow> \<exists>raw. infer_and_flatten L raw = Inr p"
  by (auto simp: process_payload_def)

lemma post_routed:
  assumes "posts L reg S table rq p"
  shows "dispatch (register_routes L E S) rq w = handle_ingest L E S table [] rq no_response w"
  using assms
  by (simp add: posts_def register_routes_def guarded_passes starts_with_def)

lemma target_stores:
  assumes name: "parse table = Inr name" and q: "q = resolve_names (rhas_database R) (rdefault R) name"
    and raw: "infer_and_flatten L raw = Inr p" and ne: "pcolumns p \<noteq> []"
    and L: "step_defined L p s" "shapes_typed L ps" "p \<in> ps" "\<And>out. append_ok L (qname q) out"
    and s: "store_holds L ps q st s" "distinct (map (lower \<circ> fst) (fst s))" "types_filled (fst s)"
  shows "\<exists>st' s' stats. ingest_target L R parse table p conf st = Inr (st', stats) \<and>
    srows stats = length (prows (payload p)) \<and> serrors stats = parse_errors (payload p) \<and>
    ingest_step L p s s' \<and> store_holds L ps q st' s'"
proof -
  let ?ing = "new_ingestor (rcores R) conf q st"
  have ing: "iname ?ing = qname q" "ikey ?ing = cache_key q" "ierrors ?ing = 0" by (simp_all add: new_ingestor_def)
  have rep: "ingest_rep L ps ?ing s 0" using s(1) by (simp add: store_holds_def)
  have app: "append_ok L (iname ?ing) out" for out using L(4) ing(1) by simp
  obtain ing' t R' where run: "raw_ingest_parsed_payload L (rwake R p) (rlast_wake R p) p ?ing = Inr (ing', stats_of ing')"
    "table_rep L ps ing' t R' (0 + batch_count p)" "ingest_step L p s (tcols t, R')" "ipool ing' = None"
    "ierrors ing' = parse_errors (payload p)" "ikey ing' = cache_key q"
    using one_ingest [OF L(1-3) raw rep s(2,3) app ne, of "rwake R p" "rlast_wake R p"] ing(2,3) by auto
  have "irows ing' = length (prows (payload p))"
    using run(2,4) ne by (simp add: table_rep_def rows_held_def batch_count_def)
  moreover have "ingest_target L R parse table p conf st = Inr (store_back (cache_key q) ing' st, stats_of ing')"
    using name q run(1) by (simp add: ingest_target_def Let_def)
  ultimately show ?thesis using run(3,5) stored_again [OF run(2,4,6), of st]
    by (intro exI [of _ "store_back (cache_key q) ing' st"] exI [of _ "(tcols t, R')"] exI [of _ "stats_of ing'"])
      (simp add: stats_of_simps)
qed

text \<open>The coordinator's part: a lone request gets the batch's statistics with its own counts, and leaves
  the coordinator idle.\<close>

lemma lone_batch:
  "rphase (req (enter_request table p body empty_coordinator) 0) = Committing [0]"
  "fst (batch_input (enter_request table p body empty_coordinator) [0]) = p"
  "rdone (req (leave_request 0 (finish_batch 0 [0] out (enter_request table p body empty_coordinator))) 0) =
     Some (case out of
         Answer stats \<Rightarrow> Answer (stats\<lparr>srows := length (prows (payload p)), serrors := parse_errors (payload p)\<rparr>)
       | Failed m \<Rightarrow> Failed m)"
  "committing (leave_request 0 (finish_batch 0 [0] out (enter_request table p body empty_coordinator))) = []"
  "cactive (leave_request 0 (finish_batch 0 [0] out (enter_request table p body empty_coordinator))) table = 0"
  "cpending (leave_request 0 (finish_batch 0 [0] out (enter_request table p body empty_coordinator))) table = []"
  by (simp_all add: enter_request_def empty_coordinator_def lead_def update_request_def batch_input_def
      finish_batch_def leave_request_def Let_def split: outcome.splits)

lemma group_commit_stores:
  assumes "parse table = Inr name" "q = resolve_names (rhas_database R) (rdefault R) name"
    and "infer_and_flatten L raw = Inr p" "pcolumns p \<noteq> []"
    and "step_defined L p s" "shapes_typed L ps" "p \<in> ps" "\<And>out. append_ok L (qname q) out"
    and "store_holds L ps q (wdatabase w) s" "distinct (map (lower \<circ> fst) (fst s))" "types_filled (fst s)"
    and commits: "fst (fst (rcommits R)) = None"
  shows "\<exists>st' s' stats. raw_ingest_group_commit L R parse table p body options w = (w\<lparr>wdatabase := st'\<rparr>, Inr stats) \<and>
    srows stats = length (prows (payload p)) \<and> serrors stats = parse_errors (payload p) \<and>
    ingest_step L p s s' \<and> store_holds L ps q st' s'"
proof -
  obtain st' s' stats where t: "ingest_target L R parse table p (wsession w) (wdatabase w) = Inr (st', stats)"
    "ingest_step L p s s'" "store_holds L ps q st' s'"
    using target_stores [where parse = parse, OF assms(1-11), of "wsession w"] by blast
  let ?out = "ingest_target L R parse table p (wsession w) (wdatabase w)"
  obtain r c' known' where run: "raw_ingest_serialized (attempt_of R (fst (rcommits R)) ?out)
      (attempt_of R (snd (rcommits R)) ?out) False \<lparr>auto_commit = True, invalidated = False\<rparr> = (r, c', known')"
    by (metis prod_cases3)
  have "run_attempt (attempt_of R (fst (rcommits R)) ?out) \<lparr>auto_commit = True, invalidated = False\<rparr> =
      (Inr stats, \<lparr>auto_commit = True, invalidated = False\<rparr>)"
    using t(1) commits by (simp add: attempt_of_def txn_defs)
  then have "r = Inr stats" using run by (simp add: raw_ingest_serialized_def)
  then have "raw_ingest_group_commit L R parse table p body options w =
      (w\<lparr>wdatabase := st'\<rparr>, Inr (stats\<lparr>srows := length (prows (payload p)), serrors := parse_errors (payload p)\<rparr>))"
    using run t(1) by (simp add: raw_ingest_group_commit_def lone_batch Let_def)
  with t(2,3) show ?thesis by (simp del: split_paired_Ex) blast
qed

lemma post_served:
  assumes "posts L (wregistry w) S table rq p" "walive w" "\<not> api_async S" "\<not> async_enabled (wsession w)"
    and commit: "ecommit E = raw_ingest_group_commit L R parse" "fst (fst (rcommits R)) = None" and name: "parse table = Inr name"
    and q: "q = resolve_names (rhas_database R) (rdefault R) name"
    and L: "step_defined L p s" "shapes_typed L ps" "p \<in> ps" "\<And>out. append_ok L (qname q) out"
    and s: "store_holds L ps q (wdatabase w) s" "distinct (map (lower \<circ> fst) (fst s))" "types_filled (fst s)"
  shows "\<exists>st' s'. serve L E S rq w = Some (w\<lparr>wdatabase := st'\<rparr>, inserted_answer E p) \<and>
    ingest_step L p s s' \<and> store_holds L ps q st' s'"
proof -
  obtain options where options: "request_parse_options (wregistry w) rq (hbody rq) = Inr options"
    "process_payload L options (hbody rq) = Some (Inr p)" and ne: "pcolumns p \<noteq> []"
    using assms(1) by (auto simp: posts_def)
  obtain raw where raw: "infer_and_flatten L raw = Inr p" using process_inferred [OF options(2)] by blast
  obtain st' s' stats where run: "raw_ingest_group_commit L R parse table p (hbody rq) options w = (w\<lparr>wdatabase := st'\<rparr>, Inr stats)"
    "srows stats = length (prows (payload p))" "ingest_step L p s s'" "store_holds L ps q st' s'"
    using group_commit_stores [where parse = parse, OF name q raw ne L s commit(2)] by blast
  then have "handle_ingest L E S table [] rq no_response w =
      Some (w\<lparr>wdatabase := st'\<rparr>, Inr (inserted_answer E p))"
    using assms(2-4) commit(1) options
    by (simp add: handle_ingest_def ingest_options_def try_ingest_def ingest_answer_def inserted_answer_def)
  then have "serve L E S rq w = Some (w\<lparr>wdatabase := st'\<rparr>, inserted_answer E p)"
    using post_routed [OF assms(1), of E w] by (simp add: serve_def inserted_answer_def respond_def)
  with run(3,4) show ?thesis by blast
qed

section \<open>The table function\<close>

text \<open>\<^verbatim>\<open>raw_ingest(table, payload)\<close>: target, payload and options; NULL arguments are refused.\<close>

definition raw_ingest_bind ::
    "registry \<Rightarrow> ingest_parameters \<Rightarrow> string option \<Rightarrow> string option \<Rightarrow> (string \<times> string \<times> parse_options) result" where
  "raw_ingest_bind reg ps target payload_str =
     (case (target, payload_str) of
        (Some target, Some payload_str) \<Rightarrow>
          bind_result (raw_bind_parse_options reg ps) (\<lambda>options. Inr (target, payload_str, options))
      | _ \<Rightarrow> Inl (InvalidInput ''RawDuck: raw_ingest(table, payload) arguments may not be NULL''))"

text \<open>\<^verbatim>\<open>NumericCast<int64_t>\<close> of a count throws when it does not fit.\<close>

definition count_cell :: "nat \<Rightarrow> 64 word result" where
  "count_cell n = (if n < 2 ^ 63 then Inr (of_nat n) else Inl (InternalError ''Information loss on integer cast''))"

definition emit_ingest_row :: "string \<Rightarrow> ingest_stats \<Rightarrow> (string \<times> bool \<times> 64 word list) result" where
  "emit_ingest_row target stats =
     bind_result (map_result count_cell [sadded stats, swidened stats, srows stats, serrors stats])
       (\<lambda>counts. Inr (target, screated stats, counts))"

text \<open>
  One call: the flag whether the function is done, the world, and the row it emits, if any. An
  exception ends the statement, whose transaction is rolled back.
\<close>

definition raw_ingest_function ::
    "lib \<Rightarrow> request_env \<Rightarrow> (string \<Rightarrow> qualified_name result) \<Rightarrow> string \<times> string \<times> parse_options \<Rightarrow>
     bool \<Rightarrow> table_store api_world \<Rightarrow>
     (bool \<times> table_store api_world \<times> (string \<times> bool \<times> 64 word list) option result) option" where
  "raw_ingest_function L R parse bind_data done w =
     (case bind_data of (target, payload_str, options) \<Rightarrow>
        if done then Some (True, w, Inr None)
        else if async_enabled (wsession w) then
          (case raw_async_enqueue (wsession w) (wnow w) target payload_str options (wasync w) of
             (Inl e, a) \<Rightarrow> Some (True, w\<lparr>wasync := a\<rparr>, Inl e)
           | (Inr _, a) \<Rightarrow> Some (True, w\<lparr>wasync := a\<rparr>, Inr (Some (target, False, [0, 0, 0, 0]))))
        else case parse target of
          Inl e \<Rightarrow> Some (True, w, Inl e)
        | Inr _ \<Rightarrow>
            (case process_payload L options payload_str of
               None \<Rightarrow> None
             | Some (Inl e) \<Rightarrow> Some (True, w, Inl e)
             | Some (Inr parsed) \<Rightarrow>
                 (case ingest_target L R parse target parsed (wsession w) (wdatabase w) of
                    Inl e \<Rightarrow> Some (True, w, Inl e)
                  | Inr (st, stats) \<Rightarrow>
                      (case emit_ingest_row target stats of
                         Inl e \<Rightarrow> Some (True, w, Inl e)
                       | Inr row \<Rightarrow> Some (True, w\<lparr>wdatabase := st\<rparr>, Inr (Some row))))))"

text \<open>
  A synchronous call emits one row, whose last counts are the rows of the payload and its skipped
  records, and the table evolves for the payload and grows by it; the next call emits nothing.
\<close>

lemma raw_ingest_row:
  assumes "process_payload L options payload_str = Some (Inr p)" "pcolumns p \<noteq> []" "\<not> async_enabled (wsession w)"
    and "parse target = Inr name" "q = resolve_names (rhas_database R) (rdefault R) name"
    and "step_defined L p s" "shapes_typed L ps" "p \<in> ps" "\<And>out. append_ok L (qname q) out"
    and "store_holds L ps q (wdatabase w) s" "distinct (map (lower \<circ> fst) (fst s))" "types_filled (fst s)"
    and run: "raw_ingest_function L R parse (target, payload_str, options) False w = Some (d, w', Inr row)"
  shows "d \<and> (\<exists>created added widened. row = Some (target, created,
      [added, widened, of_nat (length (prows (payload p))), of_nat (parse_errors (payload p))])) \<and>
    (\<exists>s'. ingest_step L p s s' \<and> store_holds L ps q (wdatabase w') s') \<and>
    raw_ingest_function L R parse (target, payload_str, options) d w' = Some (d, w', Inr None)"
proof -
  obtain raw where raw: "infer_and_flatten L raw = Inr p" using process_inferred [OF assms(1)] by blast
  obtain st' s' stats where commit: "ingest_target L R parse target p (wsession w) (wdatabase w) = Inr (st', stats)"
    "srows stats = length (prows (payload p))" "serrors stats = parse_errors (payload p)"
    "ingest_step L p s s'" "store_holds L ps q st' s'"
    using target_stores [where parse = parse, OF assms(4,5) raw assms(2,6-12), of "wsession w"] by blast
  then obtain r where r: "emit_ingest_row target stats = Inr r" "d" "w' = w\<lparr>wdatabase := st'\<rparr>" "row = Some r"
    using run assms(1,3,4) by (auto simp: raw_ingest_function_def split: sum.splits)
  then have "\<exists>created added widened. r = (target, created,
      [added, widened, of_nat (length (prows (payload p))), of_nat (parse_errors (payload p))])"
    using commit(2,3) by (auto simp: emit_ingest_row_def count_cell_def split: if_splits)
  with r commit(4,5) show ?thesis by (auto simp: raw_ingest_function_def simp del: split_paired_Ex)
qed

section \<open>Properties\<close>


definition empty_store :: table_store where
  "empty_store = \<lparr>stable = (\<lambda>_. None), sshapes = (\<lambda>_. None), sfresh = 1\<rparr>"

definition sample_requests :: request_env where
  "sample_requests = \<lparr>rhas_database = (\<lambda>_. False), rdefault = ''memory'', rcores = 4,
     rwake = (\<lambda>_. sample_wakeups), rlast_wake = (\<lambda>_. sample_wakeups),
     rcommits = ((None, True), (None, True)), rinvalidates = (\<lambda>_. False)\<rparr>"

definition plain_name :: "string \<Rightarrow> qualified_name result" where
  "plain_name s = Inr \<lparr>qcatalog = [], qschema = [], qname = s\<rparr>"

definition store_env :: "table_store api_env" where
  "store_env =
     \<lparr>eread = (\<lambda>_. None), ewrite = (\<lambda>_. Some ''json''), eparse_name = plain_name,
      equery = (\<lambda>_ w. (w, Inl [])), eelapsed = (\<lambda>_ _. 0),
      ecommit = raw_ingest_group_commit sample_lib sample_requests plain_name,
      eproto = False, eproto_json = (\<lambda>_ _. Inl []), eproto_response = (\<lambda>_ _ _. [])\<rparr>"

definition store_world :: "table_store api_world" where
  "store_world = \<lparr>wdatabase = empty_store, walive = True, wregistry = RBT.empty, wsession = Map.empty, wasync = new_async, wnow = 0\<rparr>"

definition posted :: parsed_payload where
  "posted = projr (the (process_payload sample_lib default_options ''q''))"


end
