(* ===== verification/Spec2Isabelle.thy ===== *)
theory Spec2Isabelle
  imports GroupCommit Optimize Pipeline Records Fallback Collector Quack Serving
begin

text \<open>
  RawDuck is a DuckDB extension for schema-less ingestion: JSON goes into a table whose columns are
  inferred, created and widened while the data arrives. This development models the code under
  \<^verbatim>\<open>src/src\<close> (paths below are relative to it) and proves what each part promises.

  \<^bold>\<open>How the parts interact.\<close> A payload text is parsed into rows, exploded along a dotted path and
  normalized when it is OTLP; a schema tree is inferred from the rows and flattened into columns. An
  ingestor brings the target table to those columns and appends the rows, directly or through a pool
  of append workers. Around it stand the ways data comes in: the table function \<^verbatim>\<open>raw_ingest\<close>, the file
  pipeline, INSERT into a virtual table, the HTTP and gRPC servers with their group commit, the
  asynchronous buffers, and a remote database over quack. Optimizer hooks collect statistics of
  queries and answer aggregations from materialized projections.

  \<^bold>\<open>Theories and code, in the order of the data.\<close>
  \<^item> \<open>Prelude\<close>: exceptions as values (\<open>raw_error\<close>, \<open>'a result\<close>), case folding, decimal printing, list
    lemmas, and the locales \<open>inductive_invariant\<close>, \<open>terminating\<close> (step relations) and \<open>widening\<close>
    (joins). \<open>Json\<close>: yyjson values, DuckDB types and cells, and the record \<open>lib\<close> of the third-party
    functions the code calls. \<open>Ordered_Map\<close>: \<^verbatim>\<open>std::map\<close>. \<open>Sql\<close>: generated SQL text and a reader of it.
  \<^item> \<open>raw_json.cpp\<close>: \<open>Payload\<close> (parsing, read pool, line mode), \<open>Explode\<close>, \<open>Otlp\<close>, \<open>Process\<close> (whole
    payloads, from a text or document by document), \<open>Transforms\<close> (with \<open>raw_transforms.cpp\<close>), \<open>Schema\<close>
    (the tree \<^verbatim>\<open>RawNode\<close> with both child lookups, the scalar lattice, \<^verbatim>\<open>MergeValue\<close>), \<open>Flatten\<close>
    (columns and names), \<open>Extract\<close> (routing values to columns), \<open>Fill\<close> (column vectors). Their
    specifications are \<open>Schema_Spec\<close> and \<open>Inference\<close>: the abstract schema, its join, and \<^verbatim>\<open>MergeValue\<close>
    as that join; \<open>Lossless\<close>: from rows to cells without loss.
  \<^item> \<open>raw_ingest.cpp\<close>: \<open>Widen\<close> (\<^verbatim>\<open>JoinColumnTypes\<close>, shape hash, payload merging), \<open>Table\<close> (native DDL,
    deltas, layouts, appends), \<open>AppendPool\<close> (\<^verbatim>\<open>RawAppendPool\<close> under its lock), \<open>Settings\<close>
    (\<open>raw_write_settings.cpp\<close>), \<open>Ingest\<close> (\<^verbatim>\<open>RawIngestor\<close> with its caches) and \<open>Ingest_Spec\<close> (its
    specification), \<open>Fallback\<close> (the SQL path of \<^verbatim>\<open>RawIngestor\<close>), \<open>FileIngest\<close> (reader and coalescing
    consumer of \<^verbatim>\<open>raw_ingest_file\<close>), \<open>Pipeline\<close> (its queues and threads), \<open>StreamIngest\<close>
    (\<^verbatim>\<open>RawStreamIngestor\<close>), \<open>Transactions\<close> (transaction control, \<^verbatim>\<open>RawIngestSerialized\<close>) and
    \<open>GroupCommit\<close> (\<^verbatim>\<open>RawIngestGroupCommit\<close>).
  \<^item> Entry points: \<open>Records\<close> (\<open>raw_records.cpp\<close>, \<open>raw_scalars.cpp\<close>), \<open>Insert\<close> (\<open>raw_insert.cpp\<close>),
    \<open>Async\<close> (\<open>raw_async.cpp\<close>), \<open>Api\<close> (\<open>raw_api.cpp\<close>, \<open>raw_otlp_pb.cpp\<close>), \<open>Collector\<close>
    (\<open>raw_grpc.cpp\<close>), \<open>Serving\<close> (the HTTP path end to end and \<^verbatim>\<open>raw_ingest\<close>), \<open>Quack\<close> (\<open>raw_quack_attach.cpp\<close>, \<open>raw_attach.cpp\<close>).
  \<^item> \<open>raw_optimize.cpp\<close>: \<open>Plans\<close> (the hooks on query plans), \<open>Plans_Spec\<close> (typing and meaning of plans),
    \<open>Optimize\<close> (the table functions and the SQL they run).

  \<^bold>\<open>Conventions.\<close> A structure of the code is a record with its fields, a method a definition over it,
  an exception or early return a value of \<open>result\<close> or an option. What threads do is an inductive step
  relation whose steps are the sections of code under a lock; a theorem about all its runs is a
  theorem about all interleavings. Addresses of objects are numbers (storage tokens) or paths (nodes of
  the schema tree). Hashes, 64-bit counts of the answers and the bytes of encodings are words and wrap;
  row numbers inside a batch are natural numbers. Third-party behaviour a theorem relies on is a named
  hypothesis (\<open>lib_ok\<close>, \<open>transactional\<close> and others), and the theorem's witness shows an instance of it.

  \<^bold>\<open>What the groups of lemmas show.\<close>
  \<^item> Inference and values: \<^verbatim>\<open>MergeValue\<close> computes a join, so the schema does not depend on the order of
    the rows; every value has a column; a cell carries the value at the column's path; names are
    distinct; the two child lookups agree.
  \<^item> Ingest: evolution and append keep old rows and store new ones; the caches, the append pool and any
    worker schedule are invisible; so is sharing one ingestor among consumers; the SQL fallback
    evolves a table as the native path does and is all or nothing.
  \<^item> Concurrency: every request of the group commit, every batch of the pipeline, every buffered
    payload is in one place at a time and handled once; the coordinator and the parallel flush
    terminate; where the code can wait for ever this is proved too (\<open>case_variant_waits_forever\<close>,
    \<open>escaped_rollback_blocks_table\<close>, \<open>pipeline_can_stall\<close>).
  \<^item> Servers: \<open>Serving\<close> composes the HTTP path from the request to the table, and what is posted is in the
    table; the token is the only gate and compares whole texts; a protobuf export is the JSON export
    of its text; what an export leaves behind when its transaction fails; the remote lane sends each
    document once.
  \<^item> Queries: rewriting onto a projection keeps the answer and the types; \<^verbatim>\<open>raw_optimize\<close> keeps the rows;
    saved statistics, quoted names and literals, and protobuf status bodies read back.

  \<^bold>\<open>Bounds and termination.\<close> The recursions are structural or have a measure (the length loop of the
  protobuf status: the remaining length). Only \<open>scan_chunks\<close>, the calls of a listing function until its
  end, has fuel: one call more than there are entries left, which is proved to be enough. The loop that
  cuts a file into batches is a \<open>partial_function\<close> proved to end whenever the batch size is positive, the files' reads being a
  finite list. The constants are those of the code: \<open>RAW_MAX_NESTING\<close>, \<open>RAW_MAX_COLUMNS\<close>,
  \<open>RAW_MAX_FLATTEN_DEPTH\<close>, \<open>BATCH_ROWS\<close>, \<open>RAW_DEFAULT_BATCH_SIZE\<close> and the limits of \<open>Settings\<close>; the size
  of a data chunk (\<^verbatim>\<open>STANDARD_VECTOR_SIZE\<close>) does not show in the rows and is left out or a parameter.

  \<^bold>\<open>Not modelled.\<close>
  \<^item> \<open>rawduck_extension.cpp\<close> and the registration functions of each file: they hand names and defaults to
    DuckDB and compute nothing. The forwarding methods of the quack catalog and the catalog methods that
    only throw.
  \<^item> DuckDB (binder, storage, transactions, casts), yyjson, the HTTP server, gRPC and protobuf: what the
    code asks of them is a parameter. The HTTP server's headers, body limit and sockets are left out.
  \<^item> Release of memory: the allocation pool of the reader, documents kept alive for their rows, and an
    append pool destroyed while a batch is being handed to it. The reuse of a freed table address as a
    cache key.
  \<^item> The normalization of an OTLP row that is itself a wrapper around a list relinks nodes of a shared
    document; it is left undescribed, which is the value None of \<open>process_payload\<close>.
  \<^item> Flushing row groups to disk early, timing, and which thread runs next, other than as any order.
\<close>

end
